(* ===== verification/Runner_Prelude.thy ===== *)
theory Runner_Prelude
  imports Main "HOL-Library.Monad_Syntax" "HOL-Library.Multiset" "HOL-Library.Signed_Division"
begin

text \<open>
  Prelude of the development: the named collections the component theories add their facts to,
  and the lemmas on lists, options and finite maps that they share.
\<close>

named_theorems frame_simps \<open>fields of the process state an operation leaves alone\<close>
named_theorems env_intros \<open>introduction rules for the relation between process states\<close>

subsection \<open>Options as the results of steps that may be undefined\<close>

lemma bind_SomeI: "m = Some x \<Longrightarrow> f x = r \<Longrightarrow> Option.bind m f = r"
  by simp

lemma bind_pair_Some_iff:
  "Option.bind m (\<lambda>(a, b). f a b) = Some r \<longleftrightarrow> (\<exists>a b. m = Some (a, b) \<and> f a b = Some r)"
  by (cases m) auto

lemma bind_triple_Some_iff:
  "Option.bind m (\<lambda>(a, b, c). f a b c) = Some r \<longleftrightarrow>
     (\<exists>a b c. m = Some (a, b, c) \<and> f a b c = Some r)"
  by (cases m) auto

subsection \<open>Lists\<close>

text \<open>Removing the first element that satisfies a predicate.\<close>

fun split_first :: "('a \<Rightarrow> bool) \<Rightarrow> 'a list \<Rightarrow> ('a list \<times> 'a \<times> 'a list) option" where
  "split_first P [] = None"
| "split_first P (x # xs) =
     (if P x then Some ([], x, xs)
      else map_option (\<lambda>(ys, y, zs). (x # ys, y, zs)) (split_first P xs))"

lemma split_first_None: "split_first P xs = None \<longleftrightarrow> (\<forall>x\<in>set xs. \<not> P x)"
  by (induction xs) auto

lemma split_first_SomeD:
  "split_first P xs = Some (ys, y, zs) \<Longrightarrow> xs = ys @ y # zs \<and> P y \<and> (\<forall>x\<in>set ys. \<not> P x)"
  by (induction xs arbitrary: ys) (auto split: if_splits)

lemma split_first_mid:
  "\<forall>x\<in>set ys. \<not> P x \<Longrightarrow> P y \<Longrightarrow> split_first P (ys @ y # zs) = Some (ys, y, zs)"
  by (induction ys) auto

lemma split_first_exists:
  assumes "\<exists>x\<in>set xs. P x"
  obtains ys y zs where "split_first P xs = Some (ys, y, zs)"
    and "xs = ys @ y # zs" and "P y" and "\<forall>x\<in>set ys. \<not> P x"
proof -
  from assms have "split_first P xs \<noteq> None" by (auto simp: split_first_None)
  then obtain ys y zs where s: "split_first P xs = Some (ys, y, zs)" by auto
  with that split_first_SomeD [OF s] show thesis by blast
qed

lemma nth_split: "k < length xs \<Longrightarrow> \<exists>ys y zs. xs = ys @ y # zs \<and> length ys = k"
  by (metis id_take_nth_drop length_take min.absorb4)

lemma distinct_snoc_last: "distinct (xs @ [a]) \<Longrightarrow> a \<notin> set xs"
  by simp

lemma set_remove_mid: "distinct (ys @ y # zs) \<Longrightarrow> set (ys @ zs) = set (ys @ y # zs) - {y}"
  by auto

lemma last_map_fst: "xs \<noteq> [] \<Longrightarrow> last (map f xs) = f (last xs)"
  by (rule last_map)

subsection \<open>Finite maps\<close>

lemma dom_upd_same: "a \<in> dom m \<Longrightarrow> dom (m(a \<mapsto> v)) = dom m"
  by auto

lemma map_upd_eq_self: "m a = Some v \<Longrightarrow> m(a \<mapsto> v) = m"
  by (rule map_upd_triv)

end
