(* ===== verification/Protocol.thy ===== *)
theory Protocol
  imports Runner_Prelude "HOL-Library.Char_ord"
begin

text \<open>
  \<^verbatim>\<open>include/common/protocol.h\<close>: message kinds, the fixed-size message and its layout, and the C
  string functions of the standard library through which both programs build paths and texts
  (\<open>snprintf\<close> with its \<open>%d\<close> conversion, \<open>strncpy\<close>, \<open>atoi\<close>). A C string is the list of its characters up to
  the terminating NUL.
\<close>

subsection \<open>Messages\<close>

datatype MsgType =
    SUBMIT | STATUS | SHUTDOWN | ACK | DONE
  | STATUS_REQ | STATUS_RESP | STATUS_END | SHUTDOWN_REQ | SHUTDOWN_ACK

record RpcMessage =
  msg_type :: MsgType
  sender_pid :: int
  msg_user_id :: int
  msg_command_id :: int
  payload :: string

definition RPC_PAYLOAD_SIZE :: nat where
  "RPC_PAYLOAD_SIZE = 480"

text \<open>\<open>memset(&m, 0, sizeof m)\<close>: the enumerator of value 0 is \<open>SUBMIT\<close>.\<close>

definition zero_msg :: RpcMessage where
  "zero_msg = \<lparr>msg_type = SUBMIT, sender_pid = 0, msg_user_id = 0, msg_command_id = 0, payload = []\<rparr>"

text \<open>
  Layout of \<open>RpcMessage\<close> on the 64-bit Linux ABI the program is built for: each member is placed at
  the next offset that is a multiple of its alignment, and the size is rounded up to the strictest
  alignment.
\<close>

fun place :: "nat \<Rightarrow> (nat \<times> nat) list \<Rightarrow> nat" where
  "place off [] = off"
| "place off ((sz, al) # ms) = place ((off + al - 1) div al * al + sz) ms"

definition rpc_members :: "(nat \<times> nat) list" where
  "rpc_members = [(4, 4), (4, 4), (4, 4), (8, 8), (RPC_PAYLOAD_SIZE, 1)]"

definition sizeof_RpcMessage :: nat where
  "sizeof_RpcMessage =
     (let al = foldr (\<lambda>(_, a) m. max a m) rpc_members 1
      in (place 0 rpc_members + al - 1) div al * al)"

lemma sizeof_RpcMessage_eq [simp]: "sizeof_RpcMessage = 504"
  by (simp add: sizeof_RpcMessage_def rpc_members_def RPC_PAYLOAD_SIZE_def)

subsection \<open>C strings\<close>

definition is_space :: "char \<Rightarrow> bool" where
  "is_space c \<longleftrightarrow> of_char c \<in> {9::nat, 10, 11, 12, 13, 32}"

definition is_digit :: "char \<Rightarrow> bool" where
  "is_digit c \<longleftrightarrow> 48 \<le> (of_char c :: nat) \<and> (of_char c :: nat) \<le> 57"

definition digit_char :: "nat \<Rightarrow> char" where
  "digit_char d = char_of (48 + d)"

definition digit_val :: "char \<Rightarrow> nat" where
  "digit_val c = of_char c - 48"

text \<open>The text of the conversion \<open>%d\<close> (and \<open>%ld\<close>).\<close>

fun put_dec :: "nat \<Rightarrow> string \<Rightarrow> string" where
  "put_dec n acc =
     (let acc' = digit_char (n mod 10) # acc
      in if n div 10 = 0 then acc' else put_dec (n div 10) acc')"

declare put_dec.simps [simp del]

definition fmt_d :: "int \<Rightarrow> string" where
  "fmt_d i = (if i < 0 then CHR ''-'' # put_dec (nat (- i)) [] else put_dec (nat i) [])"

text \<open>
  \<open>snprintf(buf, size, ...)\<close> and \<open>strncpy(buf, s, size - 1); buf[size - 1] = NUL\<close> keep the first
  \<open>size - 1\<close> characters.
\<close>

definition fit_buffer :: "nat \<Rightarrow> string \<Rightarrow> string" where
  "fit_buffer sz s = take (sz - 1) s"

text \<open>
  \<open>atoi\<close>: leading white space, an optional sign, digits up to the first other character. The
  standard leaves a value outside \<open>int\<close> undefined: that is \<open>None\<close>.
\<close>

fun read_dec :: "nat \<Rightarrow> string \<Rightarrow> nat" where
  "read_dec n [] = n"
| "read_dec n (c # cs) = (if is_digit c then read_dec (10 * n + digit_val c) cs else n)"

definition signed_dec :: "string \<Rightarrow> int" where
  "signed_dec s =
     (case s of
        [] \<Rightarrow> 0
      | c # cs \<Rightarrow>
          if c = CHR ''-'' then - int (read_dec 0 cs)
          else if c = CHR ''+'' then int (read_dec 0 cs)
          else int (read_dec 0 s))"

definition c_int :: "int \<Rightarrow> int option" where
  "c_int n = (if - (2 ^ 31) \<le> n \<and> n < 2 ^ 31 then Some n else None)"

definition atoi :: "string \<Rightarrow> int option" where
  "atoi s = c_int (signed_dec (dropWhile is_space s))"

subsection \<open>Paths\<close>

definition LF :: string where
  "LF = [CHR 0x0A]"

definition SERVER_FIFO_PATH :: string where
  "SERVER_FIFO_PATH = ''/tmp/server_fifo''"

text \<open>The buffers that receive a private path all hold 128 bytes.\<close>

definition runner_fifo :: "int \<Rightarrow> string" where
  "runner_fifo pid = fit_buffer 128 (''/tmp/runner_'' @ fmt_d pid)"

subsection \<open>Decimal text\<close>

lemma of_char_digit_char: "d < 10 \<Longrightarrow> (of_char (digit_char d) :: nat) = 48 + d"
  by (simp add: digit_char_def)

lemma digit_char_digit [simp]: "d < 10 \<Longrightarrow> is_digit (digit_char d)"
  by (simp add: is_digit_def of_char_digit_char)

lemma digit_val_digit_char [simp]: "d < 10 \<Longrightarrow> digit_val (digit_char d) = d"
  by (simp add: digit_val_def of_char_digit_char)

lemma digit_not_space: "is_digit c \<Longrightarrow> \<not> is_space c"
  by (auto simp: is_digit_def is_space_def)

lemma digit_not_sign: "is_digit c \<Longrightarrow> c \<noteq> CHR ''-'' \<and> c \<noteq> CHR ''+''"
  by (auto simp: is_digit_def)

lemma put_dec_digits: "\<forall>c\<in>set acc. is_digit c \<Longrightarrow> \<forall>c\<in>set (put_dec n acc). is_digit c"
proof (induction n acc rule: put_dec.induct)
  case (1 n acc)
  then show ?case by (subst put_dec.simps) (auto simp: Let_def)
qed

lemma put_dec_nonempty: "put_dec n acc \<noteq> []"
proof (induction n acc rule: put_dec.induct)
  case (1 n acc)
  then show ?case by (subst put_dec.simps) (auto simp: Let_def)
qed

lemma read_dec_put_dec: "read_dec 0 (put_dec n acc) = read_dec n acc"
proof (induction n acc rule: put_dec.induct)
  case (1 n acc)
  show ?case
  proof (cases "n div 10 = 0")
    case True
    then have "n mod 10 = n" by simp
    with True show ?thesis by (subst put_dec.simps) (simp add: Let_def)
  next
    case False
    with 1 show ?thesis by (subst put_dec.simps) (simp add: Let_def)
  qed
qed

lemma length_put_dec: "n < 10 ^ Suc k \<Longrightarrow> length (put_dec n acc) \<le> Suc k + length acc"
proof (induction k arbitrary: n acc)
  case 0
  then show ?case by (subst put_dec.simps) (simp add: Let_def)
next
  case (Suc k)
  from Suc.prems have "n div 10 < 10 ^ Suc k" by (simp add: less_mult_imp_div_less)
  from Suc.IH [OF this, of "digit_char (n mod 10) # acc"] show ?case
    by (subst put_dec.simps) (auto simp: Let_def)
qed

lemma put_dec_hd:
  obtains c cs where "put_dec n [] = c # cs" and "is_digit c"
  using put_dec_nonempty [of n "[]"] put_dec_digits [of "[]" n]
  by (cases "put_dec n []") auto

lemma signed_dec_fmt_d: "signed_dec (fmt_d i) = i"
proof (cases "i < 0")
  case True
  then show ?thesis by (simp add: fmt_d_def signed_dec_def read_dec_put_dec)
next
  case False
  obtain c cs where c: "put_dec (nat i) [] = c # cs" "is_digit c" by (rule put_dec_hd)
  have "read_dec 0 (c # cs) = nat i"
    using read_dec_put_dec [of "nat i" "[]"] c(1) by simp
  with False c show ?thesis
    by (simp add: fmt_d_def signed_dec_def digit_not_sign del: read_dec.simps)
qed

lemma fmt_d_no_space: "dropWhile is_space (fmt_d i) = fmt_d i"
proof (cases "i < 0")
  case True
  then show ?thesis by (simp add: fmt_d_def is_space_def)
next
  case False
  obtain c cs where "put_dec (nat i) [] = c # cs" "is_digit c" by (rule put_dec_hd)
  with False show ?thesis by (simp add: fmt_d_def digit_not_space)
qed

lemma fmt_d_inj: "fmt_d i = fmt_d j \<longleftrightarrow> i = j"
  by (metis signed_dec_fmt_d)

lemma length_fmt_d:
  assumes "- (2 ^ 31) \<le> i" and "i < 2 ^ 31"
  shows "length (fmt_d i) \<le> 11"
proof -
  have "nat (- i) < 10 ^ Suc 9" and "nat i < 10 ^ Suc 9" using assms by auto
  then have "length (put_dec (nat (- i)) []) \<le> 10" and "length (put_dec (nat i) []) \<le> 10"
    using length_put_dec [of "nat (- i)" 9 "[]"] length_put_dec [of "nat i" 9 "[]"] by simp_all
  then show ?thesis by (auto simp: fmt_d_def)
qed

lemma c_int_Some [simp]: "- (2 ^ 31) \<le> n \<Longrightarrow> n < 2 ^ 31 \<Longrightarrow> c_int n = Some n"
  by (simp add: c_int_def)

lemma atoi_fmt_d: "c_int i = Some i \<Longrightarrow> atoi (fmt_d i) = Some i"
  by (simp add: atoi_def fmt_d_no_space signed_dec_fmt_d)

lemma runner_fifo_untruncated:
  assumes "- (2 ^ 31) \<le> pid" and "pid < 2 ^ 31"
  shows "runner_fifo pid = ''/tmp/runner_'' @ fmt_d pid"
  using length_fmt_d [OF assms] by (simp add: runner_fifo_def fit_buffer_def)

lemma runner_fifo_not_server: "runner_fifo pid \<noteq> SERVER_FIFO_PATH"
  by (simp add: runner_fifo_def fit_buffer_def SERVER_FIFO_PATH_def)

end
