(* ===== verification/C_Runtime.thy ===== *)
theory C_Runtime
  imports Protocol
begin

text \<open>
  What both programs use of C and of the POSIX library, as state passing over a process state. A
  step returns \<open>None\<close> exactly where the C program has no defined behaviour (a null or dangling
  pointer read, an access outside an array, a read of an uninitialised object, a signed overflow, a
  double free) or does not return; every outcome the program can observe (a failed \<open>malloc\<close>, a failed
  system call) is an ordinary result. The outcomes that the environment decides are read off
  arbitrary functions of a clock that advances with each such call, so a statement about all process
  states is a statement about all environments.
\<close>

subsection \<open>Arrays, variables and arithmetic\<close>

text \<open>
  An array block holds \<open>None\<close> where it has not been written yet. A pointer to an array that may be
  \<open>NULL\<close> is an option of a block.
\<close>

type_synonym 'a block = "'a option list"

definition rd :: "'a block \<Rightarrow> int \<Rightarrow> 'a option" where
  "rd b i = (if 0 \<le> i \<and> i < int (length b) then b ! nat i else None)"

definition wr :: "'a block \<Rightarrow> int \<Rightarrow> 'a \<Rightarrow> 'a block option" where
  "wr b i x = (if 0 \<le> i \<and> i < int (length b) then Some (b[nat i := Some x]) else None)"

text \<open>The argument \<open>&x\<close> of a call: \<open>NULL\<close>, or a variable with its contents if it has been set.\<close>

datatype 'a var = NULLV | Var "'a option"

fun deref :: "'a var \<Rightarrow> 'a option" where
  "deref NULLV = None"
| "deref (Var c) = c"

text \<open>C's remainder: the sign of the dividend; a zero divisor is undefined.\<close>

definition c_mod :: "int \<Rightarrow> int \<Rightarrow> int option" where
  "c_mod a b = (if b = 0 then None else Some (a smod b))"

text \<open>
  \<open>for (i = lo; i < lo + k; i++) if (t(i)) break;\<close> The result is the index at which the loop stopped,
  and -1 when the test never held.
\<close>

fun for_find :: "(int \<Rightarrow> bool option) \<Rightarrow> int \<Rightarrow> nat \<Rightarrow> int option" where
  "for_find t lo 0 = Some (- 1)"
| "for_find t lo (Suc k) = do {
     b \<leftarrow> t lo;
     if b then Some lo else for_find t (lo + 1) k }"

subsection \<open>The process\<close>

record timeval =
  tv_sec :: int
  tv_usec :: int

text \<open>
  The effects a process has on the outside: messages and texts written to a path (with the number of
  bytes the kernel took), lines on the standard streams, names made and removed in the file system.
\<close>

datatype event =
    Wrote_msg string RpcMessage int
  | Wrote_text string string int
  | Out string
  | Err string
  | Made_fifo string
  | Unlinked string

record os =
  tick :: nat
  malloc_ok :: "nat \<Rightarrow> bool"
  rand_out :: "nat \<Rightarrow> nat"
  clock_out :: "nat \<Rightarrow> timeval"
  sys_out :: "nat \<Rightarrow> int"
  self_pid :: int
  blocks :: nat
  open_fds :: nat
  events :: "event list"

definition emit :: "event \<Rightarrow> 'a os_scheme \<Rightarrow> 'a os_scheme" where
  "emit e w = w\<lparr>events := events w @ [e]\<rparr>"

definition c_rand :: "'a os_scheme \<Rightarrow> nat \<times> 'a os_scheme" where
  "c_rand w = (rand_out w (tick w), w\<lparr>tick := Suc (tick w)\<rparr>)"

definition gettimeofday :: "'a os_scheme \<Rightarrow> timeval \<times> 'a os_scheme" where
  "gettimeofday w = (clock_out w (tick w), w\<lparr>tick := Suc (tick w)\<rparr>)"

definition malloc_try :: "'a os_scheme \<Rightarrow> bool \<times> 'a os_scheme" where
  "malloc_try w = (malloc_ok w (tick w), w\<lparr>tick := Suc (tick w)\<rparr>)"

text \<open>
  Arrays and strings on the heap are values of the model, so only how many of them are allocated is
  recorded: \<open>malloc_block\<close> adds one when it succeeds and \<open>free_block\<close> takes one away.
\<close>

definition malloc_block :: "'a os_scheme \<Rightarrow> bool \<times> 'a os_scheme" where
  "malloc_block w =
     (let (ok, w1) = malloc_try w
      in if ok then (True, w1\<lparr>blocks := Suc (blocks w1)\<rparr>) else (False, w1))"

definition free_block :: "'a os_scheme \<Rightarrow> 'a os_scheme option" where
  "free_block w = (if blocks w = 0 then None else Some (w\<lparr>blocks := blocks w - 1\<rparr>))"

text \<open>\<open>free(p)\<close> of a pointer that may be \<open>NULL\<close>; \<open>nb p\<close> is the number of blocks it stands for.\<close>

definition free_opt :: "'b option \<Rightarrow> 'a os_scheme \<Rightarrow> 'a os_scheme option" where
  "free_opt p w = (case p of None \<Rightarrow> Some w | Some _ \<Rightarrow> free_block w)"

definition nb :: "'b option \<Rightarrow> nat" where
  "nb p = (if p = None then 0 else 1)"

lemma nb_simps [simp]: "nb None = 0" "nb (Some x) = 1"
  by (simp_all add: nb_def)

lemma free_opt_nb: "nb p \<le> blocks w \<Longrightarrow> free_opt p w = Some (w\<lparr>blocks := blocks w - nb p\<rparr>)"
  by (auto simp: free_opt_def free_block_def nb_def split: option.splits if_splits)

definition uninit :: "int \<Rightarrow> 'a block" where
  "uninit n = replicate (nat n) None"

subsection \<open>System calls\<close>

text \<open>
  A descriptor is its number together with the path it was opened on; -1 is the failure value of
  \<open>open\<close>. The result of a call is read off \<open>sys_out\<close>: a negative number is the failure -1.
\<close>

datatype fd = Fd (fd_num: int) (fd_path: string)

definition sys_call :: "'a os_scheme \<Rightarrow> int \<times> 'a os_scheme" where
  "sys_call w = (let r = sys_out w (tick w) in (if r < 0 then - 1 else r, w\<lparr>tick := Suc (tick w)\<rparr>))"

definition sys_open :: "string \<Rightarrow> 'a os_scheme \<Rightarrow> fd \<times> 'a os_scheme" where
  "sys_open path w =
     (let (r, w1) = sys_call w
      in (Fd r path, if r = - 1 then w1 else w1\<lparr>open_fds := Suc (open_fds w1)\<rparr>))"

definition sys_close :: "fd \<Rightarrow> 'a os_scheme \<Rightarrow> int \<times> 'a os_scheme" where
  "sys_close d w =
     (let (r, w1) = sys_call w
      in (if r = - 1 then - 1 else 0, w1\<lparr>open_fds := open_fds w1 - 1\<rparr>))"

text \<open>\<open>write\<close> takes at most the number of bytes it is given.\<close>

definition sys_write_msg :: "fd \<Rightarrow> RpcMessage \<Rightarrow> 'a os_scheme \<Rightarrow> int \<times> 'a os_scheme" where
  "sys_write_msg d m w =
     (let (r, w1) = sys_call w; n = min r (int sizeof_RpcMessage)
      in (n, if n = - 1 then w1 else emit (Wrote_msg (fd_path d) m n) w1))"

definition sys_write_text :: "fd \<Rightarrow> string \<Rightarrow> 'a os_scheme \<Rightarrow> int \<times> 'a os_scheme" where
  "sys_write_text d s w =
     (let (r, w1) = sys_call w; n = min r (int (length s))
      in (n, if n = - 1 then w1 else emit (Wrote_text (fd_path d) s n) w1))"

text \<open>The messages that arrived whole, with the path they were written to.\<close>

fun delivered :: "event list \<Rightarrow> (string \<times> RpcMessage) list" where
  "delivered [] = []"
| "delivered (e # es) =
     (case e of
        Wrote_msg p m n \<Rightarrow> if n = int sizeof_RpcMessage then (p, m) # delivered es else delivered es
      | _ \<Rightarrow> delivered es)"

lemma delivered_append [simp]: "delivered (es @ es') = delivered es @ delivered es'"
  by (induction es) (auto split: event.splits)

subsection \<open>Facts about blocks and searches\<close>

lemma rd_nth [simp]: "0 \<le> i \<Longrightarrow> i < int (length b) \<Longrightarrow> rd b i = b ! nat i"
  by (simp add: rd_def)

lemma wr_in [simp]: "0 \<le> i \<Longrightarrow> i < int (length b) \<Longrightarrow> wr b i x = Some (b[nat i := Some x])"
  by (simp add: wr_def)

lemma length_uninit [simp]: "length (uninit n) = nat n"
  by (simp add: uninit_def)

text \<open>The block \<open>b\<close> holds the list \<open>xs\<close> in its first cells.\<close>

definition holds :: "'a block \<Rightarrow> 'a list \<Rightarrow> bool" where
  "holds b xs \<longleftrightarrow> length xs \<le> length b \<and> take (length xs) b = map Some xs"

lemma holds_Nil [simp]: "holds b []"
  by (simp add: holds_def)

lemma holds_rd:
  assumes "holds b xs" and "0 \<le> i" and "i < int (length xs)"
  shows "rd b i = Some (xs ! nat i)"
proof -
  have "take (length xs) b ! nat i = map Some xs ! nat i"
    using assms(1) by (simp add: holds_def)
  then show ?thesis using assms by (simp add: holds_def nat_less_iff)
qed

lemma holds_full: "holds b xs \<Longrightarrow> length b = length xs \<Longrightarrow> b = map Some xs"
  by (simp add: holds_def)

lemma holds_write:
  assumes "holds b xs" and "length xs < length b"
  shows "wr b (int (length xs)) x = Some (b[length xs := Some x])"
    and "holds (b[length xs := Some x]) (xs @ [x])"
  using assms by (auto simp: holds_def take_Suc_conv_app_nth)

lemma for_find_None:
  assumes "\<And>i. lo \<le> i \<Longrightarrow> i < lo + int k \<Longrightarrow> t i = Some (P i)"
    and "\<And>i. lo \<le> i \<Longrightarrow> i < lo + int k \<Longrightarrow> \<not> P i"
  shows "for_find t lo k = Some (- 1)"
  using assms by (induction k arbitrary: lo) simp_all

lemma for_find_Some:
  assumes "\<And>i. lo \<le> i \<Longrightarrow> i \<le> j \<Longrightarrow> t i = Some (P i)"
    and "\<And>i. lo \<le> i \<Longrightarrow> i < j \<Longrightarrow> \<not> P i"
    and "lo \<le> j" "j < lo + int k" "P j"
  shows "for_find t lo k = Some j"
  using assms
proof (induction k arbitrary: lo)
  case 0
  then show ?case by simp
next
  case (Suc k)
  show ?case
  proof (cases "lo = j")
    case True
    with Suc.prems show ?thesis by simp
  next
    case False
    with Suc.prems have "for_find t (lo + 1) k = Some j"
      by (intro Suc.IH) auto
    with False Suc.prems show ?thesis by simp
  qed
qed

end
