(* ===== verification/Job_Queue.thy ===== *)
theory Job_Queue
  imports C_Runtime
begin

text \<open>
  \<^verbatim>\<open>src/controller/scheduler.c\<close>, the linked-list queue: nodes and queue objects on a heap, the
  operations that walk and relink the nodes, and the abstraction of a heap to the lists of jobs its
  queues hold. The fair policy, which uses these operations, is the theory after this one.
\<close>

subsection \<open>Data\<close>

datatype JobState = JOB_QUEUED | JOB_RUNNING

record job_info =
  command_id :: int
  user_id :: int
  job_state :: JobState
  runner_pid :: int
  start_time :: timeval

datatype ptr = NULL | At nat

record job_node =
  node_job :: job_info
  node_next :: ptr

record job_queue =
  q_head :: ptr
  q_tail :: ptr
  q_size :: int

text \<open>
  The heap of the controller: allocated nodes and queue objects by address. Addresses are not used
  again after they are freed, so a dangling pointer never finds a cell and its use is \<open>None\<close>.
\<close>

record world = os +
  fresh :: nat
  nodes :: "nat \<rightharpoonup> job_node"
  queues :: "nat \<rightharpoonup> job_queue"

definition get_node :: "ptr \<Rightarrow> world \<Rightarrow> job_node option" where
  "get_node p w = (case p of NULL \<Rightarrow> None | At a \<Rightarrow> nodes w a)"

definition put_node :: "ptr \<Rightarrow> job_node \<Rightarrow> world \<Rightarrow> world option" where
  "put_node p n w =
     (case p of NULL \<Rightarrow> None
      | At a \<Rightarrow> (case nodes w a of None \<Rightarrow> None | Some _ \<Rightarrow> Some (w\<lparr>nodes := (nodes w)(a \<mapsto> n)\<rparr>)))"

definition free_node :: "ptr \<Rightarrow> world \<Rightarrow> world option" where
  "free_node p w =
     (case p of NULL \<Rightarrow> Some w
      | At a \<Rightarrow> (case nodes w a of None \<Rightarrow> None | Some _ \<Rightarrow> Some (w\<lparr>nodes := (nodes w)(a := None)\<rparr>)))"

definition get_queue :: "ptr \<Rightarrow> world \<Rightarrow> job_queue option" where
  "get_queue q w = (case q of NULL \<Rightarrow> None | At a \<Rightarrow> queues w a)"

definition put_queue :: "ptr \<Rightarrow> job_queue \<Rightarrow> world \<Rightarrow> world option" where
  "put_queue q c w =
     (case q of NULL \<Rightarrow> None
      | At a \<Rightarrow> (case queues w a of None \<Rightarrow> None | Some _ \<Rightarrow> Some (w\<lparr>queues := (queues w)(a \<mapsto> c)\<rparr>)))"

definition free_queue :: "ptr \<Rightarrow> world \<Rightarrow> world option" where
  "free_queue q w =
     (case q of NULL \<Rightarrow> Some w
      | At a \<Rightarrow> (case queues w a of None \<Rightarrow> None | Some _ \<Rightarrow> Some (w\<lparr>queues := (queues w)(a := None)\<rparr>)))"

text \<open>\<open>malloc(sizeof(job_node_t))\<close> and the two stores that follow it.\<close>

definition new_node :: "job_info \<Rightarrow> world \<Rightarrow> ptr \<times> world" where
  "new_node j w =
     (let (ok, w1) = malloc_try w
      in if \<not> ok then (NULL, w1)
         else (At (fresh w1),
               w1\<lparr>fresh := Suc (fresh w1),
                  nodes := (nodes w1)(fresh w1 \<mapsto> \<lparr>node_job = j, node_next = NULL\<rparr>)\<rparr>))"

subsection \<open>Operations\<close>

definition queue_create :: "world \<Rightarrow> ptr \<times> world" where
  "queue_create w =
     (let (ok, w1) = malloc_try w
      in if \<not> ok then (NULL, w1)
         else (At (fresh w1),
               w1\<lparr>fresh := Suc (fresh w1),
                  queues := (queues w1)(fresh w1 \<mapsto> \<lparr>q_head = NULL, q_tail = NULL, q_size = 0\<rparr>)\<rparr>))"

partial_function (option) destroy_nodes :: "ptr \<Rightarrow> world \<Rightarrow> world option" where
  [code]: "destroy_nodes cur w =
     (if cur = NULL then Some w
      else do {
        n \<leftarrow> get_node cur w;
        w1 \<leftarrow> free_node cur w;
        destroy_nodes (node_next n) w1 })"

definition queue_destroy :: "ptr \<Rightarrow> world \<Rightarrow> world option" where
  "queue_destroy q w =
     (if q = NULL then Some w
      else do {
        c \<leftarrow> get_queue q w;
        w1 \<leftarrow> destroy_nodes (q_head c) w;
        free_queue q w1 })"

definition queue_enqueue :: "ptr \<Rightarrow> job_info var \<Rightarrow> world \<Rightarrow> (bool \<times> world) option" where
  "queue_enqueue q job w =
     (if q = NULL \<or> job = NULLV then Some (False, w)
      else do {
        j \<leftarrow> deref job;
        let (node, w1) = new_node j w;
        if node = NULL then Some (False, w1)
        else do {
          c \<leftarrow> get_queue q w1;
          (c1, w2) \<leftarrow>
            (if q_tail c = NULL then Some (c\<lparr>q_head := node, q_tail := node\<rparr>, w1)
             else do {
               t \<leftarrow> get_node (q_tail c) w1;
               w2 \<leftarrow> put_node (q_tail c) (t\<lparr>node_next := node\<rparr>) w1;
               Some (c\<lparr>q_tail := node\<rparr>, w2) });
          sz \<leftarrow> c_int (q_size c1 + 1);
          w3 \<leftarrow> put_queue q (c1\<lparr>q_size := sz\<rparr>) w2;
          Some (True, w3) } })"

definition queue_dequeue :: "ptr \<Rightarrow> job_info var \<Rightarrow> world \<Rightarrow> (bool \<times> job_info var \<times> world) option" where
  "queue_dequeue q out_job w =
     (if q = NULL \<or> out_job = NULLV then Some (False, out_job, w)
      else do {
        c \<leftarrow> get_queue q w;
        if q_head c = NULL then Some (False, out_job, w)
        else do {
          let old_head = q_head c;
          n \<leftarrow> get_node old_head w;
          let c1 = c\<lparr>q_head := node_next n\<rparr>;
          let c2 = (if q_head c1 = NULL then c1\<lparr>q_tail := NULL\<rparr> else c1);
          w1 \<leftarrow> free_node old_head w;
          sz \<leftarrow> c_int (q_size c2 - 1);
          w2 \<leftarrow> put_queue q (c2\<lparr>q_size := sz\<rparr>) w1;
          Some (True, Var (Some (node_job n)), w2) } })"

text \<open>The loop \<open>for (i = 1; i < target_idx && curr != NULL; i++)\<close>, with \<open>target_idx - i\<close> as argument.\<close>

fun walk :: "nat \<Rightarrow> ptr \<Rightarrow> ptr \<Rightarrow> world \<Rightarrow> (ptr \<times> ptr) option" where
  "walk 0 prev cur w = Some (prev, cur)"
| "walk (Suc k) prev cur w =
     (if cur = NULL then Some (prev, cur)
      else do {
        n \<leftarrow> get_node cur w;
        walk k cur (node_next n) w })"

definition queue_dequeue_random ::
  "ptr \<Rightarrow> job_info var \<Rightarrow> world \<Rightarrow> (bool \<times> job_info var \<times> world) option" where
  "queue_dequeue_random q out_job w =
     (if q = NULL \<or> out_job = NULLV then Some (False, out_job, w)
      else do {
        c \<leftarrow> get_queue q w;
        if q_head c = NULL then Some (False, out_job, w)
        else do {
          let (r, w1) = c_rand w;
          target_idx \<leftarrow> c_mod (int r) (q_size c);
          if target_idx = 0 then queue_dequeue q out_job w1
          else do {
            h \<leftarrow> get_node (q_head c) w1;
            (prev, cur) \<leftarrow> walk (nat (target_idx - 1)) (q_head c) (node_next h) w1;
            if cur = NULL then Some (False, out_job, w1)
            else do {
              n \<leftarrow> get_node cur w1;
              p \<leftarrow> get_node prev w1;
              w2 \<leftarrow> put_node prev (p\<lparr>node_next := node_next n\<rparr>) w1;
              let c1 = (if node_next n = NULL then c\<lparr>q_tail := prev\<rparr> else c);
              w3 \<leftarrow> free_node cur w2;
              sz \<leftarrow> c_int (q_size c1 - 1);
              w4 \<leftarrow> put_queue q (c1\<lparr>q_size := sz\<rparr>) w3;
              Some (True, Var (Some (node_job n)), w4) } } } })"

text \<open>
  The search and the removal that \<open>queue_remove_by_command_id\<close> and \<open>queue_dequeue_fair\<close> both contain:
  the loop over \<open>prev\<close> and \<open>cur\<close>, then the body for the node found.
\<close>

partial_function (option) find_node ::
  "(job_info \<Rightarrow> bool) \<Rightarrow> ptr \<Rightarrow> ptr \<Rightarrow> world \<Rightarrow> (ptr \<times> ptr) option" where
  [code]: "find_node P prev cur w =
     (if cur = NULL then Some (prev, cur)
      else do {
        n \<leftarrow> get_node cur w;
        if P (node_job n) then Some (prev, cur)
        else find_node P cur (node_next n) w })"

definition unlink_node :: "ptr \<Rightarrow> ptr \<Rightarrow> ptr \<Rightarrow> world \<Rightarrow> (job_info \<times> world) option" where
  "unlink_node q prev cur w = do {
     n \<leftarrow> get_node cur w;
     c \<leftarrow> get_queue q w;
     (c1, w1) \<leftarrow>
       (if prev = NULL then Some (c\<lparr>q_head := node_next n\<rparr>, w)
        else do {
          p \<leftarrow> get_node prev w;
          w1 \<leftarrow> put_node prev (p\<lparr>node_next := node_next n\<rparr>) w;
          Some (c, w1) });
     let c2 = (if q_tail c1 = cur then c1\<lparr>q_tail := prev\<rparr> else c1);
     w2 \<leftarrow> free_node cur w1;
     sz \<leftarrow> c_int (q_size c2 - 1);
     w3 \<leftarrow> put_queue q (c2\<lparr>q_size := sz\<rparr>) w2;
     Some (node_job n, w3) }"

definition queue_remove_by_command_id ::
  "ptr \<Rightarrow> int \<Rightarrow> job_info var \<Rightarrow> world \<Rightarrow> (bool \<times> job_info var \<times> world) option" where
  "queue_remove_by_command_id q cid out_job w =
     (if q = NULL \<or> out_job = NULLV then Some (False, out_job, w)
      else do {
        c \<leftarrow> get_queue q w;
        (prev, cur) \<leftarrow> find_node (\<lambda>j. command_id j = cid) NULL (q_head c) w;
        if cur = NULL then Some (False, out_job, w)
        else do {
          (j, w1) \<leftarrow> unlink_node q prev cur w;
          Some (True, Var (Some j), w1) } })"

definition queue_is_empty :: "ptr \<Rightarrow> world \<Rightarrow> bool option" where
  "queue_is_empty q w =
     (if q = NULL then Some True
      else do { c \<leftarrow> get_queue q w; Some (q_size c = 0) })"

definition queue_size :: "ptr \<Rightarrow> world \<Rightarrow> int option" where
  "queue_size q w =
     (if q = NULL then Some 0
      else do { c \<leftarrow> get_queue q w; Some (q_size c) })"

definition queue_get_size :: "ptr \<Rightarrow> world \<Rightarrow> int option" where
  "queue_get_size q w =
     (if q = NULL then Some 0
      else do { c \<leftarrow> get_queue q w; Some (q_size c) })"

partial_function (option) copy_nodes ::
  "ptr \<Rightarrow> int \<Rightarrow> int \<Rightarrow> job_info block \<Rightarrow> world \<Rightarrow> (int \<times> job_info block) option" where
  [code]: "copy_nodes cur copied max_size arr w =
     (if cur \<noteq> NULL \<and> copied < max_size then do {
        n \<leftarrow> get_node cur w;
        arr1 \<leftarrow> wr arr copied (node_job n);
        copy_nodes (node_next n) (copied + 1) max_size arr1 w }
      else Some (copied, arr))"

definition queue_copy_to_array ::
  "ptr \<Rightarrow> job_info block option \<Rightarrow> int \<Rightarrow> world \<Rightarrow> (int \<times> job_info block option) option" where
  "queue_copy_to_array q arr max_size w =
     (case arr of
        None \<Rightarrow> Some (0, arr)
      | Some b \<Rightarrow>
          if q = NULL \<or> max_size \<le> 0 then Some (0, arr)
          else do {
            c \<leftarrow> get_queue q w;
            (copied, b1) \<leftarrow> copy_nodes (q_head c) 0 max_size b w;
            Some (copied, Some b1) })"

subsection \<open>The list a queue represents\<close>

text \<open>
  \<open>seg h p xs q\<close>: following \<open>next\<close> from \<open>p\<close> one meets exactly the nodes \<open>xs\<close> (addresses with their
  jobs) before arriving at \<open>q\<close>.
\<close>

fun seg :: "(nat \<rightharpoonup> job_node) \<Rightarrow> ptr \<Rightarrow> (nat \<times> job_info) list \<Rightarrow> ptr \<Rightarrow> bool" where
  "seg h p [] q = (p = q)"
| "seg h p ((a, j) # xs) q =
     (p = At a \<and> (case h a of None \<Rightarrow> False | Some n \<Rightarrow> node_job n = j \<and> seg h (node_next n) xs q))"

definition tail_ptr :: "ptr \<Rightarrow> (nat \<times> job_info) list \<Rightarrow> ptr" where
  "tail_ptr p xs = (if xs = [] then p else At (fst (last xs)))"

definition queue_rep :: "(nat \<rightharpoonup> job_node) \<Rightarrow> job_queue \<Rightarrow> (nat \<times> job_info) list \<Rightarrow> bool" where
  "queue_rep h c xs \<longleftrightarrow>
     seg h (q_head c) xs NULL \<and> distinct (map fst xs) \<and> q_tail c = tail_ptr NULL xs \<and>
     q_size c = int (length xs) \<and> int (length xs) < 2 ^ 31"

text \<open>
  \<open>store w m\<close>: the queue objects of the heap are those of \<open>dom m\<close>, each represents the list of jobs that
  \<open>m\<close> gives it, no node is in two queues, and every node is in one.
\<close>

definition store_at :: "world \<Rightarrow> (nat \<Rightarrow> (nat \<times> job_info) list) \<Rightarrow> (nat \<rightharpoonup> job_info list) \<Rightarrow> bool" where
  "store_at w ns m \<longleftrightarrow>
     dom (queues w) = dom m \<and>
     (\<forall>a\<in>dom m. m a = Some (map snd (ns a)) \<and> queue_rep (nodes w) (the (queues w a)) (ns a)) \<and>
     (\<forall>a\<in>dom m. \<forall>b\<in>dom m. a \<noteq> b \<longrightarrow> fst ` set (ns a) \<inter> fst ` set (ns b) = {}) \<and>
     dom (nodes w) = (\<Union>a\<in>dom m. fst ` set (ns a)) \<and>
     (\<forall>x\<in>dom (nodes w) \<union> dom (queues w). x < fresh w)"

definition store :: "world \<Rightarrow> (nat \<rightharpoonup> job_info list) \<Rightarrow> bool" where
  "store w m \<longleftrightarrow> (\<exists>ns. store_at w ns m)"

text \<open>What no queue operation touches: everything of the process but the clock and the heap.\<close>

definition env_eq :: "'a os_scheme \<Rightarrow> 'a os_scheme \<Rightarrow> bool" where
  "env_eq w w' \<longleftrightarrow>
     malloc_ok w' = malloc_ok w \<and> rand_out w' = rand_out w \<and> clock_out w' = clock_out w \<and>
     sys_out w' = sys_out w \<and> self_pid w' = self_pid w \<and> blocks w' = blocks w \<and>
     open_fds w' = open_fds w \<and> events w' = events w \<and> tick w \<le> tick w'"

subsection \<open>Segments of the heap\<close>

lemma seg_append: "seg h p (xs @ ys) q \<longleftrightarrow> (\<exists>r. seg h p xs r \<and> seg h r ys q)"
  by (induction h p xs q rule: seg.induct) (auto split: option.splits)

lemma seg_Cons_iff:
  "seg h p ((a, j) # xs) q \<longleftrightarrow>
     p = At a \<and> (\<exists>r. h a = Some \<lparr>node_job = j, node_next = r\<rparr> \<and> seg h r xs q)"
proof (cases "h a")
  case (Some n)
  then show ?thesis by (cases n) auto
qed simp

lemma seg_cong: "(\<And>a. a \<in> fst ` set xs \<Longrightarrow> h a = h' a) \<Longrightarrow> seg h p xs q = seg h' p xs q"
  by (induction h p xs q rule: seg.induct) (auto split: option.splits)

lemma seg_upd [simp]: "a \<notin> fst ` set xs \<Longrightarrow> seg (h(a := v)) p xs q = seg h p xs q"
  by (rule seg_cong) auto

lemma seg_dom: "seg h p xs q \<Longrightarrow> fst ` set xs \<subseteq> dom h"
  by (induction h p xs q rule: seg.induct) (auto split: option.splits)

lemma seg_NULL [simp]: "seg h NULL xs q \<longleftrightarrow> xs = [] \<and> q = NULL"
  by (cases xs) auto

lemma seg_start: "xs \<noteq> [] \<Longrightarrow> seg h p xs q \<Longrightarrow> p = At (fst (hd xs))"
  by (cases xs) auto

lemma seg_last:
  "seg h p (xs @ [(a, j)]) q \<longleftrightarrow> seg h p xs (At a) \<and> h a = Some \<lparr>node_job = j, node_next = q\<rparr>"
  by (auto simp: seg_append seg_Cons_iff simp del: seg.simps(2))

lemma tail_ptr_simps [simp]:
  "tail_ptr p [] = p"
  "tail_ptr p (xs @ [x]) = At (fst x)"
  "xs \<noteq> [] \<Longrightarrow> tail_ptr p (x # xs) = tail_ptr p xs"
  by (simp_all add: tail_ptr_def)

lemma tail_ptr_snoc: "tail_ptr p (xs @ y # ys) = tail_ptr (At (fst y)) ys"
  by (simp add: tail_ptr_def)

text \<open>Redirecting the last node of a segment moves its end.\<close>

lemma seg_redirect:
  assumes "seg h p (xs @ [(a, j)]) q" and "distinct (map fst (xs @ [(a, j)]))"
  shows "seg (h(a \<mapsto> \<lparr>node_job = j, node_next = r\<rparr>)) p (xs @ [(a, j)]) r"
  using assms by (simp add: seg_last)

text \<open>Taking a node out of the middle, after its predecessor (or the head) has been redirected.\<close>

lemma seg_split3:
  "seg h p (xs @ (a, j) # ys) q \<longleftrightarrow>
     seg h p xs (At a) \<and> (\<exists>r. h a = Some \<lparr>node_job = j, node_next = r\<rparr> \<and> seg h r ys q)"
  by (auto simp: seg_append seg_Cons_iff simp del: seg.simps(2))

subsection \<open>Updating one queue of the store\<close>

text \<open>The conjuncts of \<open>store_at\<close>, one by one.\<close>

lemma store_at_queues: "store_at w ns m \<Longrightarrow> dom (queues w) = dom m"
  and store_at_nodes: "store_at w ns m \<Longrightarrow> dom (nodes w) = (\<Union>a\<in>dom m. fst ` set (ns a))"
  by (simp_all only: store_at_def)

lemma store_at_list: "store_at w ns m \<Longrightarrow> a \<in> dom m \<Longrightarrow> m a = Some (map snd (ns a))"
  and store_at_rep: "store_at w ns m \<Longrightarrow> a \<in> dom m \<Longrightarrow> queue_rep (nodes w) (the (queues w a)) (ns a)"
  unfolding store_at_def by (elim conjE, drule (1) bspec, elim conjE, assumption)+

lemma store_at_disjoint:
  assumes "store_at w ns m" and "a \<in> dom m" and "b \<in> dom m" and "a \<noteq> b"
  shows "fst ` set (ns a) \<inter> fst ` set (ns b) = {}"
proof -
  have "\<forall>a\<in>dom m. \<forall>b\<in>dom m. a \<noteq> b \<longrightarrow> fst ` set (ns a) \<inter> fst ` set (ns b) = {}"
    using assms(1) unfolding store_at_def by (elim conjE)
  with assms(2-4) show ?thesis by blast
qed

lemma store_at_fresh:
  assumes "store_at w ns m" and "x \<in> dom (nodes w) \<union> dom (queues w)"
  shows "x < fresh w"
proof -
  have "\<forall>x\<in>dom (nodes w) \<union> dom (queues w). x < fresh w"
    using assms(1) unfolding store_at_def by (elim conjE)
  with assms(2) show ?thesis by blast
qed

lemma store_atI:
  assumes "dom (queues w) = dom m" and "dom (nodes w) = (\<Union>a\<in>dom m. fst ` set (ns a))"
    and "\<And>a. a \<in> dom m \<Longrightarrow> m a = Some (map snd (ns a)) \<and> queue_rep (nodes w) (the (queues w a)) (ns a)"
    and "\<And>a b. a \<in> dom m \<Longrightarrow> b \<in> dom m \<Longrightarrow> a \<noteq> b \<Longrightarrow> fst ` set (ns a) \<inter> fst ` set (ns b) = {}"
    and "\<And>x. x \<in> dom (nodes w) \<union> dom (queues w) \<Longrightarrow> x < fresh w"
  shows "store_at w ns m"
  unfolding store_at_def by (intro conjI ballI impI assms)

lemma store_atD:
  assumes st: "store_at w ns m" and a: "m a = Some js"
  obtains c where "queues w a = Some c" and "queue_rep (nodes w) c (ns a)" and "js = map snd (ns a)"
    and "a < fresh w"
proof -
  have d: "a \<in> dom m" using a by auto
  with store_at_queues [OF st] have dq: "a \<in> dom (queues w)" by simp
  then obtain c where c: "queues w a = Some c" by auto
  show thesis
    using a c store_at_list [OF st d] store_at_rep [OF st d] store_at_fresh [OF st, of a] dq
    by (intro that [of c]) simp_all
qed

text \<open>A change of the heap that takes a queue from the nodes \<open>A\<close> to the nodes \<open>B\<close> and leaves all others alone.\<close>

definition local_change :: "world \<Rightarrow> world \<Rightarrow> nat set \<Rightarrow> nat set \<Rightarrow> bool" where
  "local_change w w' A B \<longleftrightarrow> (\<forall>x. x \<notin> A \<union> B \<longrightarrow> nodes w' x = nodes w x) \<and> (\<forall>x\<in>A - B. nodes w' x = None) \<and>
     (\<forall>x\<in>B - A. nodes w x = None \<and> x < fresh w') \<and> fresh w \<le> fresh w'"

lemma local_changeD:
  assumes "local_change w w' A B"
  shows "x \<notin> A \<Longrightarrow> x \<notin> B \<Longrightarrow> nodes w' x = nodes w x" and "x \<in> A \<Longrightarrow> x \<notin> B \<Longrightarrow> nodes w' x = None"
    and "x \<in> B \<Longrightarrow> x \<notin> A \<Longrightarrow> nodes w x = None \<and> x < fresh w'" and "fresh w \<le> fresh w'"
  using assms by (auto simp: local_change_def)

lemma change_disjoint:
  assumes st: "store_at w ns m" and a: "a \<in> dom m" and b: "b \<in> dom m" "b \<noteq> a"
    and ch: "local_change w w' (fst ` set (ns a)) B"
  shows "fst ` set (ns b) \<inter> B = {}"
proof -
  have "x \<notin> B" if x: "x \<in> fst ` set (ns b)" for x
  proof
    assume "x \<in> B"
    moreover have "x \<notin> fst ` set (ns a)" using store_at_disjoint [OF st b(1) a b(2)] x by auto
    ultimately have "nodes w x = None" using local_changeD(3) [OF ch] by blast
    then show False using store_at_nodes [OF st] b(1) x by auto
  qed
  then show ?thesis by blast
qed

lemma change_elsewhere:
  assumes st: "store_at w ns m" and a: "a \<in> dom m" and b: "b \<in> dom m" "b \<noteq> a"
    and ch: "local_change w w' (fst ` set (ns a)) B" and x: "x \<in> fst ` set (ns b)"
  shows "nodes w' x = nodes w x"
  using change_disjoint [OF st a b ch] store_at_disjoint [OF st b(1) a b(2)] x
  by (intro local_changeD(1) [OF ch]) blast+

lemma change_keeps_rep:
  assumes st: "store_at w ns m" and a: "a \<in> dom m" and b: "b \<in> dom m" "b \<noteq> a"
    and ch: "local_change w w' (fst ` set (ns a)) B"
  shows "queue_rep (nodes w') c (ns b) = queue_rep (nodes w) c (ns b)"
proof -
  have "seg (nodes w') p (ns b) q = seg (nodes w) p (ns b) q" for p q
    by (rule seg_cong) (rule change_elsewhere [OF st a b ch])
  then show ?thesis by (simp add: queue_rep_def)
qed

lemma change_dom:
  assumes st: "store_at w ns m" and a: "a \<in> dom m" and ch: "local_change w w' (fst ` set (ns a)) B" and B: "B \<subseteq> dom (nodes w')"
  shows "dom (nodes w') = B \<union> (\<Union>b\<in>dom m - {a}. fst ` set (ns b))"
proof (intro equalityI subsetI)
  fix x assume x: "x \<in> dom (nodes w')"
  show "x \<in> B \<union> (\<Union>b\<in>dom m - {a}. fst ` set (ns b))"
  proof (cases "x \<in> B")
    case False
    have na: "x \<notin> fst ` set (ns a)" using local_changeD(2) [OF ch _ False] x by (simp only: domIff) blast
    then have "x \<in> dom (nodes w)" using local_changeD(1) [OF ch na False] x by auto
    then show ?thesis unfolding store_at_nodes [OF st] using na by blast
  qed simp
next
  fix x assume "x \<in> B \<union> (\<Union>b\<in>dom m - {a}. fst ` set (ns b))"
  then show "x \<in> dom (nodes w')"
  proof
    assume "x \<in> (\<Union>b\<in>dom m - {a}. fst ` set (ns b))"
    then obtain b where b: "b \<in> dom m" "b \<noteq> a" "x \<in> fst ` set (ns b)" by auto
    have "x \<in> dom (nodes w)" using store_at_nodes [OF st] b by auto
    then show ?thesis using change_elsewhere [OF st a b(1,2) ch b(3)] by auto
  qed (use B in blast)
qed

lemma store_at_update:
  assumes st: "store_at w ns m" and a: "a \<in> dom m"
    and q: "queues w' = (queues w)(a \<mapsto> c')" and rep: "queue_rep (nodes w') c' xs'"
    and keep: "\<And>x. x \<notin> fst ` set (ns a) \<union> fst ` set xs' \<Longrightarrow> nodes w' x = nodes w x"
    and gone: "\<And>x. x \<in> fst ` set (ns a) - fst ` set xs' \<Longrightarrow> nodes w' x = None"
    and new: "\<And>x. x \<in> fst ` set xs' - fst ` set (ns a) \<Longrightarrow> nodes w x = None \<and> x < fresh w'"
    and fr: "fresh w \<le> fresh w'"
  shows "store_at w' (ns(a := xs')) (m(a \<mapsto> map snd xs'))"
proof -
  have ch: "local_change w w' (fst ` set (ns a)) (fst ` set xs')"
    unfolding local_change_def by (intro conjI allI ballI impI) (erule keep gone; fail | drule new; simp | rule fr)+
  have "fst ` set xs' \<subseteq> dom (nodes w')"
    using rep by (intro seg_dom [of _ "q_head c'" _ NULL]) (simp add: queue_rep_def)
  note dn = change_dom [OF st a ch this]
  show ?thesis
  proof (rule store_atI)
    show "dom (queues w') = dom (m(a \<mapsto> map snd xs'))" using q by (simp add: store_at_queues [OF st])
    show "dom (nodes w') = (\<Union>b\<in>dom (m(a \<mapsto> map snd xs')). fst ` set ((ns(a := xs')) b))"
    proof -
      have "(\<Union>b\<in>insert a (dom m). f b) = f a \<union> (\<Union>b\<in>dom m - {a}. f b)" for f :: "nat \<Rightarrow> nat set" by blast
      from this [of "\<lambda>b. fst ` set ((ns(a := xs')) b)"] show ?thesis using dn by simp
    qed
  next
    fix b assume "b \<in> dom (m(a \<mapsto> map snd xs'))"
    then show "(m(a \<mapsto> map snd xs')) b = Some (map snd ((ns(a := xs')) b)) \<and>
        queue_rep (nodes w') (the (queues w' b)) ((ns(a := xs')) b)"
    proof (cases "b = a")
      case False
      assume "b \<in> dom (m(a \<mapsto> map snd xs'))"
      then have b: "b \<in> dom m" using False by simp
      with False change_keeps_rep [OF st a b False ch] store_at_list [OF st b] store_at_rep [OF st b] q show ?thesis
        by (simp del: split_paired_Ex)
    qed (use rep q in simp)
  next
    fix b c assume bc: "b \<in> dom (m(a \<mapsto> map snd xs'))" "c \<in> dom (m(a \<mapsto> map snd xs'))" "b \<noteq> c"
    show "fst ` set ((ns(a := xs')) b) \<inter> fst ` set ((ns(a := xs')) c) = {}"
      using bc change_disjoint [OF st a _ _ ch, of b] change_disjoint [OF st a _ _ ch, of c] store_at_disjoint [OF st, of b c]
      by (cases "b = a"; cases "c = a") (simp_all add: Int_commute)
  next
    fix x assume x: "x \<in> dom (nodes w') \<union> dom (queues w')"
    have "dom (nodes w') \<subseteq> dom (nodes w) \<union> (fst ` set xs' - fst ` set (ns a))"
      unfolding dn using store_at_nodes [OF st] a by blast
    moreover have "dom (queues w') = dom (queues w)" using q a store_at_queues [OF st] by (simp add: insert_absorb)
    ultimately consider "x \<in> dom (nodes w) \<union> dom (queues w)" | "x \<in> fst ` set xs' - fst ` set (ns a)" using x by blast
    then show "x < fresh w'"
    proof cases
      case 1
      then show ?thesis using store_at_fresh [OF st] fr by (meson less_le_trans)
    next
      case 2
      then show ?thesis using new by blast
    qed
  qed
qed

subsection \<open>Every operation on the store\<close>

lemma env_eq_refl [simp]: "env_eq w w"
  by (simp add: env_eq_def)

lemma env_eq_trans: "env_eq w1 w2 \<Longrightarrow> env_eq w2 w3 \<Longrightarrow> env_eq w1 w3"
  by (auto simp: env_eq_def)

lemmas cell_defs =
  get_node_def put_node_def free_node_def get_queue_def put_queue_def free_queue_def

lemma store_at_tick [simp]: "store_at (w\<lparr>tick := t\<rparr>) ns m = store_at w ns m"
  by (simp add: store_at_def)

lemma store_tick [simp]: "store (w\<lparr>tick := t\<rparr>) m = store w m"
  by (simp add: store_def)

lemma queue_rep_snocD:
  assumes "queue_rep h c (xs @ [(t, tj)])"
  shows "h t = Some \<lparr>node_job = tj, node_next = NULL\<rparr>" and "q_tail c = At t"
    and "seg h (q_head c) xs (At t)"
  using assms by (auto simp: queue_rep_def seg_last)

lemma queue_enqueue_nomem:
  assumes "\<not> malloc_ok w (tick w)"
  shows "queue_enqueue (At a) (Var (Some j)) w = Some (False, w\<lparr>tick := Suc (tick w)\<rparr>)"
  using assms by (simp add: queue_enqueue_def new_node_def malloc_try_def)

lemma fresh_unused:
  assumes "store_at w ns m"
  shows "nodes w (fresh w) = None" and "a \<in> dom m \<Longrightarrow> fresh w \<notin> fst ` set (ns a)"
proof -
  show n: "nodes w (fresh w) = None"
    using store_at_fresh [OF assms, of "fresh w"] by (cases "nodes w (fresh w)") auto
  show "fresh w \<notin> fst ` set (ns a)" if "a \<in> dom m"
    using n that store_at_nodes [OF assms] by blast
qed

text \<open>The heap and the queue object after a node has been linked behind the tail.\<close>

definition linked :: "(nat \<rightharpoonup> job_node) \<Rightarrow> nat \<Rightarrow> job_info \<Rightarrow> job_queue \<Rightarrow> (nat \<rightharpoonup> job_node) \<Rightarrow> job_queue \<Rightarrow> bool" where
  "linked h b j c h' c' \<longleftrightarrow>
     (if q_tail c = NULL
      then h' = h(b \<mapsto> \<lparr>node_job = j, node_next = NULL\<rparr>) \<and> c' = c\<lparr>q_head := At b, q_tail := At b, q_size := q_size c + 1\<rparr>
      else \<exists>t n. q_tail c = At t \<and> t \<noteq> b \<and> h t = Some n \<and>
        h' = h(b \<mapsto> \<lparr>node_job = j, node_next = NULL\<rparr>, t \<mapsto> n\<lparr>node_next := At b\<rparr>) \<and>
        c' = c\<lparr>q_tail := At b, q_size := q_size c + 1\<rparr>)"

lemma enqueue_links:
  assumes "queues w a = Some c" and "queue_rep (nodes w) c xs" and "int (length xs) + 1 < 2 ^ 31"
    and "malloc_ok w (tick w)" and "linked (nodes w) (fresh w) j c h' c'"
  shows "queue_enqueue (At a) (Var (Some j)) w =
    Some (True, w\<lparr>tick := Suc (tick w), fresh := Suc (fresh w), nodes := h', queues := (queues w)(a \<mapsto> c')\<rparr>)"
  using assms unfolding linked_def
  by (auto simp: queue_enqueue_def new_node_def malloc_try_def cell_defs queue_rep_def split: if_splits)

lemma linked_last:
  assumes rep: "queue_rep h c (xs @ [(t, k)])" and b: "b \<notin> fst ` set (xs @ [(t, k)])"
    and len: "int (length xs) + 2 < 2 ^ 31"
    and h': "h' = h(b \<mapsto> \<lparr>node_job = j, node_next = NULL\<rparr>, t \<mapsto> \<lparr>node_job = k, node_next = At b\<rparr>)"
    and c': "c' = c\<lparr>q_tail := At b, q_size := q_size c + 1\<rparr>"
  shows "linked h b j c h' c'" and "queue_rep h' c' (xs @ [(t, k), (b, j)])"
proof -
  note last = queue_rep_snocD [OF rep]
  have dist: "distinct (map fst (xs @ [(t, k)]))" using rep by (simp add: queue_rep_def)
  have tb: "t \<noteq> b" using b by auto
  then show "linked h b j c h' c'" using last by (auto simp: linked_def h' c')
  have "seg h' (q_head c) xs (At t)"
    using last(3) b dist by (subst seg_cong [of _ _ h]) (auto simp: image_iff h')
  then have "seg h' (q_head c) (xs @ [(t, k)] @ [(b, j)]) NULL"
    using tb unfolding seg_append by (auto simp: seg_Cons_iff h' simp del: seg.simps(2))
  then show "queue_rep h' c' (xs @ [(t, k), (b, j)])"
    using rep b dist len by (auto simp: queue_rep_def tail_ptr_def c')
qed

lemma queue_enqueue_ok:
  assumes st: "store w m" and a: "m a = Some js" and mem: "malloc_ok w (tick w)"
    and len: "int (length js) + 1 < 2 ^ 31"
  shows "\<exists>w'. queue_enqueue (At a) (Var (Some j)) w = Some (True, w') \<and>
    store w' (m(a \<mapsto> js @ [j])) \<and> env_eq w w'"
proof -
  from st obtain ns where ns: "store_at w ns m" by (auto simp: store_def)
  from ns a obtain c where c: "queues w a = Some c" and rep: "queue_rep (nodes w) c (ns a)"
    and js: "js = map snd (ns a)" by (rule store_atD)
  let ?b = "fresh w"
  have aD: "a \<in> dom m" using a by auto
  note b = fresh_unused(1) [OF ns] and b_new = fresh_unused(2) [OF ns aD]
  have run: "queue_enqueue (At a) (Var (Some j)) w =
      Some (True, w\<lparr>tick := Suc (tick w), fresh := Suc ?b, nodes := h, queues := (queues w)(a \<mapsto> c')\<rparr>)"
    if "linked (nodes w) ?b j c h c'" for h c'
    by (rule enqueue_links [OF c rep _ mem that]) (use len js in simp)
  show ?thesis
  proof (cases "ns a" rule: rev_cases)
    case Nil
    let ?h = "(nodes w)(?b \<mapsto> \<lparr>node_job = j, node_next = NULL\<rparr>)"
    let ?c = "c\<lparr>q_head := At ?b, q_tail := At ?b, q_size := q_size c + 1\<rparr>"
    let ?w = "w\<lparr>tick := Suc (tick w), fresh := Suc ?b, nodes := ?h, queues := (queues w)(a \<mapsto> ?c)\<rparr>"
    have "store_at ?w (ns(a := [(?b, j)])) (m(a \<mapsto> map snd [(?b, j)]))"
      by (rule store_at_update [OF ns aD, where c' = ?c])
        (use rep Nil b in \<open>auto simp: queue_rep_def tail_ptr_def\<close>)
    with run [of ?h ?c] show ?thesis using rep js Nil by (auto simp: store_def env_eq_def linked_def queue_rep_def)
  next
    case (snoc xs x)
    obtain t tj where x: "x = (t, tj)" by (cases x)
    let ?h = "(nodes w)(?b \<mapsto> \<lparr>node_job = j, node_next = NULL\<rparr>, t \<mapsto> \<lparr>node_job = tj, node_next = At ?b\<rparr>)"
    let ?c = "c\<lparr>q_tail := At ?b, q_size := q_size c + 1\<rparr>"
    let ?w = "w\<lparr>tick := Suc (tick w), fresh := Suc ?b, nodes := ?h, queues := (queues w)(a \<mapsto> ?c)\<rparr>"
    note l = linked_last [OF rep [unfolded snoc x] b_new [unfolded snoc x], of ?h j ?c, OF _ refl refl]
    have "store_at ?w (ns(a := xs @ [(t, tj), (?b, j)])) (m(a \<mapsto> map snd (xs @ [(t, tj), (?b, j)])))"
      using l(2) snoc x b len js by (intro store_at_update [OF ns aD, where c' = ?c]) auto
    with run [OF l(1)] show ?thesis using js snoc x len by (auto simp: store_def env_eq_def)
  qed
qed


text \<open>Removing the node \<open>t\<close>, whose successor is \<open>r\<close>, from the middle of a queue.\<close>

lemma tail_ptr_Cons: "tail_ptr p (x # xs) = tail_ptr (At (fst x)) xs"
  by (simp add: tail_ptr_def)

lemma queue_rep_remove:
  assumes rep: "queue_rep h c (ys @ (t, j) # zs)"
    and t: "h t = Some \<lparr>node_job = j, node_next = r\<rparr>"
    and h': "h' = (if ys = [] then h
        else h(fst (last ys) \<mapsto> \<lparr>node_job = snd (last ys), node_next = r\<rparr>))(t := None)"
    and hd: "q_head c' = (if ys = [] then r else q_head c)"
    and tl: "q_tail c' = (if zs = [] then tail_ptr NULL ys else q_tail c)"
    and sz: "q_size c' = q_size c - 1"
  shows "queue_rep h' c' (ys @ zs)"
proof -
  have dist: "distinct (map fst (ys @ (t, j) # zs))" using rep by (simp add: queue_rep_def)
  have sg: "seg h (q_head c) ys (At t)" "seg h r zs NULL"
    using rep t by (auto simp: queue_rep_def seg_split3)
  have "seg h' (q_head c') (ys @ zs) NULL"
  proof (cases ys rule: rev_cases)
    case Nil
    with sg dist show ?thesis by (simp add: h' hd image_iff)
  next
    case (snoc us u)
    obtain b k where u: "u = (b, k)" by (cases u)
    have 1: "seg h (q_head c) us (At b)" "h b = Some \<lparr>node_job = k, node_next = At t\<rparr>"
      using sg(1) by (simp_all add: snoc u seg_last)
    have nb: "b \<notin> fst ` set us" "b \<notin> fst ` set zs" "t \<notin> fst ` set us" "t \<notin> fst ` set zs" "t \<noteq> b"
      using dist by (auto simp: snoc u)
    have "seg h' (q_head c) us (At b)" using 1(1) nb by (simp add: h' snoc u)
    moreover have "h' b = Some \<lparr>node_job = k, node_next = r\<rparr>" using nb by (simp add: h' snoc u)
    moreover have "seg h' r zs NULL" using sg(2) nb by (simp add: h' snoc u)
    ultimately show ?thesis by (simp add: hd snoc u seg_append seg_Cons_iff del: seg.simps(2))
  qed
  moreover have "q_tail c' = tail_ptr NULL (ys @ zs)"
    using rep tl by (auto simp: queue_rep_def tail_ptr_def)
  ultimately show ?thesis using rep dist sz by (auto simp: queue_rep_def)
qed

lemma store_at_remove:
  assumes ns: "store_at w ns m" and a: "a \<in> dom m" and xs: "ns a = ys @ (t, j) # zs"
    and c: "queues w a = Some c" and t: "nodes w t = Some \<lparr>node_job = j, node_next = r\<rparr>"
    and h': "nodes w' = (if ys = [] then nodes w
        else (nodes w)(fst (last ys) \<mapsto> \<lparr>node_job = snd (last ys), node_next = r\<rparr>))(t := None)"
    and q: "queues w' = (queues w)(a \<mapsto> c')" and fr: "fresh w' = fresh w"
    and hd: "q_head c' = (if ys = [] then r else q_head c)"
    and tl: "q_tail c' = (if zs = [] then tail_ptr NULL ys else q_tail c)"
    and sz: "q_size c' = q_size c - 1"
  shows "store w' (m(a \<mapsto> map snd (ys @ zs)))"
proof -
  have rep: "queue_rep (nodes w) c (ys @ (t, j) # zs)"
    using store_at_rep [OF ns a] c xs by simp
  then have dist: "distinct (map fst (ys @ (t, j) # zs))" by (simp add: queue_rep_def)
  have "fst (last ys) \<in> fst ` set (ns a)" if "ys \<noteq> []" using that xs by simp
  then have "store_at w' (ns(a := ys @ zs)) (m(a \<mapsto> map snd (ys @ zs)))"
    using dist xs fr
    by (intro store_at_update [OF ns a q queue_rep_remove [OF rep t h' hd tl sz]]) (auto simp: h')
  then show ?thesis by (auto simp: store_def)
qed

lemma queue_repD:
  assumes "queue_rep h c xs"
  shows "seg h (q_head c) xs NULL" and "q_size c = int (length xs)" and "int (length xs) < 2 ^ 31"
    and "q_tail c = tail_ptr NULL xs" and "distinct (map fst xs)"
  using assms by (simp_all add: queue_rep_def)

lemma queue_dequeue_ok:
  assumes st: "store w m" and a: "m a = Some (j # js)" and out: "out \<noteq> NULLV"
  shows "\<exists>w'. queue_dequeue (At a) out w = Some (True, Var (Some j), w') \<and>
    store w' (m(a \<mapsto> js)) \<and> env_eq w w' \<and> tick w' = tick w"
proof -
  from st obtain ns where ns: "store_at w ns m" by (auto simp: store_def)
  from ns a obtain c where c: "queues w a = Some c" and rep: "queue_rep (nodes w) c (ns a)"
    and js: "j # js = map snd (ns a)" by (rule store_atD)
  from js obtain t zs where xs: "ns a = [] @ (t, j) # zs" and zs: "js = map snd zs"
    by (cases "ns a") auto
  obtain r where t: "nodes w t = Some \<lparr>node_job = j, node_next = r\<rparr>" and hd: "q_head c = At t"
    and sg: "seg (nodes w) r zs NULL"
    using queue_repD(1) [OF rep] unfolding xs by (auto simp: seg_Cons_iff simp del: seg.simps(2))
  have r: "r = NULL \<longleftrightarrow> zs = []" using sg by (cases zs) auto
  let ?c = "c\<lparr>q_head := r, q_tail := (if r = NULL then NULL else q_tail c), q_size := q_size c - 1\<rparr>"
  let ?w = "w\<lparr>nodes := (nodes w)(t := None), queues := (queues w)(a \<mapsto> ?c)\<rparr>"
  have "queue_dequeue (At a) out w = Some (True, Var (Some j), ?w)"
    using out c hd t queue_repD(2,3) [OF rep] by (simp add: queue_dequeue_def cell_defs xs)
  moreover have "store ?w (m(a \<mapsto> map snd ([] @ zs)))"
    using r a by (intro store_at_remove [OF ns _ xs c t]) auto
  ultimately show ?thesis using zs by (auto simp: env_eq_def)
qed

lemma queue_dequeue_empty:
  assumes "store w m" and "m a = Some []"
  shows "queue_dequeue (At a) out w = Some (False, out, w)"
proof -
  from assms obtain ns where ns: "store_at w ns m" by (auto simp: store_def)
  from ns assms(2) obtain c where "queues w a = Some c" "queue_rep (nodes w) c (ns a)" "[] = map snd (ns a)"
    by (rule store_atD)
  then show ?thesis by (simp add: queue_dequeue_def cell_defs queue_rep_def)
qed


text \<open>The search loop stops at the first node whose job satisfies the predicate.\<close>

lemma find_node_seg:
  assumes "seg (nodes w) p xs NULL"
  shows "find_node P prev p w =
    Some (case split_first (\<lambda>x. P (snd x)) xs of
        None \<Rightarrow> (tail_ptr prev xs, NULL)
      | Some (ys, y, zs) \<Rightarrow> (tail_ptr prev ys, At (fst y)))"
  using assms
proof (induction xs arbitrary: p prev)
  case Nil
  then show ?case by (subst find_node.simps) simp
next
  case (Cons x xs)
  obtain a j where x: "x = (a, j)" by (cases x)
  obtain r where p: "p = At a" and n: "nodes w a = Some \<lparr>node_job = j, node_next = r\<rparr>"
    and sg: "seg (nodes w) r xs NULL"
    using Cons.prems unfolding x by (auto simp: seg_Cons_iff simp del: seg.simps(2))
  show ?case
  proof (cases "P j")
    case True
    then show ?thesis by (subst find_node.simps) (simp add: p n x get_node_def)
  next
    case False
    then show ?thesis using Cons.IH [OF sg, of "At a"]
      by (subst find_node.simps)
        (auto simp: p n x get_node_def tail_ptr_Cons split: option.splits)
  qed
qed

lemma unlink_node_ok:
  assumes ns: "store_at w ns m" and a: "a \<in> dom m" and xs: "ns a = ys @ (t, j) # zs"
  shows "\<exists>w'. unlink_node (At a) (tail_ptr NULL ys) (At t) w = Some (j, w') \<and>
    store w' (m(a \<mapsto> map snd (ys @ zs))) \<and> env_eq w w' \<and> tick w' = tick w"
proof -
  obtain c where c: "queues w a = Some c" and rep: "queue_rep (nodes w) c (ns a)"
    using store_atD [OF ns store_at_list [OF ns a]] by auto
  note r = queue_repD [OF rep, unfolded xs]
  obtain nx where t: "nodes w t = Some \<lparr>node_job = j, node_next = nx\<rparr>"
    and sg: "seg (nodes w) (q_head c) ys (At t)"
    using r(1) unfolding seg_split3 by blast
  have dist: "distinct (map fst (ys @ (t, j) # zs))" by (rule r(5))
  have tl: "q_tail c = At t \<longleftrightarrow> zs = []"
    using r(4) dist by (auto simp: tail_ptr_def)
  let ?c = "c\<lparr>q_head := (if ys = [] then nx else q_head c),
    q_tail := (if zs = [] then tail_ptr NULL ys else q_tail c), q_size := q_size c - 1\<rparr>"
  let ?h = "(if ys = [] then nodes w
     else (nodes w)(fst (last ys) \<mapsto> \<lparr>node_job = snd (last ys), node_next = nx\<rparr>))(t := None)"
  let ?w = "w\<lparr>nodes := ?h, queues := (queues w)(a \<mapsto> ?c)\<rparr>"
  have sz: "c_int (q_size c - 1) = Some (q_size c - 1)" using r(2,3) by simp
  have "unlink_node (At a) (tail_ptr NULL ys) (At t) w = Some (j, ?w)"
  proof (cases ys rule: rev_cases)
    case Nil
    with t c tl sz show ?thesis by (simp add: unlink_node_def cell_defs)
  next
    case (snoc us u)
    obtain b k where u: "u = (b, k)" by (cases u)
    have "nodes w b = Some \<lparr>node_job = k, node_next = At t\<rparr>"
      using sg by (simp add: snoc u seg_last)
    moreover have "t \<noteq> b" using dist by (auto simp: snoc u)
    ultimately show ?thesis using t c tl sz by (simp add: unlink_node_def cell_defs snoc u)
  qed
  moreover have "store ?w (m(a \<mapsto> map snd (ys @ zs)))"
    by (rule store_at_remove [OF ns a xs c t, where c' = ?c]) simp_all
  ultimately show ?thesis by (auto simp: env_eq_def)
qed

text \<open>The search followed by the removal: the common part of the two operations that use it.\<close>

lemma split_first_map:
  "split_first (\<lambda>x. P (f x)) xs = Some (ys, y, zs) \<Longrightarrow>
   split_first P (map f xs) = Some (map f ys, f y, map f zs)"
  by (induction xs arbitrary: ys) (auto split: if_splits)

lemma split_first_map_None: "split_first (\<lambda>x. P (f x)) xs = None \<longleftrightarrow> split_first P (map f xs) = None"
  by (simp add: split_first_None)

lemma find_node_store:
  assumes st: "store w m" and a: "m a = Some js"
  obtains c where "queues w a = Some c"
    and "split_first P js = None \<Longrightarrow> \<exists>p. find_node P NULL (q_head c) w = Some (p, NULL)"
    and "\<And>ys j zs. split_first P js = Some (ys, j, zs) \<Longrightarrow>
      \<exists>p t w'. find_node P NULL (q_head c) w = Some (p, At t) \<and>
        unlink_node (At a) p (At t) w = Some (j, w') \<and>
        store w' (m(a \<mapsto> ys @ zs)) \<and> env_eq w w' \<and> tick w' = tick w"
proof -
  from st obtain ns where ns: "store_at w ns m" by (auto simp: store_def)
  from ns a obtain c where c: "queues w a = Some c" and rep: "queue_rep (nodes w) c (ns a)"
    and js: "js = map snd (ns a)" by (rule store_atD)
  note f = find_node_seg [OF queue_repD(1) [OF rep], of P NULL]
  show thesis
  proof (rule that [OF c])
    assume "split_first P js = None"
    then have "split_first (\<lambda>x. P (snd x)) (ns a) = None" by (simp add: split_first_map_None [where P = P and f = snd] js)
    with f show "\<exists>p. find_node P NULL (q_head c) w = Some (p, NULL)" by simp
  next
    fix ys j zs assume s: "split_first P js = Some (ys, j, zs)"
    then have "split_first (\<lambda>x. P (snd x)) (ns a) \<noteq> None" by (simp add: split_first_map_None [where P = P and f = snd] js)
    then obtain us t k vs where u: "split_first (\<lambda>x. P (snd x)) (ns a) = Some (us, (t, k), vs)" by auto
    from split_first_map [where P = P and f = snd, OF u] s js have e: "ys = map snd us" "j = k" "zs = map snd vs" by auto
    from u have "ns a = us @ (t, k) # vs" by (auto dest: split_first_SomeD)
    moreover have "a \<in> dom m" using a by auto
    ultimately show "\<exists>p t w'. find_node P NULL (q_head c) w = Some (p, At t) \<and>
        unlink_node (At a) p (At t) w = Some (j, w') \<and>
        store w' (m(a \<mapsto> ys @ zs)) \<and> env_eq w w' \<and> tick w' = tick w"
      using f u e unlink_node_ok [OF ns, of a us t k vs] by auto
  qed
qed

lemma queue_remove_ok:
  assumes "store w m" and "m a = Some js" and "out \<noteq> NULLV"
    and "split_first (\<lambda>j. command_id j = cid) js = Some (ys, j, zs)"
  shows "\<exists>w'. queue_remove_by_command_id (At a) cid out w = Some (True, Var (Some j), w') \<and>
    store w' (m(a \<mapsto> ys @ zs)) \<and> env_eq w w' \<and> tick w' = tick w"
proof -
  from find_node_store [OF assms(1,2), of "\<lambda>j. command_id j = cid"] obtain c where
    "queues w a = Some c" "\<exists>p t w'. find_node (\<lambda>j. command_id j = cid) NULL (q_head c) w = Some (p, At t) \<and>
        unlink_node (At a) p (At t) w = Some (j, w') \<and>
        store w' (m(a \<mapsto> ys @ zs)) \<and> env_eq w w' \<and> tick w' = tick w"
    using assms(4) by metis
  with assms(3) show ?thesis by (auto simp: queue_remove_by_command_id_def get_queue_def)
qed

lemma queue_remove_absent:
  assumes "store w m" and "m a = Some js" and "split_first (\<lambda>j. command_id j = cid) js = None"
  shows "queue_remove_by_command_id (At a) cid out w = Some (False, out, w)"
proof -
  from find_node_store [OF assms(1,2), of "\<lambda>j. command_id j = cid"] obtain c where
    "queues w a = Some c" "\<exists>p. find_node (\<lambda>j. command_id j = cid) NULL (q_head c) w = Some (p, NULL)"
    using assms(3) by metis
  then show ?thesis by (auto simp: queue_remove_by_command_id_def get_queue_def)
qed


subsection \<open>Random removal\<close>

lemma smod_nat: "int a smod int b = int (a mod b)"
proof (cases "a = 0 \<or> b = 0")
  case True
  then show ?thesis by (auto simp: signed_modulo_int_def signed_divide_int_def)
next
  case False
  then show ?thesis
    by (simp add: signed_modulo_int_def signed_divide_int_def zmod_int minus_div_mult_eq_mod)
qed

lemma walk_seg: "seg (nodes w) p ys q \<Longrightarrow> walk (length ys) prev p w = Some (tail_ptr prev ys, q)"
proof (induction ys arbitrary: p prev)
  case (Cons x ys)
  obtain a j where x: "x = (a, j)" by (cases x)
  from Cons.prems obtain r where "p = At a" "nodes w a = Some \<lparr>node_job = j, node_next = r\<rparr>"
    "seg (nodes w) r ys q"
    unfolding x by (auto simp: seg_Cons_iff simp del: seg.simps(2))
  with Cons.IH [of r "At a"] show ?case by (simp add: get_node_def x tail_ptr_Cons)
qed simp

text \<open>The removal written out in \<open>queue_dequeue_random\<close> is the shared one.\<close>

lemma random_unlink:
  assumes "get_queue q w = Some c" and "get_node cur w = Some n" and "prev \<noteq> NULL"
    and "q_tail c = cur \<longleftrightarrow> node_next n = NULL"
  shows "do {
      p \<leftarrow> get_node prev w;
      w2 \<leftarrow> put_node prev (p\<lparr>node_next := node_next n\<rparr>) w;
      let c1 = (if node_next n = NULL then c\<lparr>q_tail := prev\<rparr> else c);
      w3 \<leftarrow> free_node cur w2;
      sz \<leftarrow> c_int (q_size c1 - 1);
      w4 \<leftarrow> put_queue q (c1\<lparr>q_size := sz\<rparr>) w3;
      Some (True, Var (Some (node_job n)), w4) } =
    do { (j, w1) \<leftarrow> unlink_node q prev cur w; Some (True, Var (Some j), w1) }"
  using assms by (simp add: unlink_node_def bind_assoc Let_def)

lemma queue_dequeue_random_ok:
  assumes st: "store w m" and a: "m a = Some (ys @ j # zs)" and out: "out \<noteq> NULLV"
    and idx: "length ys = rand_out w (tick w) mod length (ys @ j # zs)"
  shows "\<exists>w'. queue_dequeue_random (At a) out w = Some (True, Var (Some j), w') \<and>
    store w' (m(a \<mapsto> ys @ zs)) \<and> env_eq w w'"
proof -
  let ?w = "w\<lparr>tick := Suc (tick w)\<rparr>"
  from st obtain ns where ns: "store_at w ns m" by (auto simp: store_def)
  then have ns1: "store_at ?w ns m" by simp
  from ns a obtain c where c: "queues w a = Some c" and rep: "queue_rep (nodes w) c (ns a)"
    and js: "ys @ j # zs = map snd (ns a)" by (rule store_atD)
  from js obtain xs us where "ns a = xs @ us" and ys: "ys = map snd xs" and us: "j # zs = map snd us"
    by (metis map_eq_append_conv)
  moreover from us obtain t vs where "us = (t, j) # vs" and zs: "zs = map snd vs" by (cases us) auto
  ultimately have xs: "ns a = xs @ (t, j) # vs" by simp
  note r = queue_repD [OF rep]
  have sz: "q_size c = int (length (ys @ j # zs))" using r(2) js by simp
  have tgt: "c_mod (int (rand_out w (tick w))) (q_size c) = Some (int (length xs))"
    using idx ys by (simp only: c_mod_def sz smod_nat) simp
  have hd: "q_head c \<noteq> NULL" using r(1) xs by (cases xs) auto
  have env: "env_eq w ?w" by (simp add: env_eq_def)
  show ?thesis
  proof (cases xs)
    case Nil
    have "queue_dequeue_random (At a) out w = queue_dequeue (At a) out ?w"
      using out c hd tgt Nil by (simp add: queue_dequeue_random_def get_queue_def c_rand_def)
    moreover have "m a = Some (j # zs)" using a ys Nil by simp
    then have "\<exists>w'. queue_dequeue (At a) out ?w = Some (True, Var (Some j), w') \<and>
        store w' (m(a \<mapsto> zs)) \<and> env_eq ?w w' \<and> tick w' = tick ?w"
      using st out by (intro queue_dequeue_ok) simp_all
    ultimately show ?thesis using env ys Nil by (auto intro: env_eq_trans)
  next
    case (Cons x us)
    obtain b k where x: "x = (b, k)" by (cases x)
    obtain r0 where h: "q_head c = At b" "nodes w b = Some \<lparr>node_job = k, node_next = r0\<rparr>"
      and sg: "seg (nodes w) r0 us (At t)"
      using r(1) unfolding xs Cons x seg_split3 by (auto simp: seg_Cons_iff simp del: seg.simps(2))
    obtain nx where t: "nodes w t = Some \<lparr>node_job = j, node_next = nx\<rparr>" "seg (nodes w) nx vs NULL"
      using r(1) unfolding xs seg_split3 by blast
    have "q_tail c = At t \<longleftrightarrow> vs = []" using r(4,5) by (auto simp: xs tail_ptr_def)
    moreover have "vs = [] \<longleftrightarrow> nx = NULL" using t(2) by (cases vs) auto
    ultimately have tl: "q_tail c = At t \<longleftrightarrow> nx = NULL" by simp
    have wk: "walk (length us) (At b) r0 ?w = Some (tail_ptr NULL xs, At t)"
      using walk_seg [of ?w r0 us "At t" "At b"] sg by (simp add: Cons x tail_ptr_Cons)
    have "queue_dequeue_random (At a) out w =
        do { (j, w1) \<leftarrow> unlink_node (At a) (tail_ptr NULL xs) (At t) ?w; Some (True, Var (Some j), w1) }"
      using out c hd tgt h t tl wk
      by (subst random_unlink [symmetric, where c = c and n = "\<lparr>node_job = j, node_next = nx\<rparr>"])
        (simp_all add: queue_dequeue_random_def get_queue_def c_rand_def get_node_def Cons tail_ptr_def)
    moreover have "\<exists>w'. unlink_node (At a) (tail_ptr NULL xs) (At t) ?w = Some (j, w') \<and>
        store w' (m(a \<mapsto> map snd (xs @ vs))) \<and> env_eq ?w w' \<and> tick w' = tick ?w"
      using a xs by (intro unlink_node_ok [OF ns1]) auto
    ultimately show ?thesis using env ys zs by (auto intro: env_eq_trans)
  qed
qed

lemma queue_dequeue_random_empty:
  assumes "store w m" and "m a = Some []"
  shows "queue_dequeue_random (At a) out w = Some (False, out, w)"
proof -
  from assms obtain ns where ns: "store_at w ns m" by (auto simp: store_def)
  from ns assms(2) obtain c where "queues w a = Some c" "queue_rep (nodes w) c (ns a)" "[] = map snd (ns a)"
    by (rule store_atD)
  then show ?thesis by (simp add: queue_dequeue_random_def cell_defs queue_rep_def)
qed

subsection \<open>Queries and copies\<close>

lemma store_queue:
  assumes "store w m" and "m a = Some js"
  obtains c xs where "queues w a = Some c" and "queue_rep (nodes w) c xs" and "js = map snd xs"
proof -
  from assms obtain ns where ns: "store_at w ns m" by (auto simp: store_def)
  from ns assms(2) that show thesis by (rule store_atD)
qed

lemma store_length: "store w m \<Longrightarrow> m a = Some js \<Longrightarrow> int (length js) < 2 ^ 31"
  by (erule (1) store_queue) (simp add: queue_rep_def)

lemma queue_is_empty_ok: "store w m \<Longrightarrow> m a = Some js \<Longrightarrow> queue_is_empty (At a) w = Some (js = [])"
  by (erule (1) store_queue) (auto simp: queue_is_empty_def get_queue_def queue_rep_def)

lemma queue_size_ok: "store w m \<Longrightarrow> m a = Some js \<Longrightarrow> queue_size (At a) w = Some (int (length js))"
  by (erule (1) store_queue) (auto simp: queue_size_def get_queue_def queue_rep_def)

lemma queue_get_size_ok: "store w m \<Longrightarrow> m a = Some js \<Longrightarrow> queue_get_size (At a) w = Some (int (length js))"
  by (erule (1) store_queue) (auto simp: queue_get_size_def get_queue_def queue_rep_def)

lemma copy_nodes_seg:
  assumes "seg (nodes w) p xs NULL" and "holds b ys" and "length ys \<le> n" and "n \<le> length b"
  shows "\<exists>b'. copy_nodes p (int (length ys)) (int n) b w =
      Some (int (length (ys @ take (n - length ys) (map snd xs))), b') \<and>
    holds b' (ys @ take (n - length ys) (map snd xs)) \<and> length b' = length b"
  using assms
proof (induction xs arbitrary: p b ys)
  case Nil
  then show ?case by (subst copy_nodes.simps) simp
next
  case (Cons x xs)
  obtain a j where x: "x = (a, j)" by (cases x)
  from Cons.prems(1) obtain r where p: "p = At a" "nodes w a = Some \<lparr>node_job = j, node_next = r\<rparr>"
    and sg: "seg (nodes w) r xs NULL"
    unfolding x by (auto simp: seg_Cons_iff simp del: seg.simps(2))
  show ?case
  proof (cases "length ys < n")
    case True
    with Cons.prems have w: "wr b (int (length ys)) j = Some (b[length ys := Some j])"
      "holds (b[length ys := Some j]) (ys @ [j])"
      by (simp_all add: holds_write)
    have e: "n - length ys = Suc (n - length (ys @ [j]))" using True by simp
    have "copy_nodes p (int (length ys)) (int n) b w =
        copy_nodes r (int (length (ys @ [j]))) (int n) (b[length ys := Some j]) w"
      using True p w by (subst copy_nodes.simps) (simp add: get_node_def add.commute)
    moreover have "ys @ take (n - length ys) (map snd (x # xs)) =
        (ys @ [j]) @ take (n - length (ys @ [j])) (map snd xs)"
      unfolding e by (simp add: x)
    ultimately show ?thesis
      using Cons.IH [OF sg w(2)] True Cons.prems(4) by (simp del: take_map)
  next
    case False
    with Cons.prems show ?thesis by (subst copy_nodes.simps) simp
  qed
qed

lemma queue_copy_to_array_ok:
  assumes "store w m" and "m a = Some js" and "n \<le> length b"
  shows "\<exists>b'. queue_copy_to_array (At a) (Some b) (int n) w = Some (int (length (take n js)), Some b') \<and>
    holds b' (take n js) \<and> length b' = length b"
proof -
  from assms(1,2) obtain c xs where c: "queues w a = Some c" "queue_rep (nodes w) c xs" "js = map snd xs"
    by (rule store_queue)
  show ?thesis
  proof (cases "n = 0")
    case True
    then show ?thesis by (simp add: queue_copy_to_array_def)
  next
    case False
    with copy_nodes_seg [OF queue_repD(1) [OF c(2)], of b "[]" n] assms(3) c show ?thesis
      by (auto simp: queue_copy_to_array_def get_queue_def take_map)
  qed
qed

subsection \<open>Creation and destruction\<close>

lemma store_create:
  assumes st: "store w m" and mem: "malloc_ok w (tick w)"
  shows "\<exists>w'. queue_create w = (At (fresh w), w') \<and> store w' (m(fresh w \<mapsto> [])) \<and> env_eq w w' \<and>
    tick w' = Suc (tick w) \<and> fresh w' = Suc (fresh w) \<and> fresh w \<notin> dom m"
proof -
  from st obtain ns where ns: "store_at w ns m" by (auto simp: store_def)
  let ?a = "fresh w"
  let ?w = "w\<lparr>tick := Suc (tick w), fresh := Suc ?a,
    queues := (queues w)(?a \<mapsto> \<lparr>q_head = NULL, q_tail = NULL, q_size = 0\<rparr>)\<rparr>"
  have a: "?a \<notin> dom m"
    using store_at_fresh [OF ns, of ?a] store_at_queues [OF ns] by auto
  have "dom (queues ?w) = dom (m(?a \<mapsto> []))" using store_at_queues [OF ns] by simp
  moreover have "dom (nodes ?w) = (\<Union>b\<in>dom (m(?a \<mapsto> [])). fst ` set ((ns(?a := [])) b))"
  proof -
    have "(\<Union>b\<in>dom m. fst ` set ((ns(?a := [])) b)) = (\<Union>b\<in>dom m. fst ` set (ns b))"
      using a by (intro SUP_cong) auto
    then show ?thesis using store_at_nodes [OF ns] by simp
  qed
  moreover have "(m(?a \<mapsto> [])) b = Some (map snd ((ns(?a := [])) b)) \<and>
      queue_rep (nodes ?w) (the (queues ?w b)) ((ns(?a := [])) b)"
    if "b \<in> dom (m(?a \<mapsto> []))" for b
  proof (cases "b = ?a")
    case False
    then have b: "b \<in> dom m" using that by simp
    with False store_at_list [OF ns b] store_at_rep [OF ns b] show ?thesis by simp
  qed (simp add: queue_rep_def)
  moreover have "fst ` set ((ns(?a := [])) b) \<inter> fst ` set ((ns(?a := [])) d) = {}"
    if "b \<in> dom (m(?a \<mapsto> []))" "d \<in> dom (m(?a \<mapsto> []))" "b \<noteq> d" for b d
  proof (cases "b = ?a \<or> d = ?a")
    case False
    with that store_at_disjoint [OF ns, of b d] show ?thesis by simp
  qed auto
  moreover have "x < fresh ?w" if "x \<in> dom (nodes ?w) \<union> dom (queues ?w)" for x
  proof (cases "x = ?a")
    case False
    then have "x \<in> dom (nodes w) \<union> dom (queues w)" using that by simp
    from store_at_fresh [OF ns this] show ?thesis by simp
  qed simp
  ultimately have "store_at ?w (ns(?a := [])) (m(?a \<mapsto> []))" by (rule store_atI)
  with a mem show ?thesis by (auto simp: queue_create_def malloc_try_def store_def env_eq_def)
qed

lemma queue_create_nomem:
  "\<not> malloc_ok w (tick w) \<Longrightarrow> queue_create w = (NULL, w\<lparr>tick := Suc (tick w)\<rparr>)"
  by (simp add: queue_create_def malloc_try_def)

lemma destroy_nodes_seg:
  assumes "seg (nodes w) p xs NULL" and "distinct (map fst xs)"
  shows "destroy_nodes p w = Some (w\<lparr>nodes := nodes w |` (- fst ` set xs)\<rparr>)"
  using assms
proof (induction xs arbitrary: p w)
  case Nil
  then show ?case by (subst destroy_nodes.simps) (simp add: restrict_map_def)
next
  case (Cons x xs)
  obtain a j where x: "x = (a, j)" by (cases x)
  from Cons.prems(1) obtain r where p: "p = At a" "nodes w a = Some \<lparr>node_job = j, node_next = r\<rparr>"
    and sg: "seg (nodes w) r xs NULL"
    unfolding x by (auto simp: seg_Cons_iff simp del: seg.simps(2))
  let ?w = "w\<lparr>nodes := (nodes w)(a := None)\<rparr>"
  have "a \<notin> fst ` set xs" using Cons.prems(2) x by auto
  then have "seg (nodes ?w) r xs NULL" using sg seg_upd [of a xs "nodes w" None r NULL] by simp
  then have "destroy_nodes r ?w = Some (?w\<lparr>nodes := nodes ?w |` (- fst ` set xs)\<rparr>)"
    using Cons.prems(2) by (intro Cons.IH) (assumption, simp)
  moreover have "(nodes w)(a := None) |` (- fst ` set xs) = nodes w |` (- fst ` set (x # xs))"
    by (auto simp: x restrict_map_def fun_eq_iff)
  ultimately show ?case using p by (subst destroy_nodes.simps) (simp add: cell_defs)
qed

lemma queue_destroy_ok:
  assumes st: "store w m" and a: "m a = Some js"
  shows "\<exists>w'. queue_destroy (At a) w = Some w' \<and> store w' (m(a := None)) \<and> env_eq w w' \<and> tick w' = tick w"
proof -
  from st obtain ns where ns: "store_at w ns m" by (auto simp: store_def)
  from ns a obtain c where c: "queues w a = Some c" and rep: "queue_rep (nodes w) c (ns a)"
    by (rule store_atD)
  have aD: "a \<in> dom m" using a by auto
  let ?N = "\<lambda>b. fst ` set (ns b)"
  let ?w = "w\<lparr>nodes := nodes w |` (- ?N a), queues := (queues w)(a := None)\<rparr>"
  have dest: "queue_destroy (At a) w = Some ?w"
    using c destroy_nodes_seg [OF queue_repD(1,5) [OF rep]] by (simp add: queue_destroy_def cell_defs)
  have "dom (queues ?w) = dom (m(a := None))" using store_at_queues [OF ns] by simp
  moreover have "dom (nodes ?w) = (\<Union>b\<in>dom (m(a := None)). ?N b)"
  proof -
    have "dom (nodes ?w) = (\<Union>b\<in>dom m. ?N b) - ?N a" using store_at_nodes [OF ns] by auto
    also have "\<dots> = (\<Union>b\<in>dom m - {a}. ?N b)"
      using store_at_disjoint [OF ns _ aD] by fast
    finally show ?thesis by simp
  qed
  moreover have "(m(a := None)) b = Some (map snd (ns b)) \<and>
      queue_rep (nodes ?w) (the (queues ?w b)) (ns b)" if "b \<in> dom (m(a := None))" for b
  proof -
    have b: "b \<in> dom m" "b \<noteq> a" using that by (auto split: if_splits)
    have "seg (nodes ?w) p (ns b) q = seg (nodes w) p (ns b) q" for p q
      using store_at_disjoint [OF ns b(1) aD b(2)] by (intro seg_cong) (auto simp: restrict_map_def)
    with b store_at_list [OF ns b(1)] store_at_rep [OF ns b(1)] show ?thesis
      by (simp add: queue_rep_def)
  qed
  moreover have "?N b \<inter> ?N d = {}" if "b \<in> dom (m(a := None))" "d \<in> dom (m(a := None))" "b \<noteq> d" for b d
  proof -
    have "b \<in> dom m" "d \<in> dom m" using that by (auto split: if_splits)
    then show ?thesis using that(3) by (rule store_at_disjoint [OF ns])
  qed
  moreover have "x < fresh ?w" if "x \<in> dom (nodes ?w) \<union> dom (queues ?w)" for x
  proof -
    from that have "x \<in> dom (nodes w) \<union> dom (queues w)" by (simp split: if_splits) blast
    from store_at_fresh [OF ns this] show ?thesis by simp
  qed
  ultimately have "store_at ?w ns (m(a := None))" by (rule store_atI)
  then have "store ?w (m(a := None))" unfolding store_def by blast
  with dest show ?thesis by (intro exI [of _ ?w]) (simp add: env_eq_def)
qed

text \<open>When no queue is left, neither is a node: nothing allocated by the queues is leaked.\<close>

lemma store_empty:
  assumes "store w Map.empty"
  shows "nodes w = Map.empty" and "queues w = Map.empty"
proof -
  from assms obtain ns where ns: "store_at w ns Map.empty" by (auto simp: store_def)
  show "nodes w = Map.empty" using store_at_nodes [OF ns] by simp
  show "queues w = Map.empty" using store_at_queues [OF ns] by simp
qed


subsection \<open>The interface to the queues\<close>

text \<open>
  What a client of the scheduler relies on, for any representation of queues: a state represents one
  list of jobs per queue, an insertion appends when there is room and changes nothing otherwise, and
  no operation touches the rest of the process.
\<close>

locale queue_store =
  fixes rep :: "'w \<Rightarrow> ('q \<rightharpoonup> 'j list) \<Rightarrow> bool"
    and env :: "'w \<Rightarrow> 'w \<Rightarrow> bool"
    and room :: "'w \<Rightarrow> bool"
    and enq :: "'q \<Rightarrow> 'j \<Rightarrow> 'w \<Rightarrow> (bool \<times> 'w) option"
    and empty_q :: "'q \<Rightarrow> 'w \<Rightarrow> bool option"
    and size_q :: "'q \<Rightarrow> 'w \<Rightarrow> int option"
  assumes env_refl: "env w w"
    and env_trans: "env w1 w2 \<Longrightarrow> env w2 w3 \<Longrightarrow> env w1 w3"
    and enq_room: "rep w m \<Longrightarrow> m q = Some js \<Longrightarrow> room w \<Longrightarrow> int (length js) + 1 < 2 ^ 31 \<Longrightarrow>
      \<exists>w'. enq q j w = Some (True, w') \<and> rep w' (m(q \<mapsto> js @ [j])) \<and> env w w'"
    and enq_full: "rep w m \<Longrightarrow> m q = Some js \<Longrightarrow> \<not> room w \<Longrightarrow>
      \<exists>w'. enq q j w = Some (False, w') \<and> rep w' m \<and> env w w'"
    and empty_q: "rep w m \<Longrightarrow> m q = Some js \<Longrightarrow> empty_q q w = Some (js = [])"
    and size_q: "rep w m \<Longrightarrow> m q = Some js \<Longrightarrow> size_q q w = Some (int (length js))"
begin

lemma enq_cases:
  assumes "rep w m" and "m q = Some js" and "int (length js) + 1 < 2 ^ 31"
  obtains w' where "room w" and "enq q j w = Some (True, w')" and "rep w' (m(q \<mapsto> js @ [j]))" and "env w w'"
  | w' where "\<not> room w" and "enq q j w = Some (False, w')" and "rep w' m" and "env w w'"
  using enq_room [OF assms(1,2) _ assms(3), of j] enq_full [OF assms(1,2), of j] by blast

lemma enq_nonempty:
  assumes "rep w m" and "m q = Some js" and "enq q j w = Some (True, w')"
    and "int (length js) + 1 < 2 ^ 31"
  shows "empty_q q w' = Some False" and "size_q q w' = Some (int (length js) + 1)"
  using assms(3) by (cases rule: enq_cases [OF assms(1,2,4), of j]; simp add: empty_q size_q)+

end

text \<open>
  A scheduling policy: an operation that takes one waiting job out of a non-empty queue, whichever it
  is, and leaves the order of the others as it was.
\<close>

locale queue_policy = queue_store rep env room enq empty_q size_q
  for rep :: "'w \<Rightarrow> ('q \<rightharpoonup> 'j list) \<Rightarrow> bool" and env room enq empty_q size_q +
  fixes pick :: "'q \<Rightarrow> 'w \<Rightarrow> ('j option \<times> 'w) option"
  assumes pick_some: "rep w m \<Longrightarrow> m q = Some js \<Longrightarrow> js \<noteq> [] \<Longrightarrow>
      \<exists>ys j zs w'. js = ys @ j # zs \<and> pick q w = Some (Some j, w') \<and>
        rep w' (m(q \<mapsto> ys @ zs)) \<and> env w w'"
    and pick_none: "rep w m \<Longrightarrow> m q = Some [] \<Longrightarrow> \<exists>w'. pick q w = Some (None, w') \<and> rep w' m \<and> env w w'"
begin

text \<open>A pick is defined and answers exactly when there is a job; it takes one job and loses none.\<close>

lemma pick_defined:
  assumes "rep w m" and "m q = Some js"
  obtains r w' where "pick q w = Some (r, w')" and "r = None \<longleftrightarrow> js = []" and "env w w'"
  using pick_some [OF assms] pick_none [of w m q] assms by (cases "js = []") force+

lemma pick_mset:
  assumes "rep w m" and "m q = Some js" and "pick q w = Some (Some j, w')"
  obtains js' where "rep w' (m(q \<mapsto> js'))" and "mset js = add_mset j (mset js')" and "env w w'"
proof (cases "js = []")
  case True
  with pick_none [of w m q] assms show ?thesis by auto
next
  case False
  from pick_some [OF assms(1,2) False] assms(3) obtain ys zs where
    "js = ys @ j # zs" "rep w' (m(q \<mapsto> ys @ zs))" "env w w'" by auto
  then show ?thesis by (intro that [of "ys @ zs"]) auto
qed

text \<open>Moving a job to another queue: with room, every job is still in exactly one of the two.\<close>

lemma transfer:
  assumes rep: "rep w m" and src: "m p = Some js" and dst: "m q = Some ks" and pq: "p \<noteq> q"
    and ne: "js \<noteq> []" and len: "int (length ks) + 1 < 2 ^ 31"
    and room: "\<And>w'. env w w' \<Longrightarrow> room w'"
  obtains ys j zs w1 w2 where "js = ys @ j # zs" and "pick p w = Some (Some j, w1)"
    and "enq q (f j) w1 = Some (True, w2)" and "rep w2 (m(p \<mapsto> ys @ zs, q \<mapsto> ks @ [f j]))" and "env w w2"
proof -
  from pick_some [OF rep src ne] obtain ys j zs w1 where p: "js = ys @ j # zs"
    "pick p w = Some (Some j, w1)" "rep w1 (m(p \<mapsto> ys @ zs))" "env w w1" by blast
  have "(m(p \<mapsto> ys @ zs)) q = Some ks" using dst pq by simp
  from enq_room [OF p(3) this room [OF p(4)] len, of "f j"] obtain w2 where
    "enq q (f j) w1 = Some (True, w2)" "rep w2 (m(p \<mapsto> ys @ zs, q \<mapsto> ks @ [f j]))" "env w1 w2"
    by blast
  with that p env_trans [OF p(4)] show thesis by blast
qed

end

text \<open>The code's queues provide the interface, and FCFS and random removal are policies on it.\<close>

abbreviation job_room :: "world \<Rightarrow> bool" where
  "job_room w \<equiv> malloc_ok w (tick w)"

abbreviation job_enq :: "nat \<Rightarrow> job_info \<Rightarrow> world \<Rightarrow> (bool \<times> world) option" where
  "job_enq a j \<equiv> queue_enqueue (At a) (Var (Some j))"

definition picked :: "(bool \<times> job_info var \<times> world) option \<Rightarrow> (job_info option \<times> world) option" where
  "picked r = do { (b, v, w) \<leftarrow> r; Some (if b then deref v else None, w) }"

interpretation jq: queue_store store env_eq job_room job_enq
  "\<lambda>a. queue_is_empty (At a)" "\<lambda>a. queue_get_size (At a)"
proof unfold_locales
  fix w w1 w2 w3 :: world and m q and js :: "job_info list" and j
  show "env_eq w w" by (rule env_eq_refl)
  show "env_eq w1 w2 \<Longrightarrow> env_eq w2 w3 \<Longrightarrow> env_eq w1 w3" by (rule env_eq_trans)
  assume st: "store w m" and mq: "m q = Some js"
  show "job_room w \<Longrightarrow> int (length js) + 1 < 2 ^ 31 \<Longrightarrow>
      \<exists>w'. job_enq q j w = Some (True, w') \<and> store w' (m(q \<mapsto> js @ [j])) \<and> env_eq w w'"
    by (rule queue_enqueue_ok [OF st mq])
  show "\<not> job_room w \<Longrightarrow> \<exists>w'. job_enq q j w = Some (False, w') \<and> store w' m \<and> env_eq w w'"
  proof (intro exI conjI)
    assume "\<not> job_room w"
    then show "job_enq q j w = Some (False, w\<lparr>tick := Suc (tick w)\<rparr>)" by (rule queue_enqueue_nomem)
    show "store (w\<lparr>tick := Suc (tick w)\<rparr>) m" using st by (simp only: store_tick)
    show "env_eq w (w\<lparr>tick := Suc (tick w)\<rparr>)" by (simp add: env_eq_def)
  qed
  show "queue_is_empty (At q) w = Some (js = [])" by (rule queue_is_empty_ok [OF st mq])
  show "queue_get_size (At q) w = Some (int (length js))" by (rule queue_get_size_ok [OF st mq])
qed

interpretation fcfs: queue_policy store env_eq job_room job_enq
  "\<lambda>a. queue_is_empty (At a)" "\<lambda>a. queue_get_size (At a)"
  "\<lambda>a w. picked (queue_dequeue (At a) (Var None) w)"
proof unfold_locales
  fix w m q and js :: "job_info list"
  assume w: "store w m" "m q = Some js" and ne: "js \<noteq> []"
  from ne obtain j zs where js: "js = [] @ j # zs" by (cases js) auto
  have mq: "m q = Some (j # zs)" using w js by simp
  from queue_dequeue_ok [OF w(1) mq, of "Var None"]
  show "\<exists>ys j zs w'. js = ys @ j # zs \<and> picked (queue_dequeue (At q) (Var None) w) = Some (Some j, w') \<and>
      store w' (m(q \<mapsto> ys @ zs)) \<and> env_eq w w'"
    using js by (intro exI [of _ "[]"] exI [of _ j] exI [of _ zs]) (auto simp: picked_def)
qed (auto simp: picked_def queue_dequeue_empty)

interpretation rnd: queue_policy store env_eq job_room job_enq
  "\<lambda>a. queue_is_empty (At a)" "\<lambda>a. queue_get_size (At a)"
  "\<lambda>a w. picked (queue_dequeue_random (At a) (Var None) w)"
proof unfold_locales
  fix w m q and js :: "job_info list"
  assume w: "store w m" "m q = Some js" and ne: "js \<noteq> []"
  then have "rand_out w (tick w) mod length js < length js" by simp
  from nth_split [OF this] obtain ys j zs where js: "js = ys @ j # zs"
    and i: "length ys = rand_out w (tick w) mod length js" by blast
  have "m q = Some (ys @ j # zs)" using w js by simp
  from queue_dequeue_random_ok [OF w(1) this _ i [unfolded js], of "Var None"] obtain w' where
    "queue_dequeue_random (At q) (Var None) w = Some (True, Var (Some j), w')"
    "store w' (m(q \<mapsto> ys @ zs))" "env_eq w w'" by auto
  with js show "\<exists>ys j zs w'. js = ys @ j # zs \<and> picked (queue_dequeue_random (At q) (Var None) w) = Some (Some j, w') \<and>
      store w' (m(q \<mapsto> ys @ zs)) \<and> env_eq w w'"
    by (intro exI [of _ ys] exI [of _ j] exI [of _ zs]) (auto simp: picked_def)
qed (auto simp: picked_def queue_dequeue_random_empty)

end
