(* ===== verification/Fair_Policy.thy ===== *)
theory Fair_Policy
  imports Job_Queue "HOL-Library.Sublist"
begin

text \<open>
  \<^verbatim>\<open>src/controller/scheduler.c\<close>, the fair policy: the choice of the user served next, the removal of
  that user's first job, and the copy of a queue in the order the policy will serve it. The lemmas
  give what the index loops compute in terms of lists, that fair removal is a policy in the sense of
  the queue interface, that the copy shows the order of the real removals, and that every waiting user
  is served within one round.
\<close>

subsection \<open>Choosing a user\<close>

definition user_exists :: "int block \<Rightarrow> int \<Rightarrow> int \<Rightarrow> bool option" where
  "user_exists users user_count uid = do {
     i \<leftarrow> for_find (\<lambda>i. do { u \<leftarrow> rd users i; Some (u = uid) }) 0 (nat user_count);
     Some (i \<noteq> - 1) }"

definition choose_next_user :: "int block \<Rightarrow> int \<Rightarrow> int \<Rightarrow> int option" where
  "choose_next_user users user_count last_user_id =
     (if user_count \<le> 0 then Some (- 1)
      else do {
        last_idx \<leftarrow> for_find (\<lambda>i. do { u \<leftarrow> rd users i; Some (u = last_user_id) }) 0 (nat user_count);
        if last_idx = - 1 \<or> last_idx = user_count - 1 then rd users 0
        else rd users (last_idx + 1) })"

text \<open>\<open>(last_idx + offset + fair_user_count) % fair_user_count\<close>, in \<open>int\<close> arithmetic.\<close>

definition fair_index :: "int \<Rightarrow> int \<Rightarrow> int \<Rightarrow> int option" where
  "fair_index last_idx offset cnt = do {
     s \<leftarrow> c_int (last_idx + offset);
     s' \<leftarrow> c_int (s + cnt);
     c_mod s' cnt }"

definition choose_next_fair_user :: "int block \<Rightarrow> int \<Rightarrow> int block option \<Rightarrow> int \<Rightarrow> int \<Rightarrow> int option" where
  "choose_next_fair_user active_users active_user_count fair_users fair_user_count last_user_id =
     (if active_user_count \<le> 0 then Some (- 1)
      else case fair_users of
        None \<Rightarrow> choose_next_user active_users active_user_count last_user_id
      | Some fu \<Rightarrow>
          if fair_user_count \<le> 0 then choose_next_user active_users active_user_count last_user_id
          else do {
            last_idx \<leftarrow> for_find (\<lambda>i. do { u \<leftarrow> rd fu i; Some (u = last_user_id) }) 0 (nat fair_user_count);
            offset \<leftarrow> for_find (\<lambda>offset. do {
                idx \<leftarrow> fair_index last_idx offset fair_user_count;
                u \<leftarrow> rd fu idx;
                user_exists active_users active_user_count u }) 1 (nat fair_user_count);
            if offset \<noteq> - 1 then do {
              idx \<leftarrow> fair_index last_idx offset fair_user_count;
              rd fu idx }
            else rd active_users 0 })"

subsection \<open>Removal\<close>

text \<open>\<open>for (curr = q->head; curr != NULL; curr = curr->next)\<close>: the users that have queued jobs.\<close>

partial_function (option) collect_users ::
  "ptr \<Rightarrow> int block \<Rightarrow> int \<Rightarrow> world \<Rightarrow> (int block \<times> int) option" where
  [code]: "collect_users cur users user_count w =
     (if cur = NULL then Some (users, user_count)
      else do {
        n \<leftarrow> get_node cur w;
        e \<leftarrow> user_exists users user_count (user_id (node_job n));
        if \<not> e then do {
          users1 \<leftarrow> wr users user_count (user_id (node_job n));
          collect_users (node_next n) users1 (user_count + 1) w }
        else collect_users (node_next n) users user_count w })"

definition queue_dequeue_fair ::
  "ptr \<Rightarrow> int block option \<Rightarrow> int \<Rightarrow> int var \<Rightarrow> job_info var \<Rightarrow> world \<Rightarrow>
   (bool \<times> int var \<times> job_info var \<times> world) option" where
  "queue_dequeue_fair q fair_users fair_user_count last_user_id out_job w =
     (if q = NULL \<or> last_user_id = NULLV \<or> out_job = NULLV then Some (False, last_user_id, out_job, w)
      else do {
        c \<leftarrow> get_queue q w;
        if q_head c = NULL then Some (False, last_user_id, out_job, w)
        else do {
          let (ok, w1) = malloc_block w;
          if \<not> ok then do {
            (r, out1, w2) \<leftarrow> queue_dequeue q out_job w1;
            if r then do {
              j \<leftarrow> deref out1;
              Some (True, Var (Some (user_id j)), out1, w2) }
            else Some (False, last_user_id, out1, w2) }
          else do {
            (users, user_count) \<leftarrow> collect_users (q_head c) (uninit (q_size c)) 0 w1;
            lu \<leftarrow> deref last_user_id;
            target_user \<leftarrow> choose_next_fair_user users user_count fair_users fair_user_count lu;
            w2 \<leftarrow> free_block w1;
            (prev, cur) \<leftarrow> find_node (\<lambda>j. user_id j = target_user) NULL (q_head c) w2;
            if cur = NULL then Some (False, last_user_id, out_job, w2)
            else do {
              (j, w3) \<leftarrow> unlink_node q prev cur w2;
              Some (True, Var (Some target_user), Var (Some j), w3) } } } })"

subsection \<open>The order shown by a status request\<close>

text \<open>\<open>for (i = 0; i < q->size; i++)\<close> over the users of the jobs not used yet, with \<open>q->size - i\<close> as argument.\<close>

fun collect_unused ::
  "nat \<Rightarrow> int \<Rightarrow> job_info block \<Rightarrow> int block \<Rightarrow> int block \<Rightarrow> int \<Rightarrow> (int block \<times> int) option" where
  "collect_unused 0 i jobs used users user_count = Some (users, user_count)"
| "collect_unused (Suc k) i jobs used users user_count = do {
     f \<leftarrow> rd used i;
     if f \<noteq> 0 then collect_unused k (i + 1) jobs used users user_count
     else do {
       j \<leftarrow> rd jobs i;
       e \<leftarrow> user_exists users user_count (user_id j);
       if \<not> e then do {
         users1 \<leftarrow> wr users user_count (user_id j);
         collect_unused k (i + 1) jobs used users1 (user_count + 1) }
       else collect_unused k (i + 1) jobs used users user_count } }"

partial_function (option) copy_fair_loop ::
  "int \<Rightarrow> int \<Rightarrow> int \<Rightarrow> int block option \<Rightarrow> int \<Rightarrow> job_info block \<Rightarrow> int block \<Rightarrow> job_info block \<Rightarrow> int \<Rightarrow> world \<Rightarrow>
   (int \<times> job_info block \<times> world) option" where
  [code]: "copy_fair_loop copied max_size size_q fair_users fair_user_count jobs used arr current_last_user w =
     (if copied < max_size \<and> copied < size_q then do {
        let (ok, w1) = malloc_block w;
        if \<not> ok then Some (copied, arr, w1)
        else do {
          (users, user_count) \<leftarrow> collect_unused (nat size_q) 0 jobs used (uninit size_q) 0;
          target_user \<leftarrow> choose_next_fair_user users user_count fair_users fair_user_count current_last_user;
          w2 \<leftarrow> free_block w1;
          if target_user = - 1 then Some (copied, arr, w2)
          else do {
            target_idx \<leftarrow> for_find (\<lambda>i. do {
                f \<leftarrow> rd used i;
                if f \<noteq> 0 then Some False
                else do { j \<leftarrow> rd jobs i; Some (user_id j = target_user) } }) 0 (nat size_q);
            if target_idx = - 1 then Some (copied, arr, w2)
            else do {
              j \<leftarrow> rd jobs target_idx;
              arr1 \<leftarrow> wr arr copied j;
              used1 \<leftarrow> wr used target_idx 1;
              copy_fair_loop (copied + 1) max_size size_q fair_users fair_user_count jobs used1 arr1 target_user w2 } } } }
      else Some (copied, arr, w))"

definition queue_copy_fair_to_array ::
  "ptr \<Rightarrow> job_info block option \<Rightarrow> int \<Rightarrow> int \<Rightarrow> int block option \<Rightarrow> int \<Rightarrow> world \<Rightarrow>
   (int \<times> job_info block option \<times> world) option" where
  "queue_copy_fair_to_array q arr max_size last_user_id fair_users fair_user_count w =
     (case arr of
        None \<Rightarrow> Some (0, arr, w)
      | Some b \<Rightarrow>
          if q = NULL \<or> max_size \<le> 0 then Some (0, arr, w)
          else do {
            c \<leftarrow> get_queue q w;
            if q_size c \<le> 0 then Some (0, arr, w)
            else do {
              let (jobs_ok, w1) = malloc_block w;
              let (used_ok, w2) = malloc_block w1;
              if \<not> jobs_ok \<or> \<not> used_ok then do {
                w3 \<leftarrow> (if jobs_ok then free_block w2 else Some w2);
                w4 \<leftarrow> (if used_ok then free_block w3 else Some w3);
                (n, arr1) \<leftarrow> queue_copy_to_array q arr max_size w4;
                Some (n, arr1, w4) }
              else do {
                let used = replicate (nat (q_size c)) (Some 0);
                (_, jobs) \<leftarrow> queue_copy_to_array q (Some (uninit (q_size c))) (q_size c) w2;
                jobs1 \<leftarrow> jobs;
                (copied, b1, w3) \<leftarrow> copy_fair_loop 0 max_size (q_size c) fair_users fair_user_count jobs1 used b last_user_id w2;
                w4 \<leftarrow> free_block w3;
                w5 \<leftarrow> free_block w4;
                Some (copied, Some b1, w5) } } })"

subsection \<open>What the choice computes\<close>

text \<open>
  The users with queued jobs in order of first appearance; the circular order that starts after the
  user served last; the first user of that order who has a job.
\<close>

definition add_user :: "int \<Rightarrow> int list \<Rightarrow> int list" where
  "add_user u us = (if u \<in> set us then us else us @ [u])"

definition users_of :: "job_info list \<Rightarrow> int list" where
  "users_of js = fold (\<lambda>j. add_user (user_id j)) js []"

definition after_user :: "int \<Rightarrow> int list \<Rightarrow> int list" where
  "after_user l us =
     (case split_first (\<lambda>u. u = l) us of None \<Rightarrow> us | Some (ys, y, zs) \<Rightarrow> zs @ ys @ [y])"

definition fair_user :: "int list \<Rightarrow> int \<Rightarrow> int list \<Rightarrow> int" where
  "fair_user fu l us =
     (if us = [] then - 1
      else if fu = [] then hd (after_user l us)
      else case split_first (\<lambda>u. u \<in> set us) (after_user l fu) of
          None \<Rightarrow> hd us
        | Some (ys, u, zs) \<Rightarrow> u)"

lemma set_add_user [simp]: "set (add_user u us) = insert u (set us)"
  by (auto simp: add_user_def)

lemma distinct_add_user [simp]: "distinct us \<Longrightarrow> distinct (add_user u us)"
  by (simp add: add_user_def)

lemma set_fold_add_user:
  "set (fold (\<lambda>j. add_user (user_id j)) js us) = set us \<union> user_id ` set js"
  by (induction js arbitrary: us) auto

lemma set_users_of [simp]: "set (users_of js) = user_id ` set js"
  by (simp add: users_of_def set_fold_add_user)

lemma length_fold_add_user:
  "length (fold (\<lambda>j. add_user (user_id j)) js us) \<le> length us + length js"
proof (induction js arbitrary: us)
  case (Cons j js)
  from Cons.IH [of "add_user (user_id j) us"] show ?case by (auto simp: add_user_def split: if_splits)
qed simp

lemma users_of_Nil [simp]: "users_of js = [] \<longleftrightarrow> js = []"
  by (metis set_users_of image_is_empty set_empty)

lemma set_after_user [simp]: "set (after_user l us) = set us"
  by (auto simp: after_user_def dest!: split_first_SomeD split: option.splits)

lemma after_user_Nil [simp]: "after_user l us = [] \<longleftrightarrow> us = []"
  by (metis set_after_user set_empty)

lemma fair_user_in:
  assumes "us \<noteq> []"
  shows "fair_user fu l us \<in> set us"
proof (cases "fu = []")
  case True
  have "hd (after_user l us) \<in> set (after_user l us)" using assms by (intro hd_in_set) simp
  then show ?thesis using True assms by (simp add: fair_user_def)
next
  case False
  show ?thesis
  proof (cases "split_first (\<lambda>u. u \<in> set us) (after_user l fu)")
    case None
    then show ?thesis using False assms by (simp add: fair_user_def)
  next
    case (Some r)
    obtain ys u zs where r: "r = (ys, u, zs)" by (cases r)
    from split_first_SomeD [OF Some [unfolded r]] Some False assms show ?thesis
      by (simp add: fair_user_def r)
  qed
qed

subsection \<open>The loops compute it\<close>

text \<open>A search over the cells of a block is the search in the list they hold.\<close>

definition first_index :: "('a \<Rightarrow> bool) \<Rightarrow> int \<Rightarrow> 'a list \<Rightarrow> int" where
  "first_index P lo xs = (case split_first P xs of None \<Rightarrow> - 1 | Some (ys, y, zs) \<Rightarrow> lo + int (length ys))"

lemma for_find_list:
  assumes "\<And>i. i < length xs \<Longrightarrow> t (lo + int i) = Some (P (xs ! i))"
  shows "for_find t lo (length xs) = Some (first_index P lo xs)"
  using assms
proof (induction xs arbitrary: lo)
  case Nil
  then show ?case by (simp add: first_index_def)
next
  case (Cons x xs)
  have "for_find t (lo + 1) (length xs) = Some (first_index P (lo + 1) xs)"
    using Cons.prems [of "Suc i" for i] by (intro Cons.IH) (simp add: algebra_simps)
  with Cons.prems [of 0] show ?case
    by (auto simp: first_index_def split: option.splits)
qed

lemma for_find_holds:
  assumes "holds b xs"
  shows "for_find (\<lambda>i. do { u \<leftarrow> rd b i; Some (P u) }) 0 (length xs) = Some (first_index P 0 xs)"
  using holds_rd [OF assms] by (intro for_find_list) simp

lemma first_index_minus1: "0 \<le> lo \<Longrightarrow> first_index P lo xs = - 1 \<longleftrightarrow> (\<forall>x\<in>set xs. \<not> P x)"
  by (auto simp: first_index_def split: option.splits dest: split_first_SomeD)
    (metis split_first_None option.distinct(1))+

lemma user_exists_holds:
  assumes "holds b us"
  shows "user_exists b (int (length us)) u = Some (u \<in> set us)"
  using for_find_holds [OF assms, of "\<lambda>v. v = u"]
  by (simp add: user_exists_def first_index_minus1)

lemma choose_next_user_holds:
  assumes "holds b us"
  shows "choose_next_user b (int (length us)) l = Some (if us = [] then - 1 else hd (after_user l us))"
proof (cases "us = []")
  case True
  then show ?thesis by (simp add: choose_next_user_def)
next
  case False
  note f = for_find_holds [OF assms, of "\<lambda>v. v = l"]
  have r0: "rd b 0 = Some (us ! 0)" using False by (intro holds_rd [OF assms, of 0, simplified])  auto
  show ?thesis
  proof (cases "split_first (\<lambda>v. v = l) us")
    case None
    then show ?thesis using False f r0
      by (simp add: choose_next_user_def first_index_def after_user_def hd_conv_nth)
  next
    case (Some r)
    obtain ys y zs where r: "r = (ys, y, zs)" by (cases r)
    have us: "us = ys @ y # zs" using split_first_SomeD [OF Some [unfolded r]] by simp
    have idx: "for_find (\<lambda>i. do { u \<leftarrow> rd b i; Some (u = l) }) 0 (length us) = Some (int (length ys))"
      using f by (simp add: first_index_def Some r)
    have af: "after_user l us = zs @ ys @ [y]" by (simp add: after_user_def Some r)
    show ?thesis
    proof (cases "zs = []")
      case True
      have "us ! 0 = hd (ys @ [y])" using us True by (simp add: hd_conv_nth)
      moreover have "int (length ys) = int (length us) - 1" using us True by simp
      ultimately show ?thesis using False True idx af r0 by (simp add: choose_next_user_def)
    next
      case zs: False
      have "rd b (int (length ys) + 1) = Some (us ! Suc (length ys))"
        using zs us holds_rd [OF assms, of "int (length ys) + 1"] by (simp add: nat_add_distrib)
      moreover have "us ! Suc (length ys) = hd zs" using us zs by (simp add: nth_append hd_conv_nth)
      moreover have "int (length ys) \<noteq> int (length us) - 1" using us zs by simp
      ultimately show ?thesis using False zs idx af by (simp add: choose_next_user_def)
    qed
  qed
qed

text \<open>The index arithmetic walks the circular order.\<close>

lemma after_user_rotate:
  "after_user l us = rotate (nat (first_index (\<lambda>u. u = l) 0 us + 1)) us"
proof (cases "split_first (\<lambda>u. u = l) us")
  case None
  then show ?thesis by (simp add: after_user_def first_index_def)
next
  case (Some r)
  obtain ys y zs where r: "r = (ys, y, zs)" by (cases r)
  have us: "us = (ys @ [y]) @ zs" using split_first_SomeD [OF Some [unfolded r]] by simp
  have "nat (int (length ys) + 1) = length (ys @ [y])" by simp
  then have "rotate (nat (int (length ys) + 1)) us = zs @ ys @ [y]"
    unfolding us by (simp only: rotate_append)
  then show ?thesis by (simp add: after_user_def first_index_def Some r)
qed

lemma first_index_bounds: "- 1 \<le> first_index P 0 xs \<and> first_index P 0 xs < int (length xs)"
  by (auto simp: first_index_def split: option.splits dest!: split_first_SomeD)

lemma fair_index_rotate:
  assumes "- 1 \<le> k" and "k < int n" and "i < n" and "3 * int n < 2 ^ 31"
  shows "fair_index k (1 + int i) (int n) = Some (int ((i + nat (k + 1)) mod n))"
proof -
  have 1: "c_int (k + (1 + int i)) = Some (k + (1 + int i))"
    and 2: "c_int (k + (1 + int i) + int n) = Some (k + (1 + int i) + int n)"
    using assms by simp_all
  have 3: "k + (1 + int i) + int n = int (i + nat (k + 1) + n)" using assms by simp
  have "fair_index k (1 + int i) (int n) = c_mod (k + (1 + int i) + int n) (int n)"
    unfolding fair_index_def 1 bind.bind_lunit 2 ..
  also have "\<dots> = c_mod (int (i + nat (k + 1) + n)) (int n)" by (simp only: 3)
  also have "\<dots> = Some (int ((i + nat (k + 1) + n) mod n))"
    using assms by (simp only: c_mod_def smod_nat) simp
  finally show ?thesis by simp
qed

lemma choose_next_fair_user_holds:
  assumes us: "holds b us" and fu: "holds f fu" and n: "3 * int (length fu) < 2 ^ 31"
  shows "choose_next_fair_user b (int (length us)) (Some f) (int (length fu)) l = Some (fair_user fu l us)"
proof (cases "us = [] \<or> fu = []")
  case True
  then show ?thesis
    using choose_next_user_holds [OF us, of l]
    by (auto simp: choose_next_fair_user_def fair_user_def choose_next_user_def)
next
  case False
  let ?n = "length fu" and ?k = "first_index (\<lambda>u. u = l) 0 fu"
  let ?R = "after_user l fu"
  let ?P = "\<lambda>u. u \<in> set us"
  have len: "length ?R = ?n" by (simp add: after_user_rotate)
  have cell: "do { idx \<leftarrow> fair_index ?k (1 + int i) (int ?n); rd f idx } = Some (?R ! i)" if "i < ?n" for i
  proof -
    have "(i + nat (?k + 1)) mod ?n < ?n" using that by (intro mod_less_divisor) linarith
    then have "rd f (int ((i + nat (?k + 1)) mod ?n)) = Some (fu ! ((i + nat (?k + 1)) mod ?n))"
      by (subst holds_rd [OF fu]) simp_all
    moreover have "?R ! i = fu ! ((i + nat (?k + 1)) mod ?n)"
      using that by (simp add: after_user_rotate nth_rotate add.commute)
    ultimately show ?thesis
      using fair_index_rotate [of ?k ?n i] first_index_bounds [of "\<lambda>u. u = l" fu] that n by simp
  qed
  have k: "for_find (\<lambda>i. do { u \<leftarrow> rd f i; Some (u = l) }) 0 ?n = Some ?k"
    by (rule for_find_holds [OF fu])
  have off: "for_find (\<lambda>offset. do {
        idx \<leftarrow> fair_index ?k offset (int ?n);
        u \<leftarrow> rd f idx;
        user_exists b (int (length us)) u }) 1 (length ?R) = Some (first_index ?P 1 ?R)"
  proof (rule for_find_list)
    fix i assume "i < length ?R"
    with cell [of i] len show "do { idx \<leftarrow> fair_index ?k (1 + int i) (int ?n);
        u \<leftarrow> rd f idx; user_exists b (int (length us)) u } = Some (?P (?R ! i))"
      by (simp add: bind_eq_Some_conv) (auto simp: user_exists_holds [OF us])
  qed
  have r0: "rd b 0 = Some (hd us)" using False holds_rd [OF us, of 0] by (simp add: hd_conv_nth)
  show ?thesis
  proof (cases "split_first ?P ?R")
    case None
    then show ?thesis using False k off len r0
      by (simp add: choose_next_fair_user_def fair_user_def first_index_def)
  next
    case (Some r)
    obtain ys u zs where r: "r = (ys, u, zs)" by (cases r)
    have R: "?R = ys @ u # zs" using split_first_SomeD [OF Some [unfolded r]] by simp
    then have "length ys < ?n" and "?R ! length ys = u" using len [symmetric] by simp_all
    with cell [of "length ys"] have "do { idx \<leftarrow> fair_index ?k (1 + int (length ys)) (int ?n); rd f idx } = Some u"
      by simp
    then show ?thesis using False k off len Some
      by (simp add: choose_next_fair_user_def fair_user_def first_index_def r)
  qed
qed

text \<open>The array of known users: \<open>NULL\<close> while it is empty, then a block that holds them.\<close>

definition array_rep :: "'a block option \<Rightarrow> 'a list \<Rightarrow> bool" where
  "array_rep f xs = (case f of None \<Rightarrow> xs = [] | Some b \<Rightarrow> holds b xs)"

lemma choose_next_fair_user_ok:
  assumes "holds b us" and "array_rep f fu" and "3 * int (length fu) < 2 ^ 31"
  shows "choose_next_fair_user b (int (length us)) f (int (length fu)) l = Some (fair_user fu l us)"
proof (cases f)
  case None
  then show ?thesis
    using assms choose_next_user_holds [OF assms(1), of l]
    by (auto simp: choose_next_fair_user_def fair_user_def array_rep_def choose_next_user_def)
qed (use assms in \<open>auto simp: array_rep_def intro: choose_next_fair_user_holds\<close>)

lemma add_user_block:
  assumes "holds b us" and "length us < length b"
  shows "\<exists>b'. (do { e \<leftarrow> user_exists b (int (length us)) u;
      if \<not> e then do { b1 \<leftarrow> wr b (int (length us)) u; Some (b1, int (length us) + 1) }
      else Some (b, int (length us)) }) = Some (b', int (length (add_user u us))) \<and>
    holds b' (add_user u us) \<and> length b' = length b"
  using assms by (auto simp: user_exists_holds add_user_def holds_write)

lemma collect_users_seg:
  assumes "seg (nodes w) p xs NULL" and "holds b us" and "length us + length xs \<le> length b"
  shows "\<exists>b'. collect_users p b (int (length us)) w =
      Some (b', int (length (fold (\<lambda>j. add_user (user_id j)) (map snd xs) us))) \<and>
    holds b' (fold (\<lambda>j. add_user (user_id j)) (map snd xs) us) \<and> length b' = length b"
  using assms
proof (induction xs arbitrary: p b us)
  case Nil
  then show ?case by (subst collect_users.simps) simp
next
  case (Cons x xs)
  obtain a j where x: "x = (a, j)" by (cases x)
  from Cons.prems(1) obtain r where p: "p = At a" "nodes w a = Some \<lparr>node_job = j, node_next = r\<rparr>"
    and sg: "seg (nodes w) r xs NULL"
    unfolding x by (auto simp: seg_Cons_iff simp del: seg.simps(2))
  let ?us = "add_user (user_id j) us"
  from add_user_block [of b us "user_id j"] Cons.prems(2,3) obtain b1 where
    b1: "(do { e \<leftarrow> user_exists b (int (length us)) (user_id j);
      if \<not> e then do { b1 \<leftarrow> wr b (int (length us)) (user_id j); Some (b1, int (length us) + 1) }
      else Some (b, int (length us)) }) = Some (b1, int (length ?us))"
    and h: "holds b1 ?us" "length b1 = length b" by auto
  have "collect_users p b (int (length us)) w = collect_users r b1 (int (length ?us)) w"
    using b1 p by (subst collect_users.simps)
      (auto simp: get_node_def bind_eq_Some_conv split: if_splits)
  moreover have "length ?us + length xs \<le> length b1"
    using Cons.prems(3) h(2) by (auto simp: add_user_def)
  ultimately show ?case using Cons.IH [OF sg h(1)] h(2) by (simp add: x)
qed

lemma env_eq_block:
  "env_eq w (w\<lparr>tick := Suc (tick w), blocks := blocks w\<rparr>)"
  by (simp add: env_eq_def)

lemma store_blocks [simp]: "store (w\<lparr>blocks := k\<rparr>) m = store w m"
  by (simp add: store_def store_at_def)

text \<open>
  With memory for the temporary array, the job removed is the first one of the user whose turn it is,
  and the temporary array is freed again; without it, the job at the head is removed.
\<close>

lemma queue_dequeue_fair_ok:
  assumes st: "store w m" and a: "m a = Some js" and mem: "malloc_ok w (tick w)" and out: "out \<noteq> NULLV"
    and fu: "array_rep f fu" and n: "3 * int (length fu) < 2 ^ 31"
    and sp: "split_first (\<lambda>j. user_id j = fair_user fu l (users_of js)) js = Some (ys, j, zs)"
  shows "\<exists>w'. queue_dequeue_fair (At a) f (int (length fu)) (Var (Some l)) out w =
      Some (True, Var (Some (user_id j)), Var (Some j), w') \<and>
    store w' (m(a \<mapsto> ys @ zs)) \<and> env_eq w w'"
proof -
  let ?w1 = "w\<lparr>tick := Suc (tick w), blocks := Suc (blocks w)\<rparr>"
  let ?w2 = "w\<lparr>tick := Suc (tick w)\<rparr>"
  let ?t = "fair_user fu l (users_of js)"
  from split_first_SomeD [OF sp] have ujs: "js \<noteq> []" "user_id j = ?t" by auto
  have fb: "free_block ?w1 = Some ?w2" by (simp add: free_block_def)
  have st2: "store ?w2 m" using st by simp
  from find_node_store [OF st2 a, of "\<lambda>j. user_id j = ?t"] obtain c where
    c: "queues ?w2 a = Some c"
    and fn: "\<exists>p t w'. find_node (\<lambda>j. user_id j = ?t) NULL (q_head c) ?w2 = Some (p, At t) \<and>
        unlink_node (At a) p (At t) ?w2 = Some (j, w') \<and>
        store w' (m(a \<mapsto> ys @ zs)) \<and> env_eq ?w2 w' \<and> tick w' = tick ?w2"
    using sp by metis
  from store_queue [OF st a] c obtain xs where rep: "queue_rep (nodes w) c xs" and js: "js = map snd xs"
    by auto
  note r = queue_repD [OF rep]
  from collect_users_seg [of ?w1 "q_head c" xs "uninit (q_size c)" "[]"] r obtain b where
    cu: "collect_users (q_head c) (uninit (q_size c)) 0 ?w1 = Some (b, int (length (users_of js)))"
      "holds b (users_of js)"
    by (auto simp: users_of_def js)
  have hd: "q_head c \<noteq> NULL" using r(1) ujs js by (cases xs) auto
  have mb: "malloc_block w = (True, ?w1)" using mem by (simp add: malloc_block_def malloc_try_def)
  from fn obtain p t w' where
    "find_node (\<lambda>j. user_id j = ?t) NULL (q_head c) ?w2 = Some (p, At t)"
    "unlink_node (At a) p (At t) ?w2 = Some (j, w')" "store w' (m(a \<mapsto> ys @ zs))" "env_eq ?w2 w'"
    by blast
  moreover have "env_eq w ?w2" by (simp add: env_eq_def)
  moreover have "get_queue (At a) w = Some c" using c by (simp add: get_queue_def)
  ultimately show ?thesis
    using out hd mb cu fb choose_next_fair_user_ok [OF cu(2) fu n, of l] ujs
    by (auto simp: queue_dequeue_fair_def intro: env_eq_trans)
qed

lemma queue_dequeue_fair_nomem:
  assumes st: "store w m" and a: "m a = Some (j # js)" and mem: "\<not> malloc_ok w (tick w)" and out: "out \<noteq> NULLV"
  shows "\<exists>w'. queue_dequeue_fair (At a) f k (Var l) out w =
      Some (True, Var (Some (user_id j)), Var (Some j), w') \<and>
    store w' (m(a \<mapsto> js)) \<and> env_eq w w'"
proof -
  let ?w1 = "w\<lparr>tick := Suc (tick w)\<rparr>"
  from store_queue [OF st a] obtain c xs where c: "queues w a = Some c" "queue_rep (nodes w) c xs"
    "j # js = map snd xs" by auto
  have hd: "q_head c \<noteq> NULL" using queue_repD(1) [OF c(2)] c(3) by (cases xs) auto
  have mb: "malloc_block w = (False, ?w1)" using mem by (simp add: malloc_block_def malloc_try_def)
  have "store ?w1 m" using st by simp
  from queue_dequeue_ok [OF this a out] obtain w' where
    "queue_dequeue (At a) out ?w1 = Some (True, Var (Some j), w')" "store w' (m(a \<mapsto> js))" "env_eq ?w1 w'"
    by auto
  moreover have "env_eq w ?w1" by (simp add: env_eq_def)
  ultimately show ?thesis using out hd mb c(1)
    by (auto simp: queue_dequeue_fair_def get_queue_def intro: env_eq_trans)
qed

lemma queue_dequeue_fair_empty:
  assumes "store w m" and "m a = Some []"
  shows "queue_dequeue_fair (At a) f k l out w = Some (False, l, out, w)"
proof -
  from store_queue [OF assms] obtain c xs where "queues w a = Some c" "queue_rep (nodes w) c xs" "[] = map snd xs"
    by auto
  then show ?thesis by (simp add: queue_dequeue_fair_def get_queue_def queue_rep_def)
qed

text \<open>So fair removal is a policy as well, for any users known and any user served last.\<close>

lemma fair_split:
  assumes "js \<noteq> []"
  obtains ys j zs where "split_first (\<lambda>j. user_id j = fair_user fu l (users_of js)) js = Some (ys, j, zs)"
    and "js = ys @ j # zs" and "user_id j = fair_user fu l (users_of js)"
proof -
  have "fair_user fu l (users_of js) \<in> set (users_of js)" using assms by (intro fair_user_in) simp
  then have "\<exists>j\<in>set js. user_id j = fair_user fu l (users_of js)" by auto
  then show thesis using that by (rule split_first_exists)
qed

definition fair_picked ::
  "(bool \<times> int var \<times> job_info var \<times> world) option \<Rightarrow> (job_info option \<times> world) option" where
  "fair_picked r = picked (map_option (\<lambda>(b, l, v, w). (b, v, w)) r)"

lemma fair_policy:
  assumes "array_rep f fu" and "3 * int (length fu) < 2 ^ 31"
  shows "queue_policy store env_eq job_room job_enq (\<lambda>a. queue_is_empty (At a)) (\<lambda>a. queue_get_size (At a))
    (\<lambda>a w. fair_picked (queue_dequeue_fair (At a) f (int (length fu)) (Var (Some l)) (Var None) w))"
proof unfold_locales
  fix w m q and js :: "job_info list"
  assume w: "store w m" "m q = Some js" and ne: "js \<noteq> []"
  show "\<exists>ys j zs w'. js = ys @ j # zs \<and>
      fair_picked (queue_dequeue_fair (At q) f (int (length fu)) (Var (Some l)) (Var None) w) = Some (Some j, w') \<and>
      store w' (m(q \<mapsto> ys @ zs)) \<and> env_eq w w'"
  proof (cases "malloc_ok w (tick w)")
    case True
    obtain ys j zs where s: "split_first (\<lambda>j. user_id j = fair_user fu l (users_of js)) js = Some (ys, j, zs)"
      "js = ys @ j # zs" using fair_split [OF ne] by metis
    from queue_dequeue_fair_ok [OF w True _ assms s(1), of "Var None"] s(2) show ?thesis
      by (rule_tac exI [of _ ys], rule_tac exI [of _ j], rule_tac exI [of _ zs]) (auto simp: fair_picked_def picked_def)
  next
    case False
    from ne obtain j zs where js: "js = j # zs" by (cases js) auto
    from queue_dequeue_fair_nomem [OF w(1) w(2) [unfolded js] False, of "Var None" f "int (length fu)" "Some l"]
    obtain w' where "js = [] @ j # zs \<and>
        fair_picked (queue_dequeue_fair (At q) f (int (length fu)) (Var (Some l)) (Var None) w) = Some (Some j, w') \<and>
        store w' (m(q \<mapsto> [] @ zs)) \<and> env_eq w w'"
      using js by (auto simp: fair_picked_def picked_def)
    then show ?thesis by blast
  qed
qed (auto simp: fair_picked_def picked_def queue_dequeue_fair_empty)

subsection \<open>The order in which fair removal serves a queue\<close>

function fair_order :: "int list \<Rightarrow> int \<Rightarrow> job_info list \<Rightarrow> job_info list" where
  "fair_order fu l js =
     (case split_first (\<lambda>j. user_id j = fair_user fu l (users_of js)) js of
        None \<Rightarrow> []
      | Some (ys, j, zs) \<Rightarrow> j # fair_order fu (user_id j) (ys @ zs))"
  by pat_completeness auto
termination
  by (relation "measure (\<lambda>(fu, l, js). length js)") (auto dest!: split_first_SomeD)

declare fair_order.simps [simp del]

lemma fair_order_Nil [simp]: "fair_order fu l [] = []"
  by (subst fair_order.simps) simp

lemma fair_order_step:
  assumes "split_first (\<lambda>j. user_id j = fair_user fu l (users_of js)) js = Some (ys, j, zs)"
  shows "fair_order fu l js = j # fair_order fu (user_id j) (ys @ zs)"
  using assms by (subst fair_order.simps) simp

lemma mset_fair_order: "mset (fair_order fu l js) = mset js"
proof (induction fu l js rule: fair_order.induct)
  case (1 fu l js)
  show ?case
  proof (cases "js = []")
    case False
    obtain ys j zs where s: "split_first (\<lambda>j. user_id j = fair_user fu l (users_of js)) js = Some (ys, j, zs)"
      "js = ys @ j # zs" using fair_split [OF False] by metis
    show ?thesis using 1 [OF s(1) refl refl] unfolding fair_order_step [OF s(1)] by (simp add: s(2))
  qed simp
qed

lemma length_fair_order [simp]: "length (fair_order fu l js) = length js"
  using mset_fair_order [of fu l js] by (metis size_mset)

text \<open>The jobs not used yet, and the marks of the used ones.\<close>

definition unused :: "nat set \<Rightarrow> nat \<Rightarrow> nat list" where
  "unused U n = filter (\<lambda>i. i \<notin> U) [0..<n]"

definition marks :: "nat set \<Rightarrow> nat \<Rightarrow> int block" where
  "marks U n = map (\<lambda>i. Some (if i \<in> U then 1 else 0)) [0..<n]"

lemma rd_marks: "i < n \<Longrightarrow> rd (marks U n) (int i) = Some (if i \<in> U then 1 else 0)"
  by (simp add: marks_def)

lemma wr_marks: "i < n \<Longrightarrow> wr (marks U n) (int i) 1 = Some (marks (insert i U) n)"
  by (auto simp: marks_def wr_def list_eq_iff_nth_eq nth_list_update)

lemma marks_empty: "marks {} n = replicate n (Some 0)"
  by (simp add: marks_def map_replicate_const)

lemma collect_unused_marks:
  assumes "i + k = length js" and "holds b us" and "length us + k \<le> length b"
  shows "\<exists>b'. collect_unused k (int i) (map Some js) (marks U (length js)) b (int (length us)) =
      Some (b', int (length (fold (\<lambda>j. add_user (user_id j)) (map ((!) js) (filter (\<lambda>i. i \<notin> U) [i..<length js])) us))) \<and>
    holds b' (fold (\<lambda>j. add_user (user_id j)) (map ((!) js) (filter (\<lambda>i. i \<notin> U) [i..<length js])) us)"
  using assms
proof (induction k arbitrary: i b us)
  case 0
  then show ?case by simp
next
  case (Suc k)
  then have i: "i < length js" and i': "Suc i + k = length js" by auto
  have e: "[i..<length js] = i # [Suc i..<length js]" using i by (rule upt_conv_Cons)
  show ?case
  proof (cases "i \<in> U")
    case True
    then show ?thesis using Suc.IH [OF i' Suc.prems(2)] Suc.prems(3) i
      by (simp add: e rd_marks add.commute)
  next
    case False
    let ?us = "add_user (user_id (js ! i)) us"
    from add_user_block [of b us "user_id (js ! i)"] Suc.prems(2,3) obtain b1 where
      b1: "(do { e \<leftarrow> user_exists b (int (length us)) (user_id (js ! i));
        if \<not> e then do { b1 \<leftarrow> wr b (int (length us)) (user_id (js ! i)); Some (b1, int (length us) + 1) }
        else Some (b, int (length us)) }) = Some (b1, int (length ?us))"
      and h: "holds b1 ?us" "length b1 = length b" by auto
    have "collect_unused (Suc k) (int i) (map Some js) (marks U (length js)) b (int (length us)) =
        collect_unused k (int (Suc i)) (map Some js) (marks U (length js)) b1 (int (length ?us))"
      using b1 False i by (auto simp: rd_marks bind_eq_Some_conv add.commute split: if_splits)
    moreover have "length ?us + k \<le> length b1" using Suc.prems(3) h(2) by (auto simp: add_user_def)
    ultimately show ?thesis using Suc.IH [OF i' h(1)] False by (simp add: e)
  qed
qed

text \<open>Choosing among the unused positions is choosing in the list of remaining jobs.\<close>

lemma first_unused:
  assumes "split_first P (map ((!) js) (unused U n)) = Some (ys, j, zs)"
  obtains i where "i < n" and "i \<notin> U" and "js ! i = j"
    and "first_index (\<lambda>i. i \<notin> U \<and> P (js ! i)) 0 [0..<n] = int i"
    and "map ((!) js) (unused (insert i U) n) = ys @ zs"
proof -
  let ?Q = "\<lambda>i. i \<notin> U \<and> P (js ! i)"
  from split_first_SomeD [OF assms] have "P j" "j \<in> set (map ((!) js) (unused U n))" by auto
  then have "\<exists>i\<in>set [0..<n]. ?Q i" by (auto simp: unused_def)
  then obtain as i bs where s: "split_first ?Q [0..<n] = Some (as, i, bs)" "[0..<n] = as @ i # bs"
    "?Q i" "\<forall>k\<in>set as. \<not> ?Q k" by (rule split_first_exists)
  have "i < n" using s(2) by (metis atLeastLessThan_iff in_set_conv_decomp set_upt)
  have "[0..<n] ! length as = i" by (simp only: s(2) nth_append_length)
  moreover have "length as < n" using arg_cong [OF s(2), of length] by simp
  ultimately have las: "length as = i" by simp
  have dist: "distinct (as @ i # bs)" by (metis s(2) distinct_upt)
  have "unused U n = filter (\<lambda>i. i \<notin> U) as @ i # filter (\<lambda>i. i \<notin> U) bs"
    using s(2,3) by (simp add: unused_def)
  moreover have "\<forall>x\<in>set (map ((!) js) (filter (\<lambda>i. i \<notin> U) as)). \<not> P x" using s(4) by auto
  ultimately have "split_first P (map ((!) js) (unused U n)) =
      Some (map ((!) js) (filter (\<lambda>i. i \<notin> U) as), js ! i, map ((!) js) (filter (\<lambda>i. i \<notin> U) bs))"
    using s(3) split_first_mid [of _ P "js ! i"] by simp
  with assms have e: "ys = map ((!) js) (filter (\<lambda>i. i \<notin> U) as)" "j = js ! i"
    "zs = map ((!) js) (filter (\<lambda>i. i \<notin> U) bs)" by auto
  have "filter (\<lambda>k. k \<notin> insert i U) as = filter (\<lambda>k. k \<notin> U) as"
    "filter (\<lambda>k. k \<notin> insert i U) bs = filter (\<lambda>k. k \<notin> U) bs"
    using dist by (auto intro!: filter_cong)
  then have "map ((!) js) (unused (insert i U) n) = ys @ zs"
    using s(2) e by (simp add: unused_def)
  then show thesis
    using s las e \<open>i < n\<close> by (intro that [of i]) (simp_all add: first_index_def)
qed


text \<open>One round of the loop, when the block for the users is there: the user whose turn it is.\<close>

lemma copy_fair_round:
  assumes lt: "copied < int mx" "copied < int (length js)" and mem: "malloc_ok w (tick w)"
    and fu: "array_rep f fu" "3 * int (length fu) < 2 ^ 31" and rem: "rem = map ((!) js) (unused U (length js))"
  shows "copy_fair_loop copied (int mx) (int (length js)) f (int (length fu)) (map Some js) (marks U (length js)) arr l w =
    (let target_user = fair_user fu l (users_of rem); w2 = w\<lparr>tick := Suc (tick w)\<rparr> in
     if target_user = - 1 then Some (copied, arr, w2)
     else do {
       target_idx \<leftarrow> for_find (\<lambda>i. do {
           f \<leftarrow> rd (marks U (length js)) i;
           if f \<noteq> 0 then Some False
           else do { j \<leftarrow> rd (map Some js) i; Some (user_id j = target_user) } }) 0 (length js);
       if target_idx = - 1 then Some (copied, arr, w2)
       else do {
         j \<leftarrow> rd (map Some js) target_idx;
         arr1 \<leftarrow> wr arr copied j;
         used1 \<leftarrow> wr (marks U (length js)) target_idx 1;
         copy_fair_loop (copied + 1) (int mx) (int (length js)) f (int (length fu)) (map Some js) used1 arr1 target_user w2 } })"
proof -
  let ?n = "length js"
  have mb: "malloc_block w = (True, w\<lparr>tick := Suc (tick w), blocks := Suc (blocks w)\<rparr>)"
    "free_block (w\<lparr>tick := Suc (tick w), blocks := Suc (blocks w)\<rparr>) = Some (w\<lparr>tick := Suc (tick w)\<rparr>)"
    using mem by (simp_all add: malloc_block_def malloc_try_def free_block_def)
  from collect_unused_marks [of 0 ?n js "uninit (int ?n)" "[]" U] obtain b where
    b: "collect_unused ?n 0 (map Some js) (marks U ?n) (uninit (int ?n)) 0 = Some (b, int (length (users_of rem)))" "holds b (users_of rem)"
    by (auto simp: users_of_def rem unused_def)
  show ?thesis using lt mb b(1) choose_next_fair_user_ok [OF b(2) fu, of l] by (subst copy_fair_loop.simps) (simp add: Let_def)
qed

text \<open>The search finds the first job of that user among those not copied yet.\<close>

lemma find_unused:
  assumes "i < length js" and "first_index (\<lambda>i. i \<notin> U \<and> user_id (js ! i) = t) 0 [0..<length js] = int i"
  shows "for_find (\<lambda>i. do {
      f \<leftarrow> rd (marks U (length js)) i;
      if f \<noteq> 0 then Some False
      else do { j \<leftarrow> rd (map Some js) i; Some (user_id j = t) } }) 0 (length js) = Some (int i)"
proof -
  have "for_find (\<lambda>i. do {
      f \<leftarrow> rd (marks U (length js)) i;
      if f \<noteq> 0 then Some False
      else do { j \<leftarrow> rd (map Some js) i; Some (user_id j = t) } }) 0 (length [0..<length js]) =
    Some (first_index (\<lambda>i. i \<notin> U \<and> user_id (js ! i) = t) 0 [0..<length js])"
    by (intro for_find_list) (auto simp: rd_marks)
  then show ?thesis using assms(2) by simp
qed

lemma copy_fair_step:
  assumes arr: "holds arr out" "length out < length arr" and lt: "length out < mx" "length out < length js"
    and mem: "malloc_ok w (tick w)" and fu: "array_rep f fu" "3 * int (length fu) < 2 ^ 31"
    and rem: "rem = map ((!) js) (unused U (length js))" and t: "t = fair_user fu l (users_of rem)" "t \<noteq> - 1"
    and sp: "split_first (\<lambda>j. user_id j = t) rem = Some (ys, j, zs)"
  obtains i arr1 where "copy_fair_loop (int (length out)) (int mx) (int (length js)) f (int (length fu)) (map Some js) (marks U (length js)) arr l w =
      copy_fair_loop (int (length (out @ [j]))) (int mx) (int (length js)) f (int (length fu)) (map Some js)
        (marks (insert i U) (length js)) arr1 t (w\<lparr>tick := Suc (tick w)\<rparr>)"
    and "holds arr1 (out @ [j])" and "length arr1 = length arr" and "map ((!) js) (unused (insert i U) (length js)) = ys @ zs"
proof -
  obtain i where i: "i < length js" "i \<notin> U" "js ! i = j" "first_index (\<lambda>i. i \<notin> U \<and> user_id (js ! i) = t) 0 [0..<length js] = int i"
    "map ((!) js) (unused (insert i U) (length js)) = ys @ zs"
    by (rule first_unused [OF sp [unfolded rem]])
  have wr: "wr arr (int (length out)) j = Some (arr[length out := Some j])" "holds (arr[length out := Some j]) (out @ [j])"
    using holds_write [OF arr] by simp_all
  have lt': "int (length out) < int mx" "int (length out) < int (length js)" using lt by simp_all
  show thesis
    by (rule that [of i "arr[length out := Some j]"])
      (use copy_fair_round [OF lt' mem fu rem, of arr l, folded t(1)] t(2) find_unused [OF i(1,4)] i wr in \<open>simp_all add: Let_def wr_marks add.commute\<close>)
qed

lemma copy_fair_loop_ok:
  assumes arr: "holds arr out" and len: "length out + length rem = length js" and rem: "rem = map ((!) js) (unused U (length js))"
    and mx: "mx \<le> length arr" "length out \<le> mx"
    and fu: "array_rep f fu" "3 * int (length fu) < 2 ^ 31"
  shows "\<exists>k arr' t. copy_fair_loop (int (length out)) (int mx) (int (length js)) f (int (length fu))
        (map Some js) (marks U (length js)) arr l w =
      Some (int (length (out @ take k (fair_order fu l rem))), arr', w\<lparr>tick := t\<rparr>) \<and> tick w \<le> t \<and>
    holds arr' (out @ take k (fair_order fu l rem)) \<and> length arr' = length arr \<and> k \<le> mx - length out \<and>
    ((\<forall>t. malloc_ok w t) \<and> - 1 \<notin> user_id ` set rem \<longrightarrow> k = mx - length out)"
  using arr len rem mx
proof (induction rem arbitrary: out arr l w U rule: measure_induct_rule [of length])
  case (less rem)
  let ?loop = "\<lambda>out. copy_fair_loop (int (length out)) (int mx) (int (length js)) f (int (length fu)) (map Some js)"
  let ?w2 = "w\<lparr>tick := Suc (tick w)\<rparr>" and ?t = "fair_user fu l (users_of rem)"
  show ?case
  proof (cases "length out < mx \<and> rem \<noteq> []")
    case False
    then have "\<not> (int (length out) < int mx \<and> int (length out) < int (length js))" using less.prems(2) by auto
    then have "?loop out (marks U (length js)) arr l w = Some (int (length out), arr, w)"
      by (subst copy_fair_loop.simps) (simp only: if_False)
    moreover have tk: "take (mx - length out) (fair_order fu l rem) = []" using False by auto
    ultimately show ?thesis using less.prems(1,4,5)
      by (rule_tac exI [of _ "mx - length out"], rule_tac exI [of _ arr], rule_tac exI [of _ "tick w"])
        (simp add: tk del: length_take take_eq_Nil)
  next
    case True
    then have lt: "length out < mx" "length out < length js" and lti: "int (length out) < int mx" "int (length out) < int (length js)"
      using less.prems(2) by (auto simp flip: length_greater_0_conv)
    show ?thesis
    proof (cases "malloc_ok w (tick w) \<and> ?t \<noteq> - 1")
      case False
      have "?loop out (marks U (length js)) arr l w = Some (int (length out), arr, ?w2)"
      proof (cases "malloc_ok w (tick w)")
        case True
        then show ?thesis using False copy_fair_round [OF lti True fu less.prems(3)] by simp
      next
        case False
        then show ?thesis using lti by (subst copy_fair_loop.simps) (simp add: malloc_block_def malloc_try_def)
      qed
      moreover have "?t \<in> set (users_of rem)" using True by (intro fair_user_in) simp
      then have "\<not> malloc_ok w (tick w) \<or> - 1 \<in> user_id ` set rem" using False by auto
      ultimately show ?thesis using less.prems
        by (rule_tac exI [of _ 0], rule_tac exI [of _ arr], rule_tac exI [of _ "Suc (tick w)"]) auto
    next
      case go: True
      obtain ys j zs where sp: "split_first (\<lambda>j. user_id j = ?t) rem = Some (ys, j, zs)"
        and rem: "rem = ys @ j # zs" and uj: "user_id j = ?t" using True by (blast elim: fair_split [of rem fu l])
      have la: "length out < length arr" using lt(1) less.prems(4) by simp
      obtain i arr1 where st: "?loop out (marks U (length js)) arr l w = ?loop (out @ [j]) (marks (insert i U) (length js)) arr1 ?t ?w2"
        "holds arr1 (out @ [j])" "length arr1 = length arr" "map ((!) js) (unused (insert i U) (length js)) = ys @ zs"
        by (rule copy_fair_step [OF less.prems(1) la lt conjunct1 [OF go] fu less.prems(3) refl conjunct2 [OF go] sp])
      have "\<exists>k arr' t. ?loop (out @ [j]) (marks (insert i U) (length js)) arr1 ?t ?w2 =
          Some (int (length ((out @ [j]) @ take k (fair_order fu ?t (ys @ zs)))), arr', ?w2\<lparr>tick := t\<rparr>) \<and> tick ?w2 \<le> t \<and>
        holds arr' ((out @ [j]) @ take k (fair_order fu ?t (ys @ zs))) \<and> length arr' = length arr1 \<and> k \<le> mx - length (out @ [j]) \<and>
        ((\<forall>t. malloc_ok ?w2 t) \<and> - 1 \<notin> user_id ` set (ys @ zs) \<longrightarrow> k = mx - length (out @ [j]))"
        using less.prems(2,4) lt st(2-4) rem by (intro less.IH) auto
      then obtain k arr' t where k: "?loop (out @ [j]) (marks (insert i U) (length js)) arr1 ?t ?w2 =
          Some (int (length ((out @ [j]) @ take k (fair_order fu ?t (ys @ zs)))), arr', ?w2\<lparr>tick := t\<rparr>)" "tick ?w2 \<le> t"
        "holds arr' ((out @ [j]) @ take k (fair_order fu ?t (ys @ zs)))" "length arr' = length arr1" "k \<le> mx - length (out @ [j])"
        "(\<forall>t. malloc_ok ?w2 t) \<and> - 1 \<notin> user_id ` set (ys @ zs) \<longrightarrow> k = mx - length (out @ [j])" by blast
      have o: "out @ take (Suc k) (fair_order fu l rem) = (out @ [j]) @ take k (fair_order fu ?t (ys @ zs))"
        by (simp add: fair_order_step [OF sp] uj)
      have sub: "user_id ` set (ys @ zs) \<subseteq> user_id ` set rem" using rem by auto
      show ?thesis
        by (rule exI [of _ "Suc k"], rule exI [of _ arr'], rule exI [of _ t], unfold o st(1))
          (use k lt st(3) sub in \<open>auto simp del: set_append\<close>)
    qed
  qed
qed


text \<open>
  The copy for a status request: the jobs in the order fair removal would serve them when the three
  temporary arrays can be allocated and no user is -1, a prefix of it when an allocation in the loop
  fails, and the order of arrival when one of the first two allocations fails. In every case the
  temporary arrays are freed and the queue is as before.
\<close>

lemma blocks_restored: "w\<lparr>tick := t, blocks := blocks w\<rparr> = (w :: world)\<lparr>tick := t\<rparr>"
  by simp

lemma queue_copy_fair_to_array_ok:
  assumes st: "store w m" and a: "m a = Some js" and mx: "mx \<le> length b" and ne: "js \<noteq> []" "0 < mx"
    and fu: "array_rep f fu" "3 * int (length fu) < 2 ^ 31"
  shows "\<exists>out b' t. queue_copy_fair_to_array (At a) (Some b) (int mx) l f (int (length fu)) w =
      Some (int (length out), Some b', w\<lparr>tick := t\<rparr>) \<and> tick w \<le> t \<and> holds b' out \<and> length b' = length b \<and>
    ((\<exists>k\<le>mx. out = take k (fair_order fu l js)) \<or> out = take mx js) \<and>
    ((\<forall>t. malloc_ok w t) \<and> - 1 \<notin> user_id ` set js \<longrightarrow> out = take mx (fair_order fu l js))"
proof -
  let ?t1 = "Suc (tick w)" and ?t2 = "Suc (Suc (tick w))"
  let ?w2 = "w\<lparr>tick := ?t2, blocks := Suc (Suc (blocks w))\<rparr>"
  from st a obtain c xs where c: "queues w a = Some c" "queue_rep (nodes w) c xs" "js = map snd xs"
    by (rule store_queue)
  have sz: "q_size c = int (length js)" using queue_repD(2) [OF c(2)] c(3) by simp
  have pre: "get_queue (At a) w = Some c" "\<not> q_size c \<le> 0" "\<not> int mx \<le> 0"
    using c(1) sz ne by (simp_all add: get_queue_def)
  show ?thesis
  proof (cases "malloc_ok w (tick w) \<and> malloc_ok w ?t1")
    case True
    have st2: "store ?w2 m" using st by simp
    from queue_copy_to_array_ok [OF st2 a, of "length js" "uninit (q_size c)"] sz obtain jb where
      "queue_copy_to_array (At a) (Some (uninit (q_size c))) (q_size c) ?w2 = Some (int (length js), Some jb)"
      "holds jb js" "length jb = length js" by auto
    then have jobs: "queue_copy_to_array (At a) (Some (uninit (q_size c))) (q_size c) ?w2 =
        Some (int (length js), Some (map Some js))" using holds_full by metis
    have "map ((!) js) (unused {} (length js)) = js" by (simp add: unused_def map_nth)
    with copy_fair_loop_ok [where out = "[]" and arr = b and rem = js and U = "{}" and js = js and w = ?w2,
        OF _ _ _ mx _ fu, of l]
    obtain k arr' t where k: "copy_fair_loop 0 (int mx) (int (length js)) f (int (length fu))
        (map Some js) (marks {} (length js)) b l ?w2 =
      Some (int (length (take k (fair_order fu l js))), arr', ?w2\<lparr>tick := t\<rparr>)" "?t2 \<le> t"
      "holds arr' (take k (fair_order fu l js))" "length arr' = length b" "k \<le> mx"
      "(\<forall>t. malloc_ok w t) \<and> - 1 \<notin> user_id ` set js \<longrightarrow> k = mx"
      by (simp del: length_take) metis
    have "queue_copy_fair_to_array (At a) (Some b) (int mx) l f (int (length fu)) w =
        Some (int (length (take k (fair_order fu l js))), Some arr', w\<lparr>tick := t\<rparr>)"
      using pre True jobs k(1)
      by (simp add: queue_copy_fair_to_array_def malloc_block_def malloc_try_def sz marks_empty
          free_block_def del: length_take)
    moreover have "tick w \<le> t" using k(2) by simp
    ultimately show ?thesis using k(3-6)
      by (rule_tac exI [of _ "take k (fair_order fu l js)"], rule_tac exI [of _ arr'], rule_tac exI [of _ t]) auto
  next
    case False
    from queue_copy_to_array_ok [where m = m and a = a and w = "w\<lparr>tick := ?t2\<rparr>", OF _ a mx] st obtain b' where
      b': "queue_copy_to_array (At a) (Some b) (int mx) (w\<lparr>tick := ?t2\<rparr>) = Some (int (length (take mx js)), Some b')"
      "holds b' (take mx js)" "length b' = length b" by auto
    have "queue_copy_fair_to_array (At a) (Some b) (int mx) l f (int (length fu)) w =
        Some (int (length (take mx js)), Some b', w\<lparr>tick := ?t2\<rparr>)"
      using pre False b'(1)
      by (auto simp: queue_copy_fair_to_array_def malloc_block_def malloc_try_def free_block_def)
    with b'(2,3) False show ?thesis
      by (rule_tac exI [of _ "take mx js"], rule_tac exI [of _ b'], rule_tac exI [of _ ?t2]) auto
  qed
qed

text \<open>With users of identifier -1 the loop takes -1 for "no user" and stops.\<close>

lemma queue_copy_fair_to_array_minus1:
  assumes st: "store w m" and a: "m a = Some js" and ne: "js \<noteq> []" "0 < mx"
    and fu: "array_rep f fu" "3 * int (length fu) < 2 ^ 31"
    and mem: "\<And>t. malloc_ok w t" and neg: "fair_user fu l (users_of js) = - 1"
  shows "\<exists>t. queue_copy_fair_to_array (At a) (Some b) (int mx) l f (int (length fu)) w =
    Some (0, Some b, w\<lparr>tick := t\<rparr>)"
proof -
  let ?t2 = "Suc (Suc (tick w))" and ?n = "length js"
  let ?w2 = "w\<lparr>tick := ?t2, blocks := Suc (Suc (blocks w))\<rparr>"
  from st a obtain c xs where c: "queues w a = Some c" "queue_rep (nodes w) c xs" "js = map snd xs"
    by (rule store_queue)
  have sz: "q_size c = int ?n" using queue_repD(2) [OF c(2)] c(3) by simp
  have st2: "store ?w2 m" using st by simp
  from queue_copy_to_array_ok [OF st2 a, of "length js" "uninit (q_size c)"] sz obtain jb where
    "queue_copy_to_array (At a) (Some (uninit (q_size c))) (q_size c) ?w2 = Some (int (length js), Some jb)"
    "holds jb js" "length jb = length js" by auto
  then have jobs: "queue_copy_to_array (At a) (Some (uninit (q_size c))) (q_size c) ?w2 =
      Some (int ?n, Some (map Some js))" using holds_full by metis
  have "map ((!) js) (filter (\<lambda>i. i \<notin> {}) [0..<?n]) = js" by (simp add: map_nth)
  with collect_unused_marks [of 0 ?n js "uninit (int ?n)" "[]" "{}"] obtain ub where
    ub: "collect_unused ?n 0 (map Some js) (marks {} ?n) (uninit (int ?n)) 0 = Some (ub, int (length (users_of js)))"
      "holds ub (users_of js)" by (auto simp: users_of_def)
  have "copy_fair_loop 0 (int mx) (int ?n) f (int (length fu)) (map Some js) (marks {} ?n) b l ?w2 =
      Some (0, b, ?w2\<lparr>tick := Suc ?t2\<rparr>)"
    using ne mem ub(1) choose_next_fair_user_ok [OF ub(2) fu, of l] neg
    by (subst copy_fair_loop.simps) (simp add: malloc_block_def malloc_try_def free_block_def)
  then have "queue_copy_fair_to_array (At a) (Some b) (int mx) l f (int (length fu)) w =
      Some (0, Some b, w\<lparr>tick := Suc ?t2\<rparr>)"
    using c(1) ne mem jobs
    by (simp add: queue_copy_fair_to_array_def get_queue_def malloc_block_def malloc_try_def sz marks_empty
        free_block_def)
  then show ?thesis by blast
qed

text \<open>Calling \<open>queue_dequeue_fair\<close> \<open>n\<close> times, as the controller does when \<open>n\<close> slots become free.\<close>

fun dequeue_fair_n ::
  "nat \<Rightarrow> ptr \<Rightarrow> int block option \<Rightarrow> int \<Rightarrow> int \<Rightarrow> world \<Rightarrow> (job_info list \<times> world) option" where
  "dequeue_fair_n 0 q f k l w = Some ([], w)"
| "dequeue_fair_n (Suc n) q f k l w = do {
     (r, l', v, w1) \<leftarrow> queue_dequeue_fair q f k (Var (Some l)) (Var None) w;
     if \<not> r then Some ([], w1)
     else do {
       j \<leftarrow> deref v;
       l1 \<leftarrow> deref l';
       (js, w2) \<leftarrow> dequeue_fair_n n q f k l1 w1;
       Some (j # js, w2) } }"

lemma dequeue_fair_n_ok:
  assumes "store w m" and "m a = Some js" and "\<And>t. malloc_ok w t"
    and "array_rep f fu" and "3 * int (length fu) < 2 ^ 31" and "n \<le> length js"
  shows "\<exists>w' js'. dequeue_fair_n n (At a) f (int (length fu)) l w = Some (take n (fair_order fu l js), w') \<and>
    store w' (m(a \<mapsto> js')) \<and> mset js = mset (take n (fair_order fu l js)) + mset js' \<and> env_eq w w'"
  using assms
proof (induction n arbitrary: l w m js)
  case 0
  have "m(a \<mapsto> js) = m" using "0.prems"(2) by (rule map_upd_triv)
  with "0.prems"(1) show ?case by (intro exI [of _ w] exI [of _ js]) (simp only: dequeue_fair_n.simps take_0 env_eq_refl simp_thms mset.simps add_0)
next
  case (Suc n)
  have ne: "js \<noteq> []" using Suc.prems(6) by auto
  obtain ys j zs where sp: "split_first (\<lambda>j. user_id j = fair_user fu l (users_of js)) js = Some (ys, j, zs)"
    and js: "js = ys @ j # zs" using fair_split [OF ne] by metis
  from queue_dequeue_fair_ok [OF Suc.prems(1,2,3) _ Suc.prems(4,5) sp, of "Var None"] obtain w1 where
    w1: "queue_dequeue_fair (At a) f (int (length fu)) (Var (Some l)) (Var None) w =
      Some (True, Var (Some (user_id j)), Var (Some j), w1)"
    "store w1 (m(a \<mapsto> ys @ zs))" "env_eq w w1" by auto
  have mem: "\<And>t. malloc_ok w1 t" using w1(3) Suc.prems(3) by (simp add: env_eq_def)
  have len: "n \<le> length (ys @ zs)" using Suc.prems(6) js by simp
  from Suc.IH [OF w1(2) fun_upd_same mem Suc.prems(4,5) len, of "user_id j"] obtain w' js' where
    w': "dequeue_fair_n n (At a) f (int (length fu)) (user_id j) w1 =
        Some (take n (fair_order fu (user_id j) (ys @ zs)), w')"
      "store w' (m(a \<mapsto> ys @ zs, a \<mapsto> js'))"
      "mset (ys @ zs) = mset (take n (fair_order fu (user_id j) (ys @ zs))) + mset js'" "env_eq w1 w'"
    by blast
  have o: "take (Suc n) (fair_order fu l js) = j # take n (fair_order fu (user_id j) (ys @ zs))"
    by (simp add: fair_order_step [OF sp])
  show ?case
  proof (intro exI conjI)
    show "dequeue_fair_n (Suc n) (At a) f (int (length fu)) l w = Some (take (Suc n) (fair_order fu l js), w')"
      using w1(1) w'(1) by (simp add: o)
    show "store w' (m(a \<mapsto> js'))" using w'(2) by (simp only: fun_upd_upd)
    show "mset js = mset (take (Suc n) (fair_order fu l js)) + mset js'"
      unfolding o using w'(3) by (simp add: js)
    show "env_eq w w'" by (rule env_eq_trans [OF w1(3) w'(4)])
  qed
qed

subsection \<open>Bounded waiting\<close>

lemma after_user_mid:
  assumes "distinct (ys @ v # zs)"
  shows "after_user v (ys @ v # zs) = zs @ ys @ [v]"
proof -
  have "split_first (\<lambda>u. u = v) (ys @ v # zs) = Some (ys, v, zs)"
    using assms by (intro split_first_mid) auto
  then show ?thesis by (simp add: after_user_def)
qed

lemma after_user_swap:
  assumes "distinct (xs @ ys)" and "v \<in> set (xs @ ys)"
  shows "after_user v (ys @ xs) = after_user v (xs @ ys)"
proof -
  have half: "after_user v (ys @ xs) = after_user v (xs @ ys)"
    if v: "v \<in> set xs" and d: "distinct (xs @ ys)" for xs ys :: "int list"
  proof -
    from v obtain p q where xs: "xs = p @ v # q" by (meson split_list)
    have "after_user v ((ys @ p) @ v # q) = q @ (ys @ p) @ [v]"
      by (rule after_user_mid) (use d xs in auto)
    moreover have "after_user v (p @ v # (q @ ys)) = (q @ ys) @ p @ [v]"
      by (rule after_user_mid) (use d xs in auto)
    ultimately show ?thesis by (simp add: xs)
  qed
  show ?thesis
  proof (cases "v \<in> set xs")
    case False
    then have "v \<in> set ys" using assms(2) by simp
    from half [OF this, of xs] assms(1) show ?thesis by (simp add: Int_commute)
  qed (use half assms(1) in blast)
qed

lemma after_user_after:
  assumes "distinct fu" and "v \<in> set fu"
  shows "after_user v (after_user l fu) = after_user v fu"
proof (cases "split_first (\<lambda>u. u = l) fu")
  case None
  then show ?thesis by (simp add: after_user_def)
next
  case (Some r)
  obtain ys y zs where r: "r = (ys, y, zs)" by (cases r)
  have fu: "fu = (ys @ [y]) @ zs" using split_first_SomeD [OF Some [unfolded r]] by simp
  have "after_user l fu = zs @ (ys @ [y])" by (simp add: after_user_def Some r)
  with after_user_swap [of "ys @ [y]" zs v] assms fu show ?thesis by simp
qed

lemma distinct_after_user [simp]: "distinct fu \<Longrightarrow> distinct (after_user l fu)"
  by (auto simp: after_user_def dest!: split_first_SomeD split: option.splits)

text \<open>
  Every user with a job is served within one round: before the first job of user \<open>u\<close> come only jobs
  of users that stand before \<open>u\<close> in the circular order, each at most once.
\<close>

lemma fair_order_wait:
  assumes "distinct fu" and "u \<in> set fu" and "u \<in> user_id ` set js"
  shows "\<exists>i<length js. user_id (fair_order fu l js ! i) = u \<and>
    subseq (map user_id (take i (fair_order fu l js))) (takeWhile (\<lambda>v. v \<noteq> u) (after_user l fu))"
  using assms(3)
proof (induction js arbitrary: l rule: measure_induct_rule [of length])
  case (less js)
  let ?R = "after_user l fu" and ?us = "users_of js"
  let ?P = "\<lambda>v. v \<in> set ?us"
  have ne: "js \<noteq> []" and usne: "?us \<noteq> []" using less.prems by auto
  obtain ys j zs where sp: "split_first (\<lambda>j. user_id j = fair_user fu l ?us) js = Some (ys, j, zs)"
    and js: "js = ys @ j # zs" and uj: "user_id j = fair_user fu l ?us"
    by (rule fair_split [OF ne])
  note order = fair_order_step [OF sp]
  have "\<exists>v\<in>set ?R. ?P v" using less.prems assms(2) by auto
  then obtain p v q where v: "split_first ?P ?R = Some (p, v, q)" "?R = p @ v # q" "\<forall>x\<in>set p. \<not> ?P x"
    by (rule split_first_exists) blast
  have fv: "user_id j = v" using v(1) usne assms(2) by (auto simp: uj fair_user_def)
  show ?case
  proof (cases "v = u")
    case True
    then show ?thesis using order fv ne by (intro exI [of _ 0]) auto
  next
    case False
    have up: "u \<notin> set p" using v(3) less.prems by auto
    have "u \<in> set ?R" using assms(2) by simp
    with up False have uq: "u \<in> set q" by (simp add: v(2))
    have dR: "distinct (p @ v # q)" using assms(1) v(2) by (metis distinct_after_user)
    have "v \<in> set ?R" by (simp add: v(2))
    then have "v \<in> set fu" by simp
    then have "after_user v fu = after_user v (p @ v # q)"
      using after_user_after [OF assms(1), of v l] by (simp add: v(2))
    also have "\<dots> = q @ p @ [v]" by (rule after_user_mid [OF dR])
    finally have tw: "takeWhile (\<lambda>x. x \<noteq> u) (after_user v fu) = takeWhile (\<lambda>x. x \<noteq> u) q"
      using uq by (simp add: takeWhile_append1)
    have "u \<in> user_id ` set (ys @ zs)" using less.prems False js fv by auto
    moreover have "length (ys @ zs) < length js" by (simp add: js)
    ultimately obtain i where i: "i < length (ys @ zs)" "user_id (fair_order fu v (ys @ zs) ! i) = u"
      "subseq (map user_id (take i (fair_order fu v (ys @ zs)))) (takeWhile (\<lambda>x. x \<noteq> u) q)"
      using less.IH [of "ys @ zs" v] tw by auto
    have "takeWhile (\<lambda>x. x \<noteq> u) ?R = p @ v # takeWhile (\<lambda>x. x \<noteq> u) q"
      using up False by (auto simp: v(2) takeWhile_append)
    moreover have "subseq (v # map user_id (take i (fair_order fu v (ys @ zs)))) (p @ v # takeWhile (\<lambda>x. x \<noteq> u) q)"
      using i(3) by (intro list_emb_append2) simp
    ultimately show ?thesis using i order fv js by (intro exI [of _ "Suc i"]) simp
  qed
qed

end
