(* ===== verification/Ipc.thy ===== *)
theory Ipc
  imports C_Runtime
begin

text \<open>
  \<^verbatim>\<open>src/common/ipc.c\<close>: named pipes over the system calls. \<open>mkfifo\<close> and \<open>unlink\<close> are system calls of
  the model like \<open>open\<close>, \<open>write\<close> and \<open>close\<close>; the outcome of \<open>mkfifo\<close> distinguishes an existing path
  (\<open>EEXIST\<close>) from the other errors. A \<open>read\<close> of a message returns the number of bytes read and, when
  it is the size of a message, the message.
\<close>

datatype mkfifo_result = Fifo_created | Fifo_exists | Fifo_error

text \<open>
  A negative outcome of \<open>mkfifo\<close> is a failure with the negated value of \<open>errno\<close>, as the kernel returns
  it: -17 is \<open>EEXIST\<close>.
\<close>

definition sys_mkfifo :: "string \<Rightarrow> 'a os_scheme \<Rightarrow> mkfifo_result \<times> 'a os_scheme" where
  "sys_mkfifo path w =
     (let r = sys_out w (tick w); w1 = w\<lparr>tick := Suc (tick w)\<rparr>
      in if 0 \<le> r then (Fifo_created, emit (Made_fifo path) w1)
         else if r = - 17 then (Fifo_exists, w1)
         else (Fifo_error, w1))"

definition sys_unlink :: "string \<Rightarrow> 'a os_scheme \<Rightarrow> int \<times> 'a os_scheme" where
  "sys_unlink path w =
     (let (r, w1) = sys_call w
      in if r = - 1 then (- 1, w1) else (0, emit (Unlinked path) w1))"

definition ipc_create_fifo :: "string \<Rightarrow> 'a os_scheme \<Rightarrow> int \<times> 'a os_scheme" where
  "ipc_create_fifo fifo_path w =
     (let (r, w1) = sys_mkfifo fifo_path w
      in case r of
           Fifo_created \<Rightarrow> (0, w1)
         | Fifo_exists \<Rightarrow> (0, w1)
         | Fifo_error \<Rightarrow> (- 1, w1))"

definition ipc_destroy_fifo :: "string \<Rightarrow> 'a os_scheme \<Rightarrow> int \<times> 'a os_scheme" where
  "ipc_destroy_fifo fifo_path w = sys_unlink fifo_path w"

definition ipc_send_atomic :: "string \<Rightarrow> RpcMessage \<Rightarrow> 'a os_scheme \<Rightarrow> int \<times> 'a os_scheme" where
  "ipc_send_atomic fifo_path msg w =
     (let (d, w1) = sys_open fifo_path w
      in if fd_num d = - 1 then (- 1, w1)
         else
           let (written, w2) = sys_write_msg d msg w1;
               (c, w3) = sys_close d w2
           in if c = - 1 \<and> written \<noteq> - 1 then (- 1, w3) else (written, w3))"

text \<open>
  The results of \<open>read\<close> on one open descriptor, in order: the number of bytes read and, when they are
  a whole message, the message. At the end of the list every writer has closed the pipe: end of file.
\<close>

type_synonym read_result = "int \<times> RpcMessage"

definition ipc_read_blocking :: "read_result list \<Rightarrow> read_result \<times> read_result list" where
  "ipc_read_blocking inp = (case inp of [] \<Rightarrow> ((0, zero_msg), []) | r # rs \<Rightarrow> (r, rs))"

subsection \<open>Frame: what sending leaves alone\<close>

text \<open>
  A message is written at most once, to the path given; no descriptor stays open; nothing but the
  clock and the record of effects changes.
\<close>

lemma sys_open_eq:
  "sys_open p w = (if sys_out w (tick w) < 0 then (Fd (- 1) p, w\<lparr>tick := Suc (tick w)\<rparr>)
     else (Fd (sys_out w (tick w)) p, w\<lparr>tick := Suc (tick w), open_fds := Suc (open_fds w)\<rparr>))"
  by (simp add: sys_open_def sys_call_def Let_def)

lemma sys_close_eq:
  "sys_close d w = (if sys_out w (tick w) < 0 then - 1 else 0,
     w\<lparr>tick := Suc (tick w), open_fds := open_fds w - 1\<rparr>)"
  by (simp add: sys_close_def sys_call_def Let_def)

lemma sys_write_msg_eq:
  "sys_write_msg d m w = (if sys_out w (tick w) < 0 then (- 1, w\<lparr>tick := Suc (tick w)\<rparr>)
     else (min (sys_out w (tick w)) (int sizeof_RpcMessage),
       w\<lparr>tick := Suc (tick w), events := events w @ [Wrote_msg (fd_path d) m (min (sys_out w (tick w)) (int sizeof_RpcMessage))]\<rparr>))"
  by (simp add: sys_write_msg_def sys_call_def Let_def emit_def)

lemma sys_write_text_eq:
  "sys_write_text d s w = (if sys_out w (tick w) < 0 then (- 1, w\<lparr>tick := Suc (tick w)\<rparr>)
     else (min (sys_out w (tick w)) (int (length s)),
       w\<lparr>tick := Suc (tick w), events := events w @ [Wrote_text (fd_path d) s (min (sys_out w (tick w)) (int (length s)))]\<rparr>))"
  by (simp add: sys_write_text_def sys_call_def Let_def emit_def)

lemmas sys_eqs = sys_open_eq sys_close_eq sys_write_msg_eq sys_write_text_eq

lemma ipc_send_atomic_frame:
  obtains r es t where "ipc_send_atomic p m w = (r, w\<lparr>tick := t, events := events w @ es\<rparr>)" and "tick w \<le> t"
    and "es = [] \<or> (\<exists>n. es = [Wrote_msg p m n])"
proof (cases "sys_out w (tick w) < 0")
  case True
  then have "ipc_send_atomic p m w = (- 1, w\<lparr>tick := Suc (tick w), events := events w @ []\<rparr>)"
    by (simp add: ipc_send_atomic_def sys_eqs)
  then show thesis by (rule that) auto
next
  case open_ok: False
  show thesis
  proof (cases "sys_out w (Suc (tick w)) < 0")
    case True
    with open_ok have "ipc_send_atomic p m w = (- 1, w\<lparr>tick := Suc (Suc (Suc (tick w))), events := events w @ []\<rparr>)"
      by (simp add: ipc_send_atomic_def sys_eqs)
    then show thesis by (rule that) auto
  next
    case False
    let ?n = "min (sys_out w (Suc (tick w))) (int sizeof_RpcMessage)"
    from False open_ok have "ipc_send_atomic p m w =
        (if sys_out w (Suc (Suc (tick w))) < 0 then - 1 else ?n,
         w\<lparr>tick := Suc (Suc (Suc (tick w))), events := events w @ [Wrote_msg p m ?n]\<rparr>)"
      by (simp add: ipc_send_atomic_def sys_eqs)
    then show thesis by (rule that) auto
  qed
qed

lemma ipc_send_atomic_full:
  assumes "\<And>t. int sizeof_RpcMessage \<le> sys_out w t"
  shows "ipc_send_atomic p m w = (int sizeof_RpcMessage,
    w\<lparr>tick := Suc (Suc (Suc (tick w))), events := events w @ [Wrote_msg p m (int sizeof_RpcMessage)]\<rparr>)"
proof -
  have "\<not> sys_out w t < 0" "min (sys_out w t) 504 = 504" "sys_out w t \<noteq> - 1" for t
    using assms [of t] by simp_all
  then show ?thesis by (simp add: ipc_send_atomic_def sys_eqs)
qed

end
