(* ===== verification/Controller.thy ===== *)
theory Controller
  imports Fair_Policy Ipc
begin

text \<open>
  \<^verbatim>\<open>src/controller/controller_handlers.c\<close>: the state of the controller process and its handlers, one
  definition per function of the file.
\<close>

subsection \<open>State\<close>

record controller_state =
  parallel_limit :: int
  running_count :: int
  keep_running :: bool
  is_shutting_down :: bool
  shutdown_requester_pid :: int
  last_scheduled_user :: int
  fair_users :: "int block option"
  fair_user_count :: int
  fair_user_capacity :: int
  waiting_queue :: ptr
  running_queue :: ptr
  policy :: string

definition c_long :: "int \<Rightarrow> int option" where
  "c_long n = (if - (2 ^ 63) \<le> n \<and> n < 2 ^ 63 then Some n else None)"

subsection \<open>Replies\<close>

definition send_ack_to_runner :: "job_info \<Rightarrow> world \<Rightarrow> world" where
  "send_ack_to_runner job w =
     (let resp_fifo = runner_fifo (runner_pid job);
          resp = zero_msg\<lparr>msg_type := ACK, sender_pid := self_pid w,
            msg_user_id := user_id job, msg_command_id := command_id job\<rparr>;
          (r, w1) = ipc_send_atomic resp_fifo resp w
      in if r = - 1 then emit (Err ''ipc_send_atomic'') w1 else w1)"

definition send_shutdown_ack_to_runner :: "RpcMessage \<Rightarrow> world \<Rightarrow> world" where
  "send_shutdown_ack_to_runner msg w =
     (let resp_fifo = runner_fifo (sender_pid msg);
          resp = zero_msg\<lparr>msg_type := SHUTDOWN_ACK, sender_pid := self_pid w,
            msg_user_id := msg_user_id msg, msg_command_id := msg_command_id msg\<rparr>;
          (r, w1) = ipc_send_atomic resp_fifo resp w
      in if r = - 1 then emit (Err ''ipc_send_atomic'') w1 else w1)"

subsection \<open>Users known to the fair policy\<close>

definition is_fair_policy :: "controller_state \<Rightarrow> bool" where
  "is_fair_policy st \<longleftrightarrow> policy st = ''fair''"

text \<open>\<open>realloc\<close> of an array: the old cells and new ones that have not been written.\<close>

definition realloc_block :: "'b block option \<Rightarrow> int \<Rightarrow> 'a os_scheme \<Rightarrow> 'b block option \<times> 'a os_scheme" where
  "realloc_block b n w =
     (let (ok, w1) = malloc_try w
      in if \<not> ok then (None, w1)
         else case b of
             None \<Rightarrow> (Some (uninit n), w1\<lparr>blocks := Suc (blocks w1)\<rparr>)
           | Some c \<Rightarrow> (Some (take (nat n) c @ uninit (n - int (length c))), w1))"

definition remember_fair_user ::
  "controller_state \<Rightarrow> int \<Rightarrow> world \<Rightarrow> (controller_state \<times> world) option" where
  "remember_fair_user st uid w = do {
     i \<leftarrow> for_find (\<lambda>i. do { fu \<leftarrow> fair_users st; u \<leftarrow> rd fu i; Some (u = uid) }) 0 (nat (fair_user_count st));
     if i \<noteq> - 1 then Some (st, w)
     else do {
       (grown, st1, w1) \<leftarrow>
         (if fair_user_count st = fair_user_capacity st then do {
            new_capacity \<leftarrow> (if fair_user_capacity st = 0 then Some 8 else c_int (fair_user_capacity st * 2));
            let (new_users, w1) = realloc_block (fair_users st) new_capacity w;
            if new_users = None then Some (False, st, emit (Err ''realloc'') w1)
            else Some (True, st\<lparr>fair_users := new_users, fair_user_capacity := new_capacity\<rparr>, w1) }
          else Some (True, st, w));
       if \<not> grown then Some (st1, w1)
       else do {
         fu \<leftarrow> fair_users st1;
         fu1 \<leftarrow> wr fu (fair_user_count st1) uid;
         n \<leftarrow> c_int (fair_user_count st1 + 1);
         Some (st1\<lparr>fair_users := Some fu1, fair_user_count := n\<rparr>, w1) } } }"

subsection \<open>Starting waiting jobs\<close>

definition dequeue_next ::
  "controller_state \<Rightarrow> world \<Rightarrow> (bool \<times> job_info var \<times> controller_state \<times> world) option" where
  "dequeue_next st w =
     (if policy st = ''random'' then do {
        (r, v, w1) \<leftarrow> queue_dequeue_random (waiting_queue st) (Var None) w;
        Some (r, v, st, w1) }
      else if is_fair_policy st then do {
        (r, l, v, w1) \<leftarrow> queue_dequeue_fair (waiting_queue st) (fair_users st) (fair_user_count st)
          (Var (Some (last_scheduled_user st))) (Var None) w;
        lu \<leftarrow> deref l;
        Some (r, v, st\<lparr>last_scheduled_user := lu\<rparr>, w1) }
      else do {
        (r, v, w1) \<leftarrow> queue_dequeue (waiting_queue st) (Var None) w;
        Some (r, v, st, w1) })"

partial_function (option) start_waiting_jobs ::
  "controller_state \<Rightarrow> world \<Rightarrow> (controller_state \<times> world) option" where
  [code]: "start_waiting_jobs st w =
     (if \<not> running_count st < parallel_limit st then Some (st, w)
      else do {
        e \<leftarrow> queue_is_empty (waiting_queue st) w;
        if e then Some (st, w)
        else do {
          (dequeued, v, st1, w1) \<leftarrow> dequeue_next st w;
          if \<not> dequeued then Some (st1, w1)
          else do {
            j \<leftarrow> deref v;
            let next_job = j\<lparr>job_state := JOB_RUNNING\<rparr>;
            (ok, w2) \<leftarrow> queue_enqueue (running_queue st1) (Var (Some next_job)) w1;
            if \<not> ok then start_waiting_jobs st1 (emit (Err ''failed to move job to running queue'') w2)
            else do {
              n \<leftarrow> c_int (running_count st1 + 1);
              start_waiting_jobs (st1\<lparr>running_count := n, last_scheduled_user := user_id next_job\<rparr>)
                (send_ack_to_runner next_job w2) } } } })"

subsection \<open>Submission\<close>

definition handle_submit ::
  "controller_state \<Rightarrow> RpcMessage \<Rightarrow> world \<Rightarrow> (controller_state \<times> world) option" where
  "handle_submit st msg w = do {
     let (now, w1) = gettimeofday w;
     let job = \<lparr>command_id = msg_command_id msg, user_id = msg_user_id msg, job_state = JOB_QUEUED,
       runner_pid = sender_pid msg, start_time = now\<rparr>;
     (st1, w2) \<leftarrow> remember_fair_user st (user_id job) w1;
     if running_count st1 < parallel_limit st1 then do {
       let job1 = job\<lparr>job_state := JOB_RUNNING\<rparr>;
       (ok, w3) \<leftarrow> queue_enqueue (running_queue st1) (Var (Some job1)) w2;
       if \<not> ok then Some (st1, emit (Err ''failed to enqueue running job'') w3)
       else do {
         n \<leftarrow> c_int (running_count st1 + 1);
         Some (st1\<lparr>running_count := n, last_scheduled_user := user_id job1\<rparr>, send_ack_to_runner job1 w3) } }
     else do {
       let job1 = job\<lparr>job_state := JOB_QUEUED\<rparr>;
       (ok, w3) \<leftarrow> queue_enqueue (waiting_queue st1) (Var (Some job1)) w2;
       if \<not> ok then Some (st1, emit (Err ''failed to enqueue waiting job'') w3)
       else Some (st1, w3) } }"

subsection \<open>Completion\<close>

text \<open>The subtractions, the product and the quotient are \<open>long\<close> arithmetic; the quotient truncates.\<close>

definition elapsed_ms :: "timeval \<Rightarrow> timeval \<Rightarrow> int option" where
  "elapsed_ms start end = do {
     s \<leftarrow> c_long (tv_sec end - tv_sec start);
     ms \<leftarrow> c_long (s * 1000);
     u \<leftarrow> c_long (tv_usec end - tv_usec start);
     c_long (ms + u sdiv 1000) }"

definition log_line :: "job_info \<Rightarrow> int \<Rightarrow> string" where
  "log_line j ms = ''user-id '' @ fmt_d (user_id j) @ '' - command-id '' @ fmt_d (command_id j) @
     '' - '' @ fmt_d ms @ '' ms'' @ [CHR 0x0A]"

definition log_finished_job :: "job_info \<Rightarrow> world \<Rightarrow> world option" where
  "log_finished_job finished_job w = do {
     let (end_time, w1) = gettimeofday w;
     ms \<leftarrow> elapsed_ms (start_time finished_job) end_time;
     let (fd_log, w2) = sys_open ''log.txt'' w1;
     if fd_num fd_log \<noteq> - 1 then do {
       let log_buf = fit_buffer 256 (log_line finished_job ms);
       let (_, w3) = sys_write_text fd_log log_buf w2;
       let (_, w4) = sys_close fd_log w3;
       Some w4 }
     else Some w2 }"

definition handle_done ::
  "controller_state \<Rightarrow> RpcMessage \<Rightarrow> world \<Rightarrow> (controller_state \<times> world) option" where
  "handle_done st msg w = do {
     (removed, v, w1) \<leftarrow> queue_remove_by_command_id (running_queue st) (msg_command_id msg) (Var None) w;
     (st1, w2) \<leftarrow>
       (if removed then do {
          finished_job \<leftarrow> deref v;
          w2 \<leftarrow> log_finished_job finished_job w1;
          if 0 < running_count st then do {
            n \<leftarrow> c_int (running_count st - 1);
            Some (st\<lparr>running_count := n\<rparr>, w2) }
          else Some (st, w2) }
        else Some (st, w1));
     start_waiting_jobs st1 w2 }"

subsection \<open>Status\<close>

definition write_status_message ::
  "fd \<Rightarrow> RpcMessage \<Rightarrow> string \<Rightarrow> world \<Rightarrow> int \<times> RpcMessage \<times> world" where
  "write_status_message fd_resp status_resp text w =
     (let status_resp1 = status_resp\<lparr>payload := fit_buffer RPC_PAYLOAD_SIZE text\<rparr>;
          (n, w1) = sys_write_msg fd_resp status_resp1 w
      in if n \<noteq> int sizeof_RpcMessage then (- 1, status_resp1, emit (Err ''write'') w1)
         else (0, status_resp1, w1))"

definition status_line :: "job_info \<Rightarrow> string" where
  "status_line j = ''user-id '' @ fmt_d (user_id j) @ '' - command-id '' @ fmt_d (command_id j) @ [CHR 0x0A]"

text \<open>The loop from index \<open>i\<close> on, with \<open>job_count - i\<close> as first argument.\<close>

fun write_status_loop ::
  "nat \<Rightarrow> int \<Rightarrow> fd \<Rightarrow> RpcMessage \<Rightarrow> job_info block option \<Rightarrow> world \<Rightarrow> (RpcMessage \<times> world) option" where
  "write_status_loop 0 i fd_resp status_resp jobs w = Some (status_resp, w)"
| "write_status_loop (Suc k) i fd_resp status_resp jobs w = do {
     b \<leftarrow> jobs;
     j \<leftarrow> rd b i;
     let status_resp1 = status_resp\<lparr>payload := fit_buffer RPC_PAYLOAD_SIZE (status_line j)\<rparr>;
     let (n, w1) = sys_write_msg fd_resp status_resp1 w;
     if n \<noteq> int sizeof_RpcMessage then Some (status_resp1, emit (Err ''write'') w1)
     else write_status_loop k (i + 1) fd_resp status_resp1 jobs w1 }"

definition write_status_jobs ::
  "fd \<Rightarrow> RpcMessage \<Rightarrow> job_info block option \<Rightarrow> int \<Rightarrow> world \<Rightarrow> (RpcMessage \<times> world) option" where
  "write_status_jobs fd_resp status_resp jobs job_count w =
     write_status_loop (nat job_count) 0 fd_resp status_resp jobs w"

text \<open>\<open>malloc\<close> of a snapshot array, which is only asked for when the queue is not empty.\<close>

definition snapshot_alloc :: "int \<Rightarrow> world \<Rightarrow> bool \<times> job_info block option \<times> world" where
  "snapshot_alloc sz w =
     (if 0 < sz then
        let (ok, w1) = malloc_block w
        in if ok then (True, Some (uninit sz), w1) else (False, None, w1)
      else (True, None, w))"

definition finish_status :: "job_info block option \<Rightarrow> job_info block option \<Rightarrow> fd \<Rightarrow> world \<Rightarrow> world option" where
  "finish_status run_arr wait_arr fd_resp w = do {
     w1 \<leftarrow> free_opt run_arr w;
     w2 \<leftarrow> free_opt wait_arr w1;
     let (_, w3) = sys_close fd_resp w2;
     Some w3 }"

definition executing_header :: string where
  "executing_header = ''---'' @ LF @ ''Executing'' @ LF"

definition scheduled_header :: string where
  "scheduled_header = ''---'' @ LF @ ''Scheduled'' @ LF"

definition send_status ::
  "fd \<Rightarrow> job_info block option \<Rightarrow> int \<Rightarrow> job_info block option \<Rightarrow> int \<Rightarrow> world \<Rightarrow> world option" where
  "send_status fd_resp run_arr run_count wait_arr wait_count w = do {
     let status_resp = zero_msg\<lparr>msg_type := STATUS_RESP, sender_pid := self_pid w\<rparr>;
     let (r, resp1, w1) = write_status_message fd_resp status_resp executing_header w;
     if r = - 1 then finish_status run_arr wait_arr fd_resp w1
     else do {
       (resp2, w2) \<leftarrow> write_status_jobs fd_resp resp1 run_arr run_count w1;
       let (r2, resp3, w3) = write_status_message fd_resp resp2 scheduled_header w2;
       if r2 = - 1 then finish_status run_arr wait_arr fd_resp w3
       else do {
         (resp4, w4) \<leftarrow> write_status_jobs fd_resp resp3 wait_arr wait_count w3;
         let status_end = zero_msg\<lparr>msg_type := STATUS_END, sender_pid := self_pid w4\<rparr>;
         let (n, w5) = sys_write_msg fd_resp status_end w4;
         let w6 = (if n \<noteq> int sizeof_RpcMessage then emit (Err ''write'') w5 else w5);
         finish_status run_arr wait_arr fd_resp w6 } } }"

definition handle_status_req :: "controller_state \<Rightarrow> RpcMessage \<Rightarrow> world \<Rightarrow> world option" where
  "handle_status_req st msg w = do {
     let resp_fifo = runner_fifo (sender_pid msg);
     run_size \<leftarrow> queue_get_size (running_queue st) w;
     wait_size \<leftarrow> queue_get_size (waiting_queue st) w;
     let (ok, run_arr, w1) = snapshot_alloc run_size w;
     if \<not> ok then Some (emit (Err ''failed to allocate running queue snapshot'') w1)
     else do {
       let (ok2, wait_arr, w2) = snapshot_alloc wait_size w1;
       if \<not> ok2 then free_opt run_arr (emit (Err ''failed to allocate waiting queue snapshot'') w2)
       else do {
         (run_count, run_arr1) \<leftarrow> queue_copy_to_array (running_queue st) run_arr run_size w2;
         (wait_count, wait_arr1, w3) \<leftarrow>
           (if is_fair_policy st then
              queue_copy_fair_to_array (waiting_queue st) wait_arr wait_size (last_scheduled_user st)
                (fair_users st) (fair_user_count st) w2
            else do {
              (n, arr) \<leftarrow> queue_copy_to_array (waiting_queue st) wait_arr wait_size w2;
              Some (n, arr, w2) });
         let (fd_resp, w4) = sys_open resp_fifo w3;
         if fd_num fd_resp = - 1 then do {
           w5 \<leftarrow> free_opt run_arr1 (emit (Err ''open response fifo'') w4);
           free_opt wait_arr1 w5 }
         else send_status fd_resp run_arr1 run_count wait_arr1 wait_count w4 } } }"

subsection \<open>Shutdown\<close>

definition handle_shutdown_req :: "controller_state \<Rightarrow> RpcMessage \<Rightarrow> controller_state" where
  "handle_shutdown_req st msg = st\<lparr>is_shutting_down := True, shutdown_requester_pid := sender_pid msg\<rparr>"

definition try_finish_shutdown :: "controller_state \<Rightarrow> world \<Rightarrow> (int \<times> controller_state \<times> world) option" where
  "try_finish_shutdown st w =
     (if \<not> is_shutting_down st \<or> running_count st \<noteq> 0 then Some (0, st, w)
      else do {
        e \<leftarrow> queue_is_empty (waiting_queue st) w;
        if \<not> e then Some (0, st, w)
        else do {
          let resp_fifo = runner_fifo (shutdown_requester_pid st);
          let ack = zero_msg\<lparr>msg_type := SHUTDOWN_ACK\<rparr>;
          let (_, w1) = ipc_send_atomic resp_fifo ack w;
          Some (1, st\<lparr>keep_running := False\<rparr>, w1) } })"

subsection \<open>Dispatch\<close>

definition controller_handle_message ::
  "controller_state \<Rightarrow> RpcMessage \<Rightarrow> world \<Rightarrow> (int \<times> controller_state \<times> world) option" where
  "controller_handle_message st msg w =
     (if msg_type msg = SUBMIT \<and> is_shutting_down st then
        Some (0, st, send_shutdown_ack_to_runner msg w)
      else do {
        (st1, w1) \<leftarrow> (if msg_type msg = SUBMIT then handle_submit st msg w else Some (st, w));
        (st2, w2) \<leftarrow> (if msg_type msg = DONE then handle_done st1 msg w1 else Some (st1, w1));
        w3 \<leftarrow> (if msg_type msg = STATUS_REQ then handle_status_req st2 msg w2 else Some w2);
        let st3 = (if msg_type msg = SHUTDOWN_REQ then handle_shutdown_req st2 msg else st2);
        try_finish_shutdown st3 w3 })"

subsection \<open>Start and end\<close>

definition sizeof_policy :: nat where
  "sizeof_policy = 32"

text \<open>\<open>argv\<close> is the argument vector, so \<open>argc\<close> is its length.\<close>

definition controller_configure :: "string list \<Rightarrow> controller_state option" where
  "controller_configure argv = do {
     let st = \<lparr>parallel_limit = 4, running_count = 0, keep_running = True, is_shutting_down = False,
       shutdown_requester_pid = - 1, last_scheduled_user = - 1, fair_users = None,
       fair_user_count = 0, fair_user_capacity = 0, waiting_queue = NULL, running_queue = NULL,
       policy = ''fcfs''\<rparr>;
     st1 \<leftarrow>
       (if 1 < length argv then do {
          parsed_limit \<leftarrow> atoi (argv ! 1);
          Some (if 0 < parsed_limit then st\<lparr>parallel_limit := parsed_limit\<rparr> else st) }
        else Some st);
     Some (if 3 \<le> length argv then st1\<lparr>policy := fit_buffer sizeof_policy (argv ! 2)\<rparr> else st1) }"

definition controller_init_queues :: "controller_state \<Rightarrow> world \<Rightarrow> int \<times> controller_state \<times> world" where
  "controller_init_queues st w =
     (let (wq, w1) = queue_create w;
          (rq, w2) = queue_create w1;
          st1 = st\<lparr>waiting_queue := wq, running_queue := rq\<rparr>
      in if wq = NULL \<or> rq = NULL then (- 1, st1, w2) else (0, st1, w2))"

definition controller_destroy_queues :: "controller_state \<Rightarrow> world \<Rightarrow> (controller_state \<times> world) option" where
  "controller_destroy_queues st w = do {
     w1 \<leftarrow> queue_destroy (waiting_queue st) w;
     w2 \<leftarrow> queue_destroy (running_queue st) w1;
     w3 \<leftarrow> free_opt (fair_users st) w2;
     Some (st\<lparr>waiting_queue := NULL, running_queue := NULL, fair_users := None,
       fair_user_count := 0, fair_user_capacity := 0\<rparr>, w3) }"

end
