(* ===== verification/Effects.thy ===== *)
theory Effects
  imports Ipc "HOL-Library.Sublist"
begin

text \<open>
  What an operation does to the outside and what it leaves alone: the messages and log lines that arrive
  whole are some of those an operation is meant to send, and all of them when every system call succeeds.
\<close>

type_synonym sent = "string \<times> RpcMessage"
type_synonym log_entry = "string \<times> string"

fun logged :: "event list \<Rightarrow> log_entry list" where
  "logged [] = []"
| "logged (e # es) =
     (case e of Wrote_text p s n \<Rightarrow> if n = int (length s) then (p, s) # logged es else logged es
      | _ \<Rightarrow> logged es)"

lemma logged_append [simp]: "logged (es @ es') = logged es @ logged es'"
  by (induction es) (auto split: event.splits)

text \<open>The texts printed on the standard output.\<close>

fun printed :: "event list \<Rightarrow> string list" where
  "printed [] = []"
| "printed (e # es) = (case e of Out s \<Rightarrow> s # printed es | _ \<Rightarrow> printed es)"

lemma printed_append [simp]: "printed (es @ es') = printed es @ printed es'"
  by (induction es) (auto split: event.splits)

definition sys_ok :: "'a os_scheme \<Rightarrow> bool" where
  "sys_ok w \<longleftrightarrow> (\<forall>t. int sizeof_RpcMessage \<le> sys_out w t)"

definition may_fail :: "'a os_scheme \<Rightarrow> bool" where
  "may_fail w \<longleftrightarrow> (\<exists>t. \<not> malloc_ok w t)"

definition sends :: "'a os_scheme \<Rightarrow> event list \<Rightarrow> sent list \<Rightarrow> log_entry list \<Rightarrow> bool" where
  "sends w es out logs \<longleftrightarrow> subseq (delivered es) out \<and> subseq (logged es) logs \<and>
     (sys_ok w \<longrightarrow> delivered es = out \<and> logged es = logs)"

lemma sends_append:
  assumes "sends w es out logs" and "sends w es' out' logs'"
  shows "sends w (es @ es') (out @ out') (logs @ logs')"
  using assms by (auto simp: sends_def intro: list_emb_append_mono)

lemma sends_Nil [simp]: "sends w [] [] []"
  by (simp add: sends_def)

lemma sends_Err [simp]: "sends w (es @ [Err s]) out logs = sends w es out logs"
  by (simp add: sends_def)

definition effect :: "'a os_scheme \<Rightarrow> event list \<Rightarrow> 'a os_scheme \<Rightarrow> bool" where
  "effect w es w' \<longleftrightarrow>
     malloc_ok w' = malloc_ok w \<and> rand_out w' = rand_out w \<and> clock_out w' = clock_out w \<and>
     sys_out w' = sys_out w \<and> self_pid w' = self_pid w \<and> open_fds w' = open_fds w \<and>
     events w' = events w @ es \<and> tick w \<le> tick w'"

lemma effect_refl [simp]: "effect w [] w"
  by (simp add: effect_def)

lemma effect_trans: "effect w es w1 \<Longrightarrow> effect w1 es' w2 \<Longrightarrow> effect w (es @ es') w2"
  by (auto simp: effect_def)

lemma effect_cong:
  assumes "effect w es w'"
  shows "sys_ok w' = sys_ok w" and "may_fail w' = may_fail w" and "self_pid w' = self_pid w"
    and "sends w' = sends w"
  using assms by (auto simp: effect_def sys_ok_def may_fail_def sends_def fun_eq_iff)

lemma effect_emit: "effect w es w' \<Longrightarrow> effect w (es @ [e]) (emit e w')"
  by (simp add: effect_def emit_def)

lemma sys_okD: "sys_ok w \<Longrightarrow> 504 \<le> sys_out w t"
  by (simp add: sys_ok_def)

lemma sends_more: "sends w es out logs \<Longrightarrow> \<not> sys_ok w \<Longrightarrow> sends w es (out @ out') logs"
  by (auto simp: sends_def)

lemma sys_unlink_effect:
  obtains r es t where "sys_unlink p w = (r, w\<lparr>tick := t, events := events w @ es\<rparr>)" and "tick w \<le> t"
    and "delivered es = []" and "logged es = []" and "printed es = []"
proof (cases "sys_out w (tick w) < 0")
  case True
  show thesis by (rule that [where r = "- 1" and t = "Suc (tick w)" and es = "[]"]) (use True in \<open>auto simp: sys_unlink_def sys_call_def\<close>)
next
  case False
  show thesis by (rule that [where r = 0 and t = "Suc (tick w)" and es = "[Unlinked p]"])
    (use False in \<open>auto simp: sys_unlink_def sys_call_def emit_def\<close>)
qed

lemma ipc_create_fifo_effect:
  obtains c es t where "ipc_create_fifo p w = (c, w\<lparr>tick := t, events := events w @ es\<rparr>)" and "tick w \<le> t"
    and "delivered es = []" and "logged es = []" and "c = - 1 \<longrightarrow> \<not> sys_ok w" and "printed es = []"
proof -
  consider "0 \<le> sys_out w (tick w)" | "sys_out w (tick w) = - 17" | "sys_out w (tick w) < 0" "sys_out w (tick w) \<noteq> - 17" by linarith
  then show thesis
  proof cases
    case 1
    show thesis by (rule that [where c = 0 and t = "Suc (tick w)" and es = "[Made_fifo p]"])
      (use 1 in \<open>simp_all add: ipc_create_fifo_def sys_mkfifo_def emit_def\<close>)
  next
    case 2
    show thesis by (rule that [where c = 0 and t = "Suc (tick w)" and es = "[]"])
      (use 2 in \<open>simp_all add: ipc_create_fifo_def sys_mkfifo_def\<close>)
  next
    case 3
    show thesis by (rule that [where c = "- 1" and t = "Suc (tick w)" and es = "[]"])
      (use 3 sys_okD [of w "tick w"] in \<open>auto simp: ipc_create_fifo_def sys_mkfifo_def\<close>)
  qed
qed

text \<open>Effects that neither send a message nor write to the log.\<close>

definition silent :: "event list \<Rightarrow> bool" where
  "silent es \<longleftrightarrow> delivered es = [] \<and> logged es = []"

lemma silent_simps [simp]: "silent []" "silent (es @ es') \<longleftrightarrow> silent es \<and> silent es'"
    "silent [Out s]" "silent [Err s]" "silent [Unlinked p]" "silent [Made_fifo p]"
  by (auto simp: silent_def)

lemma sends_silent [simp]: "silent es' \<Longrightarrow> sends w (es @ es') out logs = sends w es out logs"
    "silent es' \<Longrightarrow> sends w (es' @ es) out logs = sends w es out logs"
  by (simp_all add: sends_def silent_def)

lemma sends_nothing: "silent es \<Longrightarrow> sends w es [] []"
  by (simp add: sends_def silent_def)

text \<open>
  An operation that only calls the system: nothing changes but the clock and the record of effects.
\<close>

definition outputs :: "'a os_scheme \<Rightarrow> event list \<Rightarrow> 'a os_scheme \<Rightarrow> bool" where
  "outputs w es w' \<longleftrightarrow> (\<exists>t\<ge>tick w. w' = w\<lparr>tick := t, events := events w @ es\<rparr>)"

lemma outputs_effect: "outputs w es w' \<Longrightarrow> effect w es w'"
  by (auto simp: outputs_def effect_def)

lemma outputs_refl [simp]: "outputs w [] w"
  by (auto simp: outputs_def intro: exI [of _ "tick w"])

lemma outputs_trans: "outputs w es w1 \<Longrightarrow> outputs w1 es' w2 \<Longrightarrow> outputs w (es @ es') w2"
  by (auto simp: outputs_def) (metis le_trans)

lemma outputs_blocks: "outputs w es w' \<Longrightarrow> blocks w' = blocks w"
  by (auto simp: outputs_def)

lemma outputs_emit: "outputs w es w1 \<Longrightarrow> outputs w (es @ [e]) (emit e w1)"
  by (auto simp: outputs_def emit_def) 

lemma ipc_send_atomic_outputs:
  obtains r es w' where "ipc_send_atomic p m w = (r, w')" and "outputs w es w'" and "sends w es [(p, m)] []"
    and "printed es = []"
proof -
  obtain r es t where e: "ipc_send_atomic p m w = (r, w\<lparr>tick := t, events := events w @ es\<rparr>)" "tick w \<le> t"
      "es = [] \<or> (\<exists>n. es = [Wrote_msg p m n])" by (rule ipc_send_atomic_frame)
  have "sends w es [(p, m)] []"
  proof (cases "sys_ok w")
    case True
    then have "es = [Wrote_msg p m (int sizeof_RpcMessage)]"
      using e(1) ipc_send_atomic_full [of w p m] by (auto simp: sys_ok_def dest: arg_cong [of _ _ events])
    then show ?thesis by (simp add: sends_def)
  next
    case False
    with e(3) show ?thesis by (auto simp: sends_def)
  qed
  with e show thesis by (intro that) (auto simp: outputs_def)
qed

text \<open>A send whose failure is reported with \<open>perror\<close>.\<close>

lemma perror_outputs:
  assumes "outputs w es w'" and "sends w es out logs"
  shows "\<exists>es'. outputs w es' (if b then emit (Err s) w' else w') \<and> sends w es' out logs"
  using assms outputs_emit [OF assms(1), of "Err s"] by (auto intro: exI [of _ "es @ [Err s]"])

subsection \<open>What a step of a process hands over\<close>

text \<open>The messages that arrive whole between two states of a process.\<close>

definition new_sent :: "'a os_scheme \<Rightarrow> 'a os_scheme \<Rightarrow> sent list" where
  "new_sent w w' = delivered (drop (length (events w)) (events w'))"

definition same_env :: "'a os_scheme \<Rightarrow> 'a os_scheme \<Rightarrow> bool" where
  "same_env w w' \<longleftrightarrow> self_pid w' = self_pid w \<and> sys_out w' = sys_out w \<and> malloc_ok w' = malloc_ok w"

definition hands_over :: "'a os_scheme \<Rightarrow> sent list \<Rightarrow> 'a os_scheme \<Rightarrow> bool" where
  "hands_over w out w' \<longleftrightarrow> subseq (new_sent w w') out \<and> (sys_ok w \<longrightarrow> new_sent w w' = out) \<and> same_env w w'"

lemma same_env_refl [simp]: "same_env w w"
  by (simp add: same_env_def)

lemma same_env_trans: "same_env w w1 \<Longrightarrow> same_env w1 w2 \<Longrightarrow> same_env w w2"
  by (simp add: same_env_def)

lemma same_env_cong:
  assumes "same_env w w'"
  shows "self_pid w' = self_pid w" and "sys_ok w' = sys_ok w" and "may_fail w' = may_fail w"
  using assms by (simp_all add: same_env_def sys_ok_def may_fail_def)

lemma effect_same_env: "effect w es w' \<Longrightarrow> same_env w w'"
  by (simp add: effect_def same_env_def)

lemma hands_overI:
  assumes "events w' = events w @ es" and "sends w es out logs" and "same_env w w'"
  shows "hands_over w out w'"
  using assms by (simp add: hands_over_def new_sent_def sends_def)

lemma hands_over_effect: "effect w es w' \<Longrightarrow> sends w es out logs \<Longrightarrow> hands_over w out w'"
  by (rule hands_overI) (auto simp: effect_same_env, simp add: effect_def)

lemma hands_over_refl [simp]: "hands_over w [] w"
  by (simp add: hands_over_def new_sent_def)

lemma hands_over_set: "hands_over w out w' \<Longrightarrow> set (new_sent w w') \<subseteq> set out"
  by (auto simp: hands_over_def dest: list_emb_set)

lemma hands_over_ok: "hands_over w out w' \<Longrightarrow> sys_ok w \<Longrightarrow> new_sent w w' = out"
  by (simp add: hands_over_def)

end
