(* ===== verification/Controller_Spec.thy ===== *)
theory Controller_Spec
  imports Controller Effects
begin

text \<open>
  What the controller promises, without pointers, arrays or system calls: an abstract state with the
  two queues as lists, and the relation between a message, the state before and after, the messages
  sent and the lines logged. The flag \<open>fail\<close> says whether allocations may fail; with \<open>fail\<close> false the
  relation is the contract of the scheduler. \<open>Controller_Refine\<close> shows that the handlers implement
  this relation.
\<close>

record spec =
  sp_limit :: int
  sp_policy :: string
  sp_waiting :: "job_info list"
  sp_running :: "job_info list"
  sp_users :: "int list"
  sp_last :: int
  sp_shut :: bool
  sp_req :: int
  sp_stop :: bool

subsection \<open>Messages\<close>

definition ack :: "int \<Rightarrow> job_info \<Rightarrow> sent" where
  "ack pid j = (runner_fifo (runner_pid j),
     \<lparr>msg_type = ACK, sender_pid = pid, msg_user_id = user_id j, msg_command_id = command_id j, payload = []\<rparr>)"

definition refusal :: "int \<Rightarrow> RpcMessage \<Rightarrow> sent" where
  "refusal pid m = (runner_fifo (sender_pid m),
     \<lparr>msg_type = SHUTDOWN_ACK, sender_pid = pid, msg_user_id = msg_user_id m,
      msg_command_id = msg_command_id m, payload = []\<rparr>)"

definition farewell :: "spec \<Rightarrow> sent" where
  "farewell s = (runner_fifo (sp_req s), zero_msg\<lparr>msg_type := SHUTDOWN_ACK\<rparr>)"

definition status_text :: "int \<Rightarrow> string \<Rightarrow> RpcMessage" where
  "status_text pid t = zero_msg\<lparr>msg_type := STATUS_RESP, sender_pid := pid, payload := fit_buffer RPC_PAYLOAD_SIZE t\<rparr>"

definition status_msgs :: "int \<Rightarrow> RpcMessage \<Rightarrow> job_info list \<Rightarrow> job_info list \<Rightarrow> sent list" where
  "status_msgs pid m running waiting = map (Pair (runner_fifo (sender_pid m)))
     ([status_text pid executing_header] @ map (\<lambda>j. status_text pid (status_line j)) running @
      [status_text pid scheduled_header] @ map (\<lambda>j. status_text pid (status_line j)) waiting @
      [zero_msg\<lparr>msg_type := STATUS_END, sender_pid := pid\<rparr>])"

subsection \<open>Jobs\<close>

definition job_of :: "RpcMessage \<Rightarrow> timeval \<Rightarrow> job_info" where
  "job_of m now = \<lparr>command_id = msg_command_id m, user_id = msg_user_id m, job_state = JOB_QUEUED,
     runner_pid = sender_pid m, start_time = now\<rparr>"

abbreviation started :: "job_info \<Rightarrow> job_info" where
  "started j \<equiv> j\<lparr>job_state := JOB_RUNNING\<rparr>"

text \<open>
  The waiting job that may start next: the first one (\<open>fcfs\<close> and every unknown policy name), any one
  (\<open>random\<close>), or the first one of the user whose turn it is (\<open>fair\<close>).
\<close>

definition may_pick :: "bool \<Rightarrow> spec \<Rightarrow> job_info list \<Rightarrow> job_info \<Rightarrow> job_info list \<Rightarrow> bool" where
  "may_pick fail s ys j zs \<longleftrightarrow> sp_waiting s = ys @ j # zs \<and>
     (if sp_policy s = ''random'' then True
      else if sp_policy s = ''fair'' then
        (user_id j = fair_user (sp_users s) (sp_last s) (users_of (sp_waiting s)) \<and>
         (\<forall>y\<in>set ys. user_id y \<noteq> user_id j)) \<or> (fail \<and> ys = [])
      else ys = [])"

inductive promotes :: "bool \<Rightarrow> spec \<Rightarrow> job_info list \<Rightarrow> spec \<Rightarrow> bool" for fail :: bool where
  promote_stop: "sp_limit s \<le> int (length (sp_running s)) \<or> sp_waiting s = [] \<Longrightarrow> promotes fail s [] s"
| promote_start: "int (length (sp_running s)) < sp_limit s \<Longrightarrow> may_pick fail s ys j zs \<Longrightarrow>
    promotes fail (s\<lparr>sp_waiting := ys @ zs, sp_running := sp_running s @ [started j], sp_last := user_id j\<rparr>) js s' \<Longrightarrow>
    promotes fail s (started j # js) s'"
| promote_drop: "fail \<Longrightarrow> int (length (sp_running s)) < sp_limit s \<Longrightarrow> may_pick fail s ys j zs \<Longrightarrow>
    l = sp_last s \<or> l = user_id j \<Longrightarrow>
    promotes fail (s\<lparr>sp_waiting := ys @ zs, sp_last := l\<rparr>) js s' \<Longrightarrow> promotes fail s js s'"

definition users_after :: "bool \<Rightarrow> spec \<Rightarrow> int \<Rightarrow> int list \<Rightarrow> bool" where
  "users_after fail s u us \<longleftrightarrow> us = add_user u (sp_users s) \<or> fail \<and> us = sp_users s"

text \<open>
  The order in which a status answer lists the waiting jobs. The fair listing treats the user
  identifier -1 as "no user" and may stop early when such a user waits.
\<close>

definition status_order :: "bool \<Rightarrow> spec \<Rightarrow> job_info list \<Rightarrow> bool" where
  "status_order fail s wl \<longleftrightarrow>
     (if sp_policy s = ''fair'' then
        wl = fair_order (sp_users s) (sp_last s) (sp_waiting s) \<or>
        (fail \<or> - 1 \<in> user_id ` set (sp_waiting s)) \<and>
          ((\<exists>k. wl = take k (fair_order (sp_users s) (sp_last s) (sp_waiting s))) \<or> wl = sp_waiting s)
      else wl = sp_waiting s)"

definition sane_time :: "timeval \<Rightarrow> bool" where
  "sane_time t \<longleftrightarrow> 0 \<le> tv_sec t \<and> tv_sec t < 2 ^ 53 \<and> 0 \<le> tv_usec t \<and> tv_usec t < 1000000"

subsection \<open>One message\<close>

inductive spec_msg ::
  "bool \<Rightarrow> int \<Rightarrow> spec \<Rightarrow> RpcMessage \<Rightarrow> sent list \<Rightarrow> log_entry list \<Rightarrow> spec \<Rightarrow> bool" for fail :: bool and pid :: int where
  submit_started: "msg_type m = SUBMIT \<Longrightarrow> sane_time now \<Longrightarrow> users_after fail s (msg_user_id m) us \<Longrightarrow>
    int (length (sp_running s)) < sp_limit s \<Longrightarrow>
    spec_msg fail pid s m [ack pid (job_of m now)] []
      (s\<lparr>sp_users := us, sp_running := sp_running s @ [started (job_of m now)], sp_last := msg_user_id m\<rparr>)"
| submit_queued: "msg_type m = SUBMIT \<Longrightarrow> sane_time now \<Longrightarrow> users_after fail s (msg_user_id m) us \<Longrightarrow>
    sp_limit s \<le> int (length (sp_running s)) \<Longrightarrow>
    spec_msg fail pid s m [] [] (s\<lparr>sp_users := us, sp_waiting := sp_waiting s @ [job_of m now]\<rparr>)"
| submit_lost: "fail \<Longrightarrow> msg_type m = SUBMIT \<Longrightarrow> users_after fail s (msg_user_id m) us \<Longrightarrow>
    spec_msg fail pid s m [] [] (s\<lparr>sp_users := us\<rparr>)"
| done_known: "msg_type m = DONE \<Longrightarrow>
    split_first (\<lambda>j. command_id j = msg_command_id m) (sp_running s) = Some (ys, j, zs) \<Longrightarrow>
    sane_time t \<Longrightarrow> elapsed_ms (start_time j) t = Some ms \<Longrightarrow>
    promotes fail (s\<lparr>sp_running := ys @ zs\<rparr>) js s' \<Longrightarrow>
    spec_msg fail pid s m (map (ack pid) js) [(''log.txt'', fit_buffer 256 (log_line j ms))] s'"
| done_unknown: "msg_type m = DONE \<Longrightarrow>
    split_first (\<lambda>j. command_id j = msg_command_id m) (sp_running s) = None \<Longrightarrow>
    promotes fail s js s' \<Longrightarrow> spec_msg fail pid s m (map (ack pid) js) [] s'"
| status_sent: "msg_type m = STATUS_REQ \<Longrightarrow> status_order fail s wl \<Longrightarrow>
    spec_msg fail pid s m (status_msgs pid m (sp_running s) wl) [] s"
| status_failed: "fail \<Longrightarrow> msg_type m = STATUS_REQ \<Longrightarrow> spec_msg fail pid s m [] [] s"
| shutdown_requested: "msg_type m = SHUTDOWN_REQ \<Longrightarrow>
    spec_msg fail pid s m [] [] (s\<lparr>sp_shut := True, sp_req := sender_pid m\<rparr>)"
| other_ignored: "msg_type m \<notin> {SUBMIT, DONE, STATUS_REQ, SHUTDOWN_REQ} \<Longrightarrow> spec_msg fail pid s m [] [] s"

text \<open>After the message: once a shutdown has been requested and no job is left, the last requester is told.\<close>

definition finish :: "spec \<Rightarrow> sent list \<times> spec" where
  "finish s = (if sp_shut s \<and> sp_running s = [] \<and> sp_waiting s = [] then ([farewell s], s\<lparr>sp_stop := True\<rparr>)
     else ([], s))"

inductive spec_step ::
  "bool \<Rightarrow> int \<Rightarrow> spec \<Rightarrow> RpcMessage \<Rightarrow> sent list \<Rightarrow> log_entry list \<Rightarrow> spec \<Rightarrow> bool" for fail :: bool and pid :: int where
  refused: "msg_type m = SUBMIT \<Longrightarrow> sp_shut s \<Longrightarrow> spec_step fail pid s m [refusal pid m] [] s"
| handled: "msg_type m \<noteq> SUBMIT \<or> \<not> sp_shut s \<Longrightarrow> spec_msg fail pid s m out logs s1 \<Longrightarrow>
    finish s1 = (out2, s2) \<Longrightarrow> spec_step fail pid s m (out @ out2) logs s2"

inductive_cases promotes_cases: "promotes fail s js s'"
inductive_cases spec_msg_cases: "spec_msg fail pid s m out logs s'"
inductive_cases spec_step_cases: "spec_step fail pid s m out logs s'"

subsection \<open>Sequences of messages\<close>

inductive spec_run ::
  "bool \<Rightarrow> int \<Rightarrow> spec \<Rightarrow> RpcMessage list \<Rightarrow> sent list \<Rightarrow> log_entry list \<Rightarrow> spec \<Rightarrow> bool" for fail :: bool and pid :: int where
  run_nil: "spec_run fail pid s [] [] [] s"
| run_cons: "\<not> sp_stop s \<Longrightarrow> spec_step fail pid s m out logs s1 \<Longrightarrow> spec_run fail pid s1 ms out' logs' s2 \<Longrightarrow>
    spec_run fail pid s (m # ms) (out @ out') (logs @ logs') s2"

definition initial :: "int \<Rightarrow> string \<Rightarrow> spec" where
  "initial lim pol = \<lparr>sp_limit = lim, sp_policy = pol, sp_waiting = [], sp_running = [], sp_users = [],
     sp_last = - 1, sp_shut = False, sp_req = - 1, sp_stop = False\<rparr>"

text \<open>
  The invariant: never more running jobs than the limit, users listed once, and the fields of a queued
  job agree with the queue it is in.
\<close>

definition spec_inv :: "spec \<Rightarrow> bool" where
  "spec_inv s \<longleftrightarrow> 0 < sp_limit s \<and> int (length (sp_running s)) \<le> sp_limit s \<and> distinct (sp_users s) \<and>
     (\<forall>j\<in>set (sp_waiting s). job_state j = JOB_QUEUED \<and> sane_time (start_time j)) \<and>
     (\<forall>j\<in>set (sp_running s). job_state j = JOB_RUNNING \<and> sane_time (start_time j))"

lemma may_pick_waiting: "may_pick fail s ys j zs \<Longrightarrow> sp_waiting s = ys @ j # zs"
  by (simp only: may_pick_def)

lemma promotes_inv: "promotes fail s js s' \<Longrightarrow> spec_inv s \<Longrightarrow> spec_inv s'"
proof (induction rule: promotes.induct)
  case (promote_start s ys j zs js s')
  from promote_start.prems may_pick_waiting [OF promote_start.hyps(2)] promote_start.hyps(1) show ?case
    by (intro promote_start.IH) (auto simp: spec_inv_def)
next
  case (promote_drop s ys j zs l js s')
  from promote_drop.prems may_pick_waiting [OF promote_drop.hyps(3)] show ?case
    by (intro promote_drop.IH) (auto simp: spec_inv_def)
qed

lemma promotes_frame:
  "promotes fail s js s' \<Longrightarrow> sp_limit s' = sp_limit s \<and> sp_policy s' = sp_policy s \<and> sp_users s' = sp_users s \<and>
     sp_shut s' = sp_shut s \<and> sp_req s' = sp_req s \<and> sp_stop s' = sp_stop s"
  by (induction rule: promotes.induct) simp_all

lemma users_after_distinct: "users_after fail s u us \<Longrightarrow> distinct (sp_users s) \<Longrightarrow> distinct us"
  by (auto simp: users_after_def)

lemma spec_msg_inv: "spec_msg fail pid s m out logs s' \<Longrightarrow> spec_inv s \<Longrightarrow> spec_inv s'"
proof (induction rule: spec_msg.induct)
  case (done_known m s ys j zs t ms js s')
  from split_first_SomeD [OF done_known(2)] done_known(6) have "spec_inv (s\<lparr>sp_running := ys @ zs\<rparr>)"
    by (auto simp: spec_inv_def)
  then show ?case by (rule promotes_inv [OF done_known(5)])
next
  case (done_unknown m s js s')
  then show ?case by (blast intro: promotes_inv)
qed (auto simp: spec_inv_def job_of_def dest: users_after_distinct)

lemma finish_inv: "finish s = (out, s') \<Longrightarrow> spec_inv s \<Longrightarrow> spec_inv s'"
  by (auto simp: finish_def spec_inv_def split: if_splits)

lemma spec_step_inv: "spec_step fail pid s m out logs s' \<Longrightarrow> spec_inv s \<Longrightarrow> spec_inv s'"
  by (induction rule: spec_step.induct) (auto intro: spec_msg_inv finish_inv)

lemma spec_run_inv: "spec_run fail pid s ms out logs s' \<Longrightarrow> spec_inv s \<Longrightarrow> spec_inv s'"
  by (induction rule: spec_run.induct) (auto intro: spec_step_inv)

lemma initial_inv: "0 < lim \<Longrightarrow> spec_inv (initial lim pol)"
  by (simp add: spec_inv_def initial_def)

end
