(* ===== verification/Controller_Effects.thy ===== *)
theory Controller_Effects
  imports Controller_Spec
begin

text \<open>
  The replies of the controller as effects: an operation of this theory only calls the system and
  leaves the heap alone.
\<close>

lemma effect_env: "env_eq w w' \<Longrightarrow> effect w [] w'"
  by (simp add: effect_def env_eq_def)

lemma effect_env_trans: "env_eq w w1 \<Longrightarrow> effect w1 es w2 \<Longrightarrow> effect w es w2"
  using effect_trans [OF effect_env, of w w1 es w2] by simp

lemma store_events [simp]: "store (w\<lparr>events := e\<rparr>) m = store w m"
  by (simp add: store_def store_at_def)

lemma outputs_store: "outputs w es w' \<Longrightarrow> store w' m = store w m"
  by (auto simp: outputs_def)

lemma send_ack_outputs: "\<exists>es. outputs w es (send_ack_to_runner j w) \<and> sends w es [ack (self_pid w) j] []"
  by (rule ipc_send_atomic_outputs [of "runner_fifo (runner_pid j)" "snd (ack (self_pid w) j)" w])
    (auto simp: send_ack_to_runner_def ack_def zero_msg_def perror_outputs)

lemma send_shutdown_ack_outputs:
  "\<exists>es. outputs w es (send_shutdown_ack_to_runner m w) \<and> sends w es [refusal (self_pid w) m] []"
  by (rule ipc_send_atomic_outputs [of "runner_fifo (sender_pid m)" "snd (refusal (self_pid w) m)" w])
    (auto simp: send_shutdown_ack_to_runner_def refusal_def zero_msg_def perror_outputs)

end
