(* ===== verification/Controller_Refine.thy ===== *)
theory Controller_Refine
  imports Controller_Effects
begin

text \<open>
  The relation between the state of the controller process and the abstract state, and the two parts
  that several handlers share: the loop that starts waiting jobs and the array of known users.
\<close>

definition queue_pair :: "nat \<Rightarrow> nat \<Rightarrow> job_info list \<Rightarrow> job_info list \<Rightarrow> nat \<rightharpoonup> job_info list" where
  "queue_pair a b ws rs = [a \<mapsto> ws, b \<mapsto> rs]"

lemma queue_pair_upd:
  assumes "a \<noteq> b"
  shows "queue_pair a b ws rs a = Some ws" and "queue_pair a b ws rs b = Some rs"
    and "(queue_pair a b ws rs)(a \<mapsto> ws') = queue_pair a b ws' rs"
    and "(queue_pair a b ws rs)(b \<mapsto> rs') = queue_pair a b ws rs'"
  using assms by (auto simp: queue_pair_def)

definition users_rep :: "controller_state \<Rightarrow> int list \<Rightarrow> bool" where
  "users_rep st us \<longleftrightarrow> array_rep (fair_users st) us \<and> fair_user_count st = int (length us) \<and>
     fair_user_capacity st = (case fair_users st of None \<Rightarrow> 0 | Some b \<Rightarrow> int (length b))"

definition queues_rep :: "controller_state \<Rightarrow> world \<Rightarrow> job_info list \<Rightarrow> job_info list \<Rightarrow> bool" where
  "queues_rep st w ws rs \<longleftrightarrow> (\<exists>a b. a \<noteq> b \<and> waiting_queue st = At a \<and> running_queue st = At b \<and>
     store w (queue_pair a b ws rs))"

definition ctl_rep :: "controller_state \<Rightarrow> world \<Rightarrow> spec \<Rightarrow> bool" where
  "ctl_rep st w s \<longleftrightarrow>
     queues_rep st w (sp_waiting s) (sp_running s) \<and> users_rep st (sp_users s) \<and>
     blocks w = (if fair_users st = None then 0 else 1) \<and>
     running_count st = int (length (sp_running s)) \<and> parallel_limit st = sp_limit s \<and>
     policy st = sp_policy s \<and> last_scheduled_user st = sp_last s \<and> is_shutting_down st = sp_shut s \<and>
     shutdown_requester_pid st = sp_req s \<and> keep_running st = (\<not> sp_stop s)"

lemma ctl_repI:
  assumes "queues_rep st w (sp_waiting s) (sp_running s)" and "users_rep st (sp_users s)"
    and "blocks w = (if fair_users st = None then 0 else 1)"
    and "running_count st = int (length (sp_running s))" and "parallel_limit st = sp_limit s"
    and "policy st = sp_policy s" and "last_scheduled_user st = sp_last s" and "is_shutting_down st = sp_shut s"
    and "shutdown_requester_pid st = sp_req s" and "keep_running st = (\<not> sp_stop s)"
  shows "ctl_rep st w s"
  using assms by (simp add: ctl_rep_def)

lemma ctl_repD:
  assumes "ctl_rep st w s"
  shows "queues_rep st w (sp_waiting s) (sp_running s)" and "users_rep st (sp_users s)"
    and "blocks w = (if fair_users st = None then 0 else 1)"
    and "running_count st = int (length (sp_running s))" and "parallel_limit st = sp_limit s"
    and "policy st = sp_policy s" and "last_scheduled_user st = sp_last s" and "is_shutting_down st = sp_shut s"
    and "shutdown_requester_pid st = sp_req s" and "keep_running st = (\<not> sp_stop s)"
  using assms by (simp_all add: ctl_rep_def)

lemma queues_repE:
  assumes "queues_rep st w ws rs"
  obtains a b where "a \<noteq> b" and "waiting_queue st = At a" and "running_queue st = At b"
    and "store w (queue_pair a b ws rs)"
  using assms by (auto simp: queues_rep_def)

lemma queues_rep_outputs: "outputs w es w' \<Longrightarrow> queues_rep st w' ws rs = queues_rep st w ws rs"
  by (simp add: queues_rep_def outputs_store)

lemma queues_rep_cong:
  assumes "waiting_queue st' = waiting_queue st" and "running_queue st' = running_queue st"
  shows "queues_rep st' w ws rs = queues_rep st w ws rs"
  using assms by (simp add: queues_rep_def)

lemma waiting_enqueue:
  assumes "queues_rep st w ws rs" and "int (length ws) + 1 < 2 ^ 31"
  obtains w' where "queue_enqueue (waiting_queue st) (Var (Some j)) w = Some (True, w')"
      and "queues_rep st w' (ws @ [j]) rs" and "env_eq w w'"
  | w' where "may_fail w" and "queue_enqueue (waiting_queue st) (Var (Some j)) w = Some (False, w')"
      and "queues_rep st w' ws rs" and "env_eq w w'"
proof -
  from assms(1) obtain a b where q: "a \<noteq> b" "waiting_queue st = At a" "running_queue st = At b"
      "store w (queue_pair a b ws rs)" by (rule queues_repE)
  note upd = queue_pair_upd [OF q(1)]
  from q(4) upd(1) assms(2) show thesis
  proof (cases rule: jq.enq_cases [where j = j])
    case (1 w')
    with q upd show ?thesis by (intro that(1)) (auto simp: queues_rep_def)
  next
    case (2 w')
    with q upd show ?thesis by (intro that(2)) (auto simp: queues_rep_def may_fail_def)
  qed
qed

lemma running_enqueue:
  assumes "queues_rep st w ws rs" and "int (length rs) + 1 < 2 ^ 31"
  obtains w' where "queue_enqueue (running_queue st) (Var (Some j)) w = Some (True, w')"
      and "queues_rep st w' ws (rs @ [j])" and "env_eq w w'"
  | w' where "may_fail w" and "queue_enqueue (running_queue st) (Var (Some j)) w = Some (False, w')"
      and "queues_rep st w' ws rs" and "env_eq w w'"
proof -
  from assms(1) obtain a b where q: "a \<noteq> b" "waiting_queue st = At a" "running_queue st = At b"
      "store w (queue_pair a b ws rs)" by (rule queues_repE)
  note upd = queue_pair_upd [OF q(1)]
  from q(4) upd(2) assms(2) show thesis
  proof (cases rule: jq.enq_cases [where j = j])
    case (1 w')
    with q upd show ?thesis by (intro that(1)) (auto simp: queues_rep_def)
  next
    case (2 w')
    with q upd show ?thesis by (intro that(2)) (auto simp: queues_rep_def may_fail_def)
  qed
qed

lemma waiting_is_empty: "queues_rep st w ws rs \<Longrightarrow> queue_is_empty (waiting_queue st) w = Some (ws = [])"
  by (auto simp: queues_rep_def queue_pair_upd queue_is_empty_ok)

lemma waiting_size: "queues_rep st w ws rs \<Longrightarrow> queue_get_size (waiting_queue st) w = Some (int (length ws))"
  by (auto simp: queues_rep_def queue_pair_upd queue_get_size_ok)

lemma running_size: "queues_rep st w ws rs \<Longrightarrow> queue_get_size (running_queue st) w = Some (int (length rs))"
  by (auto simp: queues_rep_def queue_pair_upd queue_get_size_ok)

text \<open>The choice of the next job refines \<open>may_pick\<close>, under each policy.\<close>

lemma nth_mod_split:
  assumes "js \<noteq> []"
  obtains ys j zs where "js = ys @ j # zs" and "length ys = n mod length js"
proof -
  from assms have "n mod length js < length js" by simp
  from nth_split [OF this] that show thesis by blast
qed

text \<open>What taking the next job does, whichever policy picks it.\<close>

definition takes_next :: "controller_state \<Rightarrow> world \<Rightarrow> spec \<Rightarrow> bool" where
  "takes_next st w s \<longleftrightarrow> (\<exists>ys j zs l w'. dequeue_next st w = Some (True, Var (Some j), st\<lparr>last_scheduled_user := l\<rparr>, w') \<and>
     may_pick (may_fail w) s ys j zs \<and> (l = sp_last s \<or> l = user_id j) \<and>
     queues_rep st w' (ys @ zs) (sp_running s) \<and> env_eq w w')"

lemma takes_nextI:
  assumes q: "a \<noteq> b" "waiting_queue st = At a" "running_queue st = At b"
    and "dequeue_next st w = Some (True, Var (Some j), st\<lparr>last_scheduled_user := l\<rparr>, w')"
    and w': "store w' ((queue_pair a b (sp_waiting s) (sp_running s))(a \<mapsto> ys @ zs))" "env_eq w w'"
    and "may_pick (may_fail w) s ys j zs" and "l = sp_last s \<or> l = user_id j"
  shows "takes_next st w s"
proof -
  have "queues_rep st w' (ys @ zs) (sp_running s)" using w'(1) q queue_pair_upd [OF q(1)] by (auto simp: queues_rep_def)
  then show ?thesis using assms unfolding takes_next_def by blast
qed

lemma random_next:
  assumes rep: "ctl_rep st w s" and ne: "sp_waiting s \<noteq> []" and pol: "sp_policy s = ''random''"
  shows "takes_next st w s"
proof -
  note d = ctl_repD [OF rep]
  from d(1) obtain a b where q: "a \<noteq> b" "waiting_queue st = At a" "running_queue st = At b"
      and st: "store w (queue_pair a b (sp_waiting s) (sp_running s))" by (rule queues_repE)
  obtain ys j zs where js: "sp_waiting s = ys @ j # zs" and i: "length ys = rand_out w (tick w) mod length (sp_waiting s)"
    by (rule nth_mod_split [OF ne])
  have "queue_pair a b (sp_waiting s) (sp_running s) a = Some (ys @ j # zs)" using queue_pair_upd(1) [OF q(1)] js by simp
  from queue_dequeue_random_ok [OF st this _ i [unfolded js], of "Var None"]
  obtain w' where w': "queue_dequeue_random (At a) (Var None) w = Some (True, Var (Some j), w')"
      "store w' ((queue_pair a b (sp_waiting s) (sp_running s))(a \<mapsto> ys @ zs))" "env_eq w w'" by blast
  have st: "st\<lparr>last_scheduled_user := sp_last s\<rparr> = st" using d(7) by simp
  show ?thesis
    by (rule takes_nextI [OF q _ w'(2,3), where l = "sp_last s"])
      (use pol d(6) q(2) w'(1) st js in \<open>simp_all add: dequeue_next_def may_pick_def\<close>)
qed

lemma fair_next:
  assumes rep: "ctl_rep st w s" and ne: "sp_waiting s \<noteq> []" and n: "3 * int (length (sp_users s)) < 2 ^ 31"
    and pol: "sp_policy s = ''fair''"
  shows "takes_next st w s"
proof -
  note d = ctl_repD [OF rep]
  from d(1) obtain a b where q: "a \<noteq> b" "waiting_queue st = At a" "running_queue st = At b"
      and st: "store w (queue_pair a b (sp_waiting s) (sp_running s))" by (rule queues_repE)
  note upd = queue_pair_upd [OF q(1)]
  have take: "takes_next st w s" if w': "queue_dequeue_fair (At a) (fair_users st) (fair_user_count st) (Var (Some (sp_last s))) (Var None) w =
        Some (True, Var (Some (user_id j)), Var (Some j), w')" "store w' ((queue_pair a b (sp_waiting s) (sp_running s))(a \<mapsto> ys @ zs))"
        "env_eq w w'" and pick: "may_pick (may_fail w) s ys j zs" for ys j zs w'
    by (rule takes_nextI [OF q _ w'(2,3) pick, where l = "user_id j"])
      (use pol d(6,7) q(2) w'(1) in \<open>simp_all add: dequeue_next_def is_fair_policy_def\<close>)
  show ?thesis
  proof (cases "malloc_ok w (tick w)")
    case True
    obtain ys j zs where sp: "split_first (\<lambda>j. user_id j = fair_user (sp_users s) (sp_last s) (users_of (sp_waiting s)))
          (sp_waiting s) = Some (ys, j, zs)" and js: "sp_waiting s = ys @ j # zs"
        and u: "user_id j = fair_user (sp_users s) (sp_last s) (users_of (sp_waiting s))"
      by (rule fair_split [OF ne])
    from queue_dequeue_fair_ok [OF st upd(1) True, of "Var None" "fair_users st" "sp_users s", OF _ _ n sp] d(2)
    obtain w' where w': "queue_dequeue_fair (At a) (fair_users st) (fair_user_count st) (Var (Some (sp_last s))) (Var None) w =
          Some (True, Var (Some (user_id j)), Var (Some j), w')"
        "store w' ((queue_pair a b (sp_waiting s) (sp_running s))(a \<mapsto> ys @ zs))" "env_eq w w'"
      by (auto simp: users_rep_def)
    show ?thesis by (rule take [OF w']) (use js u split_first_SomeD [OF sp] pol in \<open>auto simp: may_pick_def\<close>)
  next
    case False
    then have mf: "may_fail w" by (auto simp: may_fail_def)
    obtain j js where js: "sp_waiting s = j # js" using ne by (cases "sp_waiting s") auto
    from queue_dequeue_fair_nomem [OF st, of a j js "Var None" "fair_users st" "fair_user_count st" "Some (sp_last s)"] js upd(1) False
    obtain w' where w': "queue_dequeue_fair (At a) (fair_users st) (fair_user_count st) (Var (Some (sp_last s))) (Var None) w =
          Some (True, Var (Some (user_id j)), Var (Some j), w')"
        "store w' ((queue_pair a b (sp_waiting s) (sp_running s))(a \<mapsto> [] @ js))" "env_eq w w'" by auto
    show ?thesis by (rule take [OF w']) (use js pol mf in \<open>simp add: may_pick_def\<close>)
  qed
qed

lemma fcfs_next:
  assumes rep: "ctl_rep st w s" and ne: "sp_waiting s \<noteq> []" and pol: "sp_policy s \<noteq> ''random''" "sp_policy s \<noteq> ''fair''"
  shows "takes_next st w s"
proof -
  note d = ctl_repD [OF rep]
  from d(1) obtain a b where q: "a \<noteq> b" "waiting_queue st = At a" "running_queue st = At b"
      and st: "store w (queue_pair a b (sp_waiting s) (sp_running s))" by (rule queues_repE)
  obtain j js where js: "sp_waiting s = j # js" using ne by (cases "sp_waiting s") auto
  from queue_dequeue_ok [OF st, of a j js "Var None"] js queue_pair_upd(1) [OF q(1)]
  obtain w' where w': "queue_dequeue (At a) (Var None) w = Some (True, Var (Some j), w')"
      "store w' ((queue_pair a b (sp_waiting s) (sp_running s))(a \<mapsto> [] @ js))" "env_eq w w'" by auto
  have st: "st\<lparr>last_scheduled_user := sp_last s\<rparr> = st" using d(7) by simp
  show ?thesis
    by (rule takes_nextI [OF q _ w'(2,3), where l = "sp_last s"])
      (use pol d(6) q(2) w'(1) st js in \<open>simp_all add: dequeue_next_def is_fair_policy_def may_pick_def\<close>)
qed

lemma dequeue_next_ok:
  assumes rep: "ctl_rep st w s" and ne: "sp_waiting s \<noteq> []" and n: "3 * int (length (sp_users s)) < 2 ^ 31"
  obtains ys j zs l w' where "dequeue_next st w = Some (True, Var (Some j), st\<lparr>last_scheduled_user := l\<rparr>, w')"
    and "may_pick (may_fail w) s ys j zs" and "l = sp_last s \<or> l = user_id j"
    and "queues_rep st w' (ys @ zs) (sp_running s)" and "env_eq w w'"
proof -
  have "takes_next st w s" using random_next [OF rep ne] fair_next [OF rep ne n] fcfs_next [OF rep ne] by blast
  then show thesis using that unfolding takes_next_def by blast
qed

text \<open>The loop that starts waiting jobs.\<close>

abbreviation with_queues :: "spec \<Rightarrow> job_info list \<Rightarrow> job_info list \<Rightarrow> int \<Rightarrow> spec" where
  "with_queues s ws rs l \<equiv> s\<lparr>sp_waiting := ws, sp_running := rs, sp_last := l\<rparr>"

lemma users_rep_cong:
  assumes "fair_users st' = fair_users st" and "fair_user_count st' = fair_user_count st"
    and "fair_user_capacity st' = fair_user_capacity st"
  shows "users_rep st' us = users_rep st us"
  using assms by (simp add: users_rep_def)

lemma env_eq_blocks: "env_eq w w' \<Longrightarrow> blocks w' = blocks w"
  by (simp add: env_eq_def)

lemma ctl_rep_outputs: "outputs w es w' \<Longrightarrow> ctl_rep st w' s = ctl_rep st w s"
  by (simp add: ctl_rep_def queues_rep_outputs outputs_blocks)

text \<open>Rebuilding the relation when one queue has changed.\<close>

lemma ctl_rep_env:
  assumes rep: "ctl_rep st w s" and q: "queues_rep st w' ws rs" and b: "blocks w' = blocks w"
  shows "ctl_rep (st\<lparr>running_count := int (length rs), last_scheduled_user := l\<rparr>) w' (with_queues s ws rs l)"
  using ctl_repD [OF rep] q b by (intro ctl_repI) (auto simp: queues_rep_def users_rep_def)

text \<open>A job that is taken for a free slot is moved to the running queue, or dropped when that fails.\<close>

lemma job_moved:
  assumes rep: "ctl_rep st w s" and env: "env_eq w w2" and q: "queues_rep st w2 ws (sp_running s @ [started j])"
  obtains es where "ctl_rep (st\<lparr>running_count := running_count st + 1, last_scheduled_user := user_id j\<rparr>)
      (send_ack_to_runner (started j) w2) (with_queues s ws (sp_running s @ [started j]) (user_id j))"
    and "effect w es (send_ack_to_runner (started j) w2)" and "sends w es [ack (self_pid w) (started j)] []"
proof -
  obtain es where es: "outputs w2 es (send_ack_to_runner (started j) w2)" "sends w2 es [ack (self_pid w2) (started j)] []"
    using send_ack_outputs by blast
  have "ctl_rep (st\<lparr>running_count := int (length (sp_running s @ [started j])), last_scheduled_user := user_id j\<rparr>) w2
      (with_queues s ws (sp_running s @ [started j]) (user_id j))" by (rule ctl_rep_env [OF rep q env_eq_blocks [OF env]])
  then have "ctl_rep (st\<lparr>running_count := running_count st + 1, last_scheduled_user := user_id j\<rparr>)
      (send_ack_to_runner (started j) w2) (with_queues s ws (sp_running s @ [started j]) (user_id j))"
    using ctl_repD(4) [OF rep] by (simp add: ctl_rep_outputs [OF es(1)] add.commute)
  then show thesis
    using effect_env_trans [OF env outputs_effect [OF es(1)]] es(2) effect_cong(3,4) [OF effect_env [OF env]] that by simp
qed

lemma job_dropped:
  assumes rep: "ctl_rep st w s" and env: "env_eq w w2" and q: "queues_rep st w2 ws (sp_running s)"
  shows "ctl_rep (st\<lparr>last_scheduled_user := l\<rparr>) (emit (Err t) w2) (s\<lparr>sp_waiting := ws, sp_last := l\<rparr>)"
    and "effect w [Err t] (emit (Err t) w2)"
proof -
  have e: "outputs w2 [Err t] (emit (Err t) w2)" using outputs_emit [OF outputs_refl, of w2] by simp
  show "effect w [Err t] (emit (Err t) w2)" by (rule effect_env_trans [OF env outputs_effect [OF e]])
  have "ctl_rep (st\<lparr>last_scheduled_user := l\<rparr>) w2 (s\<lparr>sp_waiting := ws, sp_last := l\<rparr>)"
    using ctl_repD [OF rep] q env_eq_blocks [OF env] by (intro ctl_repI) (auto simp: queues_rep_def users_rep_def)
  then show "ctl_rep (st\<lparr>last_scheduled_user := l\<rparr>) (emit (Err t) w2) (s\<lparr>sp_waiting := ws, sp_last := l\<rparr>)"
    by (simp add: ctl_rep_outputs [OF e])
qed

lemma start_waiting_jobs_ok:
  assumes "ctl_rep st w s" and "3 * int (length (sp_users s)) < 2 ^ 31" and "sp_limit s < 2 ^ 31"
  shows "\<exists>st' w' s' js es. start_waiting_jobs st w = Some (st', w') \<and> promotes (may_fail w) s js s' \<and>
    ctl_rep st' w' s' \<and> effect w es w' \<and> sends w es (map (ack (self_pid w)) js) []"
  using assms
proof (induction "length (sp_waiting s)" arbitrary: st w s rule: less_induct)
  case less
  note rep = ctl_repD [OF less.prems(1)]
  show ?case
  proof (cases "int (length (sp_running s)) < sp_limit s \<and> sp_waiting s \<noteq> []")
    case False
    then have "start_waiting_jobs st w = Some (st, w)"
      using rep(4,5) waiting_is_empty [OF rep(1)] by (subst start_waiting_jobs.simps) auto
    moreover have "promotes (may_fail w) s [] s" using False by (intro promote_stop) auto
    ultimately show ?thesis using less.prems(1) effect_refl sends_Nil by fastforce
  next
    case True
    from dequeue_next_ok [OF less.prems(1) conjunct2 [OF True] less.prems(2)]
    obtain ys j zs l w1 where deq: "dequeue_next st w = Some (True, Var (Some j), st\<lparr>last_scheduled_user := l\<rparr>, w1)"
      and pick: "may_pick (may_fail w) s ys j zs" and l: "l = sp_last s \<or> l = user_id j"
      and q1: "queues_rep st w1 (ys @ zs) (sp_running s)" and env1: "env_eq w w1" .
    let ?st1 = "st\<lparr>last_scheduled_user := l\<rparr>" and ?j = "started j" and ?t = "''failed to move job to running queue''"
    have len: "length (ys @ zs) < length (sp_waiting s)" using may_pick_waiting [OF pick] by simp
    have rlen: "int (length (sp_running s)) + 1 < 2 ^ 31" using True less.prems(3) by simp
    have unfold: "start_waiting_jobs st w = do {
        (ok, w2) \<leftarrow> queue_enqueue (running_queue st) (Var (Some ?j)) w1;
        if \<not> ok then start_waiting_jobs ?st1 (emit (Err ?t) w2)
        else do {
          n \<leftarrow> c_int (running_count ?st1 + 1);
          start_waiting_jobs (?st1\<lparr>running_count := n, last_scheduled_user := user_id ?j\<rparr>) (send_ack_to_runner ?j w2) } }"
      using True rep(4,5) waiting_is_empty [OF rep(1)] deq by (subst start_waiting_jobs.simps) (simp add: Let_def)
    from q1 rlen show ?thesis
    proof (cases rule: running_enqueue [where j = "?j"])
      case (1 w2)
      let ?st2 = "st\<lparr>running_count := running_count st + 1, last_scheduled_user := user_id j\<rparr>"
      let ?s2 = "with_queues s (ys @ zs) (sp_running s @ [?j]) (user_id j)"
      obtain e1 where m: "ctl_rep ?st2 (send_ack_to_runner ?j w2) ?s2" "effect w e1 (send_ack_to_runner ?j w2)"
        "sends w e1 [ack (self_pid w) ?j] []" by (rule job_moved [OF less.prems(1) env_eq_trans [OF env1 1(3)] 1(2)])
      from less.hyps [OF _ m(1)] len less.prems obtain st' w' s' js es
        where ih: "start_waiting_jobs ?st2 (send_ack_to_runner ?j w2) = Some (st', w')"
          "promotes (may_fail w) ?s2 js s'" "ctl_rep st' w' s'" "effect (send_ack_to_runner ?j w2) es w'"
          "sends w es (map (ack (self_pid w)) js) []"
        by (auto simp: effect_cong [OF m(2)])
      have "start_waiting_jobs st w = Some (st', w')" using unfold 1(1) rlen rep(4) ih(1) by simp
      moreover have "promotes (may_fail w) s (?j # js) s'"
        by (rule promote_start [OF conjunct1 [OF True] pick]) (use ih(2) in simp)
      moreover have "sends w (e1 @ es) (map (ack (self_pid w)) (?j # js)) []" using sends_append [OF m(3) ih(5)] by simp
      ultimately show ?thesis using ih(3) effect_trans [OF m(2) ih(4)] by blast
    next
      case (2 w2)
      have mf: "may_fail w" using 2(1) effect_cong(2) [OF effect_env [OF env1]] by simp
      note m = job_dropped(1) [OF less.prems(1) env_eq_trans [OF env1 2(4)] 2(3), of l ?t]
        job_dropped(2) [OF less.prems(1) env_eq_trans [OF env1 2(4)] 2(3), of ?t]
      from less.hyps [OF _ m(1)] len less.prems obtain st' w' s' js es
        where ih: "start_waiting_jobs ?st1 (emit (Err ?t) w2) = Some (st', w')"
          "promotes (may_fail w) (s\<lparr>sp_waiting := ys @ zs, sp_last := l\<rparr>) js s'" "ctl_rep st' w' s'" "effect (emit (Err ?t) w2) es w'"
          "sends w es (map (ack (self_pid w)) js) []"
        by (auto simp: effect_cong [OF m(2)])
      have "start_waiting_jobs st w = Some (st', w')" using unfold 2(2) ih(1) by simp
      moreover have "promotes (may_fail w) s js s'" by (rule promote_drop [OF mf conjunct1 [OF True] pick l ih(2)])
      moreover have "sends w ([Err ?t] @ es) (map (ack (self_pid w)) js) []" using ih(5) by (simp add: sends_def)
      ultimately show ?thesis using ih(3) effect_trans [OF m(2) ih(4)] by blast
    qed
  qed
qed

subsection \<open>The array of users\<close>

lemma users_search:
  assumes "users_rep st us"
  shows "for_find (\<lambda>i. do { fu \<leftarrow> fair_users st; u \<leftarrow> rd fu i; Some (u = uid) }) 0 (nat (fair_user_count st)) =
    Some (first_index (\<lambda>u. u = uid) 0 us)"
proof (cases "fair_users st")
  case None
  with assms show ?thesis by (simp add: users_rep_def array_rep_def first_index_def)
next
  case (Some b)
  with assms for_find_holds [of b us "\<lambda>u. u = uid"] show ?thesis by (simp add: users_rep_def array_rep_def)
qed

lemma realloc_grow:
  assumes "array_rep f us" and "case f of None \<Rightarrow> n = 8 | Some b \<Rightarrow> length b = length us \<and> int (length us) < n"
    and "malloc_ok w (tick w)"
  obtains b where "realloc_block f n w = (Some b, w\<lparr>tick := Suc (tick w),
      blocks := if f = None then Suc (blocks w) else blocks w\<rparr>)"
    and "holds b us" and "length us < length b" and "int (length b) = n"
proof (cases f)
  case None
  with assms show thesis
    by (intro that [of "uninit 8"]) (auto simp: realloc_block_def malloc_try_def array_rep_def)
next
  case (Some c)
  with assms show thesis
    by (intro that [of "c @ uninit (n - int (length c))"])
      (auto simp: realloc_block_def malloc_try_def array_rep_def holds_def)
qed

lemma holds_block_cases: "array_rep f us \<Longrightarrow> case f of None \<Rightarrow> us = [] | Some b \<Rightarrow> holds b us \<and> length us \<le> length b"
  by (auto simp: array_rep_def holds_def split: option.splits)

definition user_frame :: "controller_state \<Rightarrow> controller_state \<Rightarrow> bool" where
  "user_frame st st' \<longleftrightarrow> (\<exists>f n c. st' = st\<lparr>fair_users := f, fair_user_count := n, fair_user_capacity := c\<rparr>)"

lemma user_frame_refl [simp]: "user_frame st st"
  unfolding user_frame_def by (rule exI [of _ "fair_users st"], rule exI [of _ "fair_user_count st"],
    rule exI [of _ "fair_user_capacity st"]) simp

definition remembers :: "controller_state \<Rightarrow> world \<Rightarrow> int list \<Rightarrow> int \<Rightarrow> controller_state \<Rightarrow> world \<Rightarrow> int list \<Rightarrow> bool" where
  "remembers st w us u st' w' us' \<longleftrightarrow> users_rep st' us' \<and> (us' = add_user u us \<or> may_fail w \<and> us' = us) \<and> user_frame st st' \<and>
     (\<exists>es t. (\<exists>s. es = [] \<or> es = [Err s]) \<and> tick w \<le> t \<and>
       w' = w\<lparr>tick := t, events := events w @ es, blocks := if fair_users st' = None then 0 else 1\<rparr>)"

lemma remembersI:
  assumes "users_rep st' us'" and "us' = add_user u us \<or> may_fail w \<and> us' = us" and "user_frame st st'"
    and "tick w \<le> t" and "es = [] \<or> es = [Err s]"
    and "w' = w\<lparr>tick := t, events := events w @ es, blocks := if fair_users st' = None then 0 else 1\<rparr>"
  shows "remembers st w us u st' w' us'"
  using assms unfolding remembers_def by blast

text \<open>The user is not in the table: it is written behind the others, into the block there is or a larger one.\<close>

lemma write_user:
  assumes b: "holds b us" "length us < length b" and new: "u \<notin> set us"
    and w': "w' = w\<lparr>tick := t, events := events w @ [], blocks := 1\<rparr>" "tick w \<le> t" and nc: "int (length b) = nc"
  shows "remembers st w us u (st\<lparr>fair_users := Some (b[length us := Some u]), fair_user_capacity := nc,
    fair_user_count := int (length us) + 1\<rparr>) w' (us @ [u])"
proof (rule remembersI [where t = t and es = "[]"])
  let ?st' = "st\<lparr>fair_users := Some (b[length us := Some u]), fair_user_capacity := nc, fair_user_count := int (length us) + 1\<rparr>"
  show "users_rep ?st' (us @ [u])" using holds_write(2) [OF b, of u] nc by (simp add: users_rep_def array_rep_def)
  show "user_frame st ?st'" unfolding user_frame_def
    by (rule exI [of _ "Some (b[length us := Some u])"], rule exI [of _ "int (length us) + 1"], rule exI [of _ nc]) simp
qed (use new w' in \<open>simp_all add: add_user_def\<close>)

lemma remember_room:
  assumes rep: "users_rep st us" and bl: "blocks w = (if fair_users st = None then 0 else 1)" and new: "u \<notin> set us"
    and n: "3 * (int (length us) + 1) < 2 ^ 31" and room: "fair_user_count st \<noteq> fair_user_capacity st"
  shows "\<exists>st' w' us'. remember_fair_user st u w = Some (st', w') \<and> remembers st w us u st' w' us'"
proof -
  have c: "fair_user_count st = int (length us)" and arr: "array_rep (fair_users st) us"
    and cap: "fair_user_capacity st = (case fair_users st of None \<Rightarrow> 0 | Some b \<Rightarrow> int (length b))"
    using rep by (simp_all add: users_rep_def)
  obtain b where b: "fair_users st = Some b" "holds b us" "length us < length b"
    using room c cap holds_block_cases [OF arr] by (cases "fair_users st") auto
  have nc: "int (length b) = fair_user_capacity st" using cap b(1) by simp
  have w: "w = w\<lparr>tick := tick w, events := events w @ [], blocks := 1\<rparr>" using bl b(1) by simp
  have cn: "c_int (int (length us) + 1) = Some (int (length us) + 1)" using n by simp
  have "first_index (\<lambda>u'. u' = u) 0 us = - 1" using new by (auto simp: first_index_minus1)
  then have "remember_fair_user st u w = Some (st\<lparr>fair_users := Some (b[length us := Some u]), fair_user_capacity := fair_user_capacity st,
      fair_user_count := int (length us) + 1\<rparr>, w)"
    unfolding remember_fair_user_def users_search [OF rep] using room c b cn holds_write(1) [OF b(2,3)] by simp
  then show ?thesis using write_user [OF b(2,3) new w order_refl nc, of st] by blast
qed

lemma remember_full:
  assumes rep: "users_rep st us" and bl: "blocks w = (if fair_users st = None then 0 else 1)" and new: "u \<notin> set us"
    and n: "3 * (int (length us) + 1) < 2 ^ 31" and full: "fair_user_count st = fair_user_capacity st"
  shows "\<exists>st' w' us'. remember_fair_user st u w = Some (st', w') \<and> remembers st w us u st' w' us'"
proof -
  have c: "fair_user_count st = int (length us)" and arr: "array_rep (fair_users st) us"
    and cap: "fair_user_capacity st = (case fair_users st of None \<Rightarrow> 0 | Some b \<Rightarrow> int (length b))"
    using rep by (simp_all add: users_rep_def)
  define nc where "nc = (if fair_user_capacity st = 0 then 8 else fair_user_capacity st * 2)"
  have nc: "(if fair_user_capacity st = 0 then Some 8 else c_int (fair_user_capacity st * 2)) = Some nc"
    using full c n by (simp add: nc_def)
  have cn: "c_int (int (length us) + 1) = Some (int (length us) + 1)" using n by simp
  have "first_index (\<lambda>u'. u' = u) 0 us = - 1" using new by (auto simp: first_index_minus1)
  note unf = remember_fair_user_def users_search [OF rep] this
  show ?thesis
  proof (cases "malloc_ok w (tick w)")
    case True
    have "case fair_users st of None \<Rightarrow> nc = 8 | Some b \<Rightarrow> length b = length us \<and> int (length us) < nc"
      using full c cap by (auto simp: nc_def split: option.splits)
    from realloc_grow [OF arr this True] obtain b where
      b: "realloc_block (fair_users st) nc w = (Some b, w\<lparr>tick := Suc (tick w),
          blocks := if fair_users st = None then Suc (blocks w) else blocks w\<rparr>)"
        "holds b us" "length us < length b" "int (length b) = nc" .
    have w': "w\<lparr>tick := Suc (tick w), blocks := if fair_users st = None then Suc (blocks w) else blocks w\<rparr> =
        w\<lparr>tick := Suc (tick w), events := events w @ [], blocks := 1\<rparr>" using bl by simp
    have "remember_fair_user st u w = Some (st\<lparr>fair_users := Some (b[length us := Some u]), fair_user_capacity := nc,
        fair_user_count := int (length us) + 1\<rparr>, w\<lparr>tick := Suc (tick w), events := events w @ [], blocks := 1\<rparr>)"
      unfolding unf using full c nc b(1) cn holds_write(1) [OF b(2,3)] by (simp add: w')
    then show ?thesis using write_user [OF b(2,3) new refl _ b(4), of w "Suc (tick w)" st] by auto
  next
    case False
    let ?w' = "w\<lparr>tick := Suc (tick w), events := events w @ [Err ''realloc''], blocks := if fair_users st = None then 0 else 1\<rparr>"
    have "remember_fair_user st u w = Some (st, ?w')"
      unfolding unf using full c nc False bl by (simp add: realloc_block_def malloc_try_def emit_def)
    moreover have "may_fail w" using False by (auto simp: may_fail_def)
    then have "remembers st w us u st ?w' us"
      using rep by (intro remembersI [where t = "Suc (tick w)" and es = "[Err ''realloc'']"]) simp_all
    ultimately show ?thesis by blast
  qed
qed

lemma remember_fair_user_ok:
  assumes rep: "users_rep st us" and bl: "blocks w = (if fair_users st = None then 0 else 1)"
    and n: "3 * (int (length us) + 1) < 2 ^ 31"
  shows "\<exists>st' w' us'. remember_fair_user st u w = Some (st', w') \<and> remembers st w us u st' w' us'"
proof (cases "u \<in> set us")
  case True
  then have "first_index (\<lambda>u'. u' = u) 0 us \<noteq> - 1" by (simp add: first_index_minus1)
  then have "remember_fair_user st u w = Some (st, w)"
    unfolding remember_fair_user_def users_search [OF rep] by simp
  moreover have "w = w\<lparr>tick := tick w, events := events w @ [], blocks := if fair_users st = None then 0 else 1\<rparr>"
    using bl by simp
  then have "remembers st w us u st w us"
    using rep True by (intro remembersI [where t = "tick w" and es = "[]"]) (simp_all add: add_user_def)
  ultimately show ?thesis by blast
next
  case False
  then show ?thesis using remember_room [OF rep bl False n] remember_full [OF rep bl False n] by blast
qed

end
