(* ===== verification/Controller_Handlers.thy ===== *)
theory Controller_Handlers
  imports Controller_Refine
begin

text \<open>
  Each handler of the controller is defined on every state that the relation \<open>ctl_rep\<close> describes, for
  every outcome of allocations and system calls, and takes the step the specification names.
\<close>

subsection \<open>Submission\<close>

lemma store_update_blocks: "store (w\<lparr>tick := t, events := es, blocks := k\<rparr>) m = store w m"
  by (simp add: store_def store_at_def)

lemma remembers_rep:
  assumes rep: "ctl_rep st w s" and r: "remembers st w (sp_users s) u st' w' us"
  shows "ctl_rep st' w' (s\<lparr>sp_users := us\<rparr>)" and "users_after (may_fail w) s u us"
    and "\<exists>es. effect w es w' \<and> sends w es [] []"
proof -
  note d = ctl_repD [OF rep]
  from r obtain es t z where w': "w' = w\<lparr>tick := t, events := events w @ es, blocks := if fair_users st' = None then 0 else 1\<rparr>"
    and t: "tick w \<le> t" and es: "es = [] \<or> es = [Err z]" unfolding remembers_def by blast
  from r have fr: "user_frame st st'" and ur: "users_rep st' us" by (simp_all add: remembers_def)
  have q: "queues_rep st' w' (sp_waiting s) (sp_running s)"
    using d(1) fr by (auto simp: queues_rep_def user_frame_def w' store_update_blocks)
  show "ctl_rep st' w' (s\<lparr>sp_users := us\<rparr>)"
  proof (rule ctl_repI)
    show "blocks w' = (if fair_users st' = None then 0 else 1)" by (simp add: w')
  qed (use d fr ur q in \<open>auto simp: user_frame_def\<close>)
  show "users_after (may_fail w) s u us" using r by (simp add: remembers_def users_after_def)
  show "\<exists>es. effect w es w' \<and> sends w es [] []"
    using t es by (intro exI [of _ es]) (auto simp: effect_def sends_def w')
qed

definition clock_ok :: "'a os_scheme \<Rightarrow> bool" where
  "clock_ok w \<longleftrightarrow> (\<forall>t. sane_time (clock_out w t))"

definition handler_ok ::
  "world \<Rightarrow> spec \<Rightarrow> RpcMessage \<Rightarrow> (controller_state \<times> world) option \<Rightarrow> bool" where
  "handler_ok w s m r \<longleftrightarrow> (\<exists>st' w' s' es out logs. r = Some (st', w') \<and> spec_msg (may_fail w) (self_pid w) s m out logs s' \<and>
     ctl_rep st' w' s' \<and> effect w es w' \<and> sends w es out logs)"

lemma handler_okI:
  assumes "r = Some (st', w')" and "spec_msg (may_fail w) (self_pid w) s m out logs s'" and "ctl_rep st' w' s'"
    and "effect w es w'" and "sends w es out logs"
  shows "handler_ok w s m r"
  using assms unfolding handler_ok_def by blast

text \<open>What happens once the user has been remembered: the job is dropped, started or queued.\<close>

lemma submit_dropped_ok:
  assumes rep: "ctl_rep st2 w2 (s\<lparr>sp_users := us\<rparr>)" and e: "effect w es w2" "sends w es [] []"
    and m: "msg_type m = SUBMIT" and ua: "users_after (may_fail w) s (msg_user_id m) us" and fail: "may_fail w2"
    and q: "queues_rep st2 w3 (sp_waiting s) (sp_running s)" "env_eq w2 w3"
  shows "handler_ok w s m (Some (st2, emit (Err t) w3))"
proof (rule handler_okI [OF refl])
  have ew3: "effect w es w3" using effect_trans [OF e(1) effect_env [OF q(2)]] by simp
  show "effect w (es @ [Err t]) (emit (Err t) w3)" by (rule effect_emit [OF ew3])
  show "spec_msg (may_fail w) (self_pid w) s m [] [] (s\<lparr>sp_users := us\<rparr>)"
    using fail effect_cong(2) [OF e(1)] by (intro submit_lost [OF _ m ua]) simp
  have "ctl_rep st2 w3 (s\<lparr>sp_users := us\<rparr>)" using ctl_repD [OF rep] q(1) env_eq_blocks [OF q(2)] by (intro ctl_repI) simp_all
  then show "ctl_rep st2 (emit (Err t) w3) (s\<lparr>sp_users := us\<rparr>)" using ctl_rep_outputs [OF outputs_emit [OF outputs_refl]] by blast
qed (use e(2) in simp)

lemma submit_started_ok:
  assumes rep: "ctl_rep st2 w2 (s\<lparr>sp_users := us\<rparr>)" and e: "effect w es w2" "sends w es [] []"
    and m: "msg_type m = SUBMIT" and ua: "users_after (may_fail w) s (msg_user_id m) us" and sane: "sane_time now"
    and free: "int (length (sp_running s)) < sp_limit s" and lim: "sp_limit s < 2 ^ 31"
  shows "handler_ok w s m (do {
       (ok, w3) \<leftarrow> queue_enqueue (running_queue st2) (Var (Some (started (job_of m now)))) w2;
       if \<not> ok then Some (st2, emit (Err ''failed to enqueue running job'') w3)
       else do {
         n \<leftarrow> c_int (running_count st2 + 1);
         Some (st2\<lparr>running_count := n, last_scheduled_user := user_id (job_of m now)\<rparr>, send_ack_to_runner (started (job_of m now)) w3) } })"
proof -
  let ?job = "job_of m now" and ?rs = "sp_running s @ [started (job_of m now)]"
  let ?st = "st2\<lparr>running_count := int (length ?rs), last_scheduled_user := msg_user_id m\<rparr>"
    and ?s = "s\<lparr>sp_users := us, sp_running := ?rs, sp_last := msg_user_id m\<rparr>"
  note d = ctl_repD [OF rep]
  have rlen: "int (length (sp_running (s\<lparr>sp_users := us\<rparr>))) + 1 < 2 ^ 31" using free lim by simp
  from d(1) rlen show ?thesis
  proof (cases rule: running_enqueue [where j = "started ?job"])
    case (1 w3)
    obtain e3 where e3: "outputs w3 e3 (send_ack_to_runner (started ?job) w3)" "sends w3 e3 [ack (self_pid w3) (started ?job)] []"
      using send_ack_outputs by blast
    have ew3: "effect w es w3" using effect_trans [OF e(1) effect_env [OF 1(3)]] by simp
    show ?thesis
    proof (rule handler_okI [of _ ?st "send_ack_to_runner (started ?job) w3"])
      show "spec_msg (may_fail w) (self_pid w) s m [ack (self_pid w) ?job] [] ?s" by (rule submit_started [OF m sane ua free])
      have "ctl_rep ?st w3 (with_queues (s\<lparr>sp_users := us\<rparr>) (sp_waiting s) ?rs (msg_user_id m))"
        using 1(2) env_eq_blocks [OF 1(3)] by (intro ctl_rep_env [OF rep]) simp_all
      then show "ctl_rep ?st (send_ack_to_runner (started ?job) w3) ?s" by (simp add: ctl_rep_outputs [OF e3(1)])
      show "effect w (es @ e3) (send_ack_to_runner (started ?job) w3)" by (rule effect_trans [OF ew3 outputs_effect [OF e3(1)]])
      show "sends w (es @ e3) [ack (self_pid w) ?job] []"
        using sends_append [OF e(2), of e3 "[ack (self_pid w) ?job]" "[]"] e3(2) effect_cong(3,4) [OF ew3] by (simp add: ack_def)
    qed (use d(4,5) 1(1) rlen in \<open>simp add: job_of_def\<close>)
  next
    case (2 w3)
    show ?thesis using submit_dropped_ok [OF rep e m ua 2(1) _ 2(4)] 2(2,3) by simp
  qed
qed

lemma submit_queued_ok:
  assumes rep: "ctl_rep st2 w2 (s\<lparr>sp_users := us\<rparr>)" and e: "effect w es w2" "sends w es [] []"
    and m: "msg_type m = SUBMIT" and ua: "users_after (may_fail w) s (msg_user_id m) us" and sane: "sane_time now"
    and full: "\<not> int (length (sp_running s)) < sp_limit s" and len: "int (length (sp_waiting s)) + 1 < 2 ^ 31"
  shows "handler_ok w s m (do {
       (ok, w3) \<leftarrow> queue_enqueue (waiting_queue st2) (Var (Some (job_of m now))) w2;
       if \<not> ok then Some (st2, emit (Err ''failed to enqueue waiting job'') w3)
       else Some (st2, w3) })"
proof -
  let ?s = "s\<lparr>sp_users := us, sp_waiting := sp_waiting s @ [job_of m now]\<rparr>"
  note d = ctl_repD [OF rep]
  have wlen: "int (length (sp_waiting (s\<lparr>sp_users := us\<rparr>))) + 1 < 2 ^ 31" using len by simp
  from d(1) wlen show ?thesis
  proof (cases rule: waiting_enqueue [where j = "job_of m now"])
    case (1 w3)
    show ?thesis
    proof (rule handler_okI [of _ st2 w3])
      show "spec_msg (may_fail w) (self_pid w) s m [] [] ?s" using full by (intro submit_queued [OF m sane ua]) simp
      show "ctl_rep st2 w3 ?s" using d 1(2) env_eq_blocks [OF 1(3)] by (intro ctl_repI) simp_all
      show "effect w (es @ []) w3" by (rule effect_trans [OF e(1) effect_env [OF 1(3)]])
    qed (use 1(1) e(2) in simp_all)
  next
    case (2 w3)
    show ?thesis using submit_dropped_ok [OF rep e m ua 2(1) _ 2(4)] 2(2,3) by simp
  qed
qed

lemma handle_submit_ok:
  assumes rep: "ctl_rep st w s" and m: "msg_type m = SUBMIT" and clock: "clock_ok w"
    and n: "3 * (int (length (sp_users s)) + 1) < 2 ^ 31" and lim: "sp_limit s < 2 ^ 31"
    and len: "int (length (sp_waiting s)) + 1 < 2 ^ 31"
  shows "handler_ok w s m (handle_submit st m w)"
proof -
  let ?now = "clock_out w (tick w)" and ?w1 = "w\<lparr>tick := Suc (tick w)\<rparr>"
  have sane: "sane_time ?now" using clock by (simp add: clock_ok_def)
  have o1: "outputs w [] ?w1" by (auto simp: outputs_def intro!: exI [of _ "Suc (tick w)"])
  have rep1: "ctl_rep st ?w1 s" using rep by (simp add: ctl_rep_outputs [OF o1])
  note d1 = ctl_repD [OF rep1]
  obtain st2 w2 us where rem: "remember_fair_user st (msg_user_id m) ?w1 = Some (st2, w2)"
    and r: "remembers st ?w1 (sp_users s) (msg_user_id m) st2 w2 us"
    using remember_fair_user_ok [OF d1(2,3) n] by blast
  note rr = remembers_rep [OF rep1 r]
  from rr(3) obtain es where "effect ?w1 es w2" "sends ?w1 es [] []" by blast
  then have e: "effect w es w2" "sends w es [] []"
    using effect_trans [OF outputs_effect [OF o1]] effect_cong(4) [OF outputs_effect [OF o1]] by fastforce+
  have ua: "users_after (may_fail w) s (msg_user_id m) us"
    using rr(2) effect_cong(2) [OF outputs_effect [OF o1]] by simp
  have slot: "running_count st2 < parallel_limit st2 \<longleftrightarrow> int (length (sp_running s)) < sp_limit s"
    using ctl_repD(4,5) [OF rr(1)] by simp
  show ?thesis
    using submit_started_ok [OF rr(1) e m ua sane _ lim] submit_queued_ok [OF rr(1) e m ua sane _ len] rem slot
    unfolding handle_submit_def gettimeofday_def job_of_def Let_def by (simp cong: if_cong)
qed

subsection \<open>Completion\<close>

lemma elapsed_ms_sane:
  assumes "sane_time a" and "sane_time b"
  obtains ms where "elapsed_ms a b = Some ms"
proof -
  have d: "c_long (tv_sec b - tv_sec a) = Some (tv_sec b - tv_sec a)"
      "c_long ((tv_sec b - tv_sec a) * 1000) = Some ((tv_sec b - tv_sec a) * 1000)"
      "c_long (tv_usec b - tv_usec a) = Some (tv_usec b - tv_usec a)"
    using assms by (auto simp: sane_time_def c_long_def)
  let ?u = "(tv_usec b - tv_usec a) sdiv 1000"
  have "- 1000 \<le> ?u \<and> ?u \<le> 1000"
    using assms by (auto simp: sane_time_def signed_divide_int_def sgn_if)
  then have "c_long ((tv_sec b - tv_sec a) * 1000 + ?u) = Some ((tv_sec b - tv_sec a) * 1000 + ?u)"
    using assms by (auto simp: sane_time_def c_long_def)
  with d that show thesis by (simp add: elapsed_ms_def)
qed


lemma log_finished_job_ok:
  assumes "sane_time (start_time j)" and "clock_ok w"
  obtains es w' t ms where "log_finished_job j w = Some w'" and "outputs w es w'" and "sane_time t"
    and "elapsed_ms (start_time j) t = Some ms"
    and "sends w es [] [(''log.txt'', fit_buffer 256 (log_line j ms))]"
proof -
  have t: "sane_time (clock_out w (tick w))" using assms(2) by (simp add: clock_ok_def)
  obtain ms where ms: "elapsed_ms (start_time j) (clock_out w (tick w)) = Some ms"
    by (rule elapsed_ms_sane [OF assms(1) t])
  let ?l = "fit_buffer 256 (log_line j ms)" and ?t = "Suc (tick w)"
  have l: "length ?l \<le> 255" by (simp add: fit_buffer_def)
  show thesis
  proof (cases "sys_out w ?t < 0")
    case True
    show thesis
    proof (rule that [OF _ _ t ms])
      show "log_finished_job j w = Some (w\<lparr>tick := Suc ?t\<rparr>)"
        using True ms by (simp add: log_finished_job_def gettimeofday_def sys_eqs)
      show "outputs w [] (w\<lparr>tick := Suc ?t\<rparr>)" by (auto simp: outputs_def intro!: exI [of _ "Suc ?t"])
      show "sends w [] [] [(''log.txt'', ?l)]"
        using True sys_okD [of w ?t] by (auto simp: sends_def)
    qed
  next
    case opened: False
    show thesis
    proof (cases "sys_out w (Suc ?t) < 0")
      case True
      show thesis
      proof (rule that [OF _ _ t ms])
        show "log_finished_job j w = Some (w\<lparr>tick := Suc (Suc (Suc ?t))\<rparr>)"
          using True opened ms by (auto simp: log_finished_job_def gettimeofday_def sys_eqs)
        show "outputs w [] (w\<lparr>tick := Suc (Suc (Suc ?t))\<rparr>)"
          by (auto simp: outputs_def intro!: exI [of _ "Suc (Suc (Suc ?t))"])
        show "sends w [] [] [(''log.txt'', ?l)]"
          using True sys_okD [of w "Suc ?t"] by (auto simp: sends_def)
      qed
    next
      case False
      let ?e = "[Wrote_text ''log.txt'' ?l (min (sys_out w (Suc ?t)) (int (length ?l)))]"
      show thesis
      proof (rule that [OF _ _ t ms])
        show "log_finished_job j w = Some (w\<lparr>tick := Suc (Suc (Suc ?t)), events := events w @ ?e\<rparr>)"
          using False opened ms by (auto simp: log_finished_job_def gettimeofday_def sys_eqs Let_def)
        show "outputs w ?e (w\<lparr>tick := Suc (Suc (Suc ?t)), events := events w @ ?e\<rparr>)"
          by (auto simp: outputs_def intro!: exI [of _ "Suc (Suc (Suc ?t))"])
        have "min (sys_out w (Suc ?t)) (int (length ?l)) = int (length ?l)" if "sys_ok w"
          using that l by (auto simp: sys_ok_def dest: spec [of _ "Suc ?t"])
        then show "sends w ?e [] [(''log.txt'', ?l)]" by (auto simp: sends_def)
      qed
    qed
  qed
qed

lemma running_remove:
  assumes "queues_rep st w ws rs" and "split_first (\<lambda>j. command_id j = cid) rs = Some (ys, j, zs)"
  obtains w' where "queue_remove_by_command_id (running_queue st) cid (Var None) w = Some (True, Var (Some j), w')"
    and "queues_rep st w' ws (ys @ zs)" and "env_eq w w'"
proof -
  from assms(1) obtain a b where q: "a \<noteq> b" "waiting_queue st = At a" "running_queue st = At b"
      "store w (queue_pair a b ws rs)" by (rule queues_repE)
  note upd = queue_pair_upd [OF q(1)]
  from queue_remove_ok [OF q(4) upd(2) _ assms(2), of "Var None"] obtain w' where
    "queue_remove_by_command_id (At b) cid (Var None) w = Some (True, Var (Some j), w')"
    "store w' ((queue_pair a b ws rs)(b \<mapsto> ys @ zs))" "env_eq w w'" by blast
  with q upd that show thesis by (auto simp: queues_rep_def)
qed

lemma running_remove_absent:
  assumes "queues_rep st w ws rs" and "split_first (\<lambda>j. command_id j = cid) rs = None"
  shows "queue_remove_by_command_id (running_queue st) cid (Var None) w = Some (False, Var None, w)"
  using assms by (auto simp: queues_rep_def queue_pair_upd queue_remove_absent)

lemma handle_done_ok:
  assumes rep: "ctl_rep st w s" and inv: "spec_inv s" and m: "msg_type m = DONE" and clock: "clock_ok w"
    and n: "3 * int (length (sp_users s)) < 2 ^ 31" and lim: "sp_limit s < 2 ^ 31"
  shows "handler_ok w s m (handle_done st m w)"
proof (cases "split_first (\<lambda>j. command_id j = msg_command_id m) (sp_running s)")
  case None
  have unf: "handle_done st m w = start_waiting_jobs st w"
    using running_remove_absent [OF ctl_repD(1) [OF rep] None] by (simp add: handle_done_def)
  from start_waiting_jobs_ok [OF rep n lim] obtain st' w' s' js es where
    "start_waiting_jobs st w = Some (st', w')" and p: "promotes (may_fail w) s js s'" and "ctl_rep st' w' s'"
    "effect w es w'" "sends w es (map (ack (self_pid w)) js) []" by blast
  then show ?thesis unfolding unf
    by (intro handler_okI [OF _ done_unknown [OF m None p]])
next
  case (Some r)
  obtain ys j zs where r: "split_first (\<lambda>j. command_id j = msg_command_id m) (sp_running s) = Some (ys, j, zs)"
    using Some by (cases r) auto
  note js = split_first_SomeD [OF r]
  note d = ctl_repD [OF rep]
  obtain w1 where w1: "queue_remove_by_command_id (running_queue st) (msg_command_id m) (Var None) w = Some (True, Var (Some j), w1)"
      "queues_rep st w1 (sp_waiting s) (ys @ zs)" "env_eq w w1" by (rule running_remove [OF d(1) r])
  have sane: "sane_time (start_time j)" using inv js by (auto simp: spec_inv_def)
  have ew1: "effect w [] w1" by (rule effect_env [OF w1(3)])
  have "clock_ok w1" using clock w1(3) by (simp add: clock_ok_def env_eq_def)
  from log_finished_job_ok [OF sane this] obtain e2 w2 t ms where w2: "log_finished_job j w1 = Some w2" "outputs w1 e2 w2"
      and t: "sane_time t" and ms: "elapsed_ms (start_time j) t = Some ms"
      and s2: "sends w1 e2 [] [(''log.txt'', fit_buffer 256 (log_line j ms))]" .
  let ?st = "st\<lparr>running_count := int (length (ys @ zs)), last_scheduled_user := sp_last s\<rparr>"
  let ?s = "s\<lparr>sp_running := ys @ zs\<rparr>"
  have "ctl_rep ?st w1 (with_queues s (sp_waiting s) (ys @ zs) (sp_last s))"
    by (rule ctl_rep_env [OF rep w1(2) env_eq_blocks [OF w1(3)]])
  then have rep2: "ctl_rep ?st w2 ?s" by (simp add: ctl_rep_outputs [OF w2(2)])
  have st: "?st = st\<lparr>running_count := int (length (ys @ zs))\<rparr>" using d(7) by simp
  have cnt: "running_count st = int (length ys) + int (length zs) + 1" using d(4) js by simp
  have "int (length (sp_running s)) < 2 ^ 31" using inv lim by (simp add: spec_inv_def)
  then have c: "c_int (running_count st - 1) = Some (int (length (ys @ zs)))" using cnt d(4) js by simp
  have unf: "handle_done st m w = start_waiting_jobs ?st w2"
    using w1(1) w2(1) c cnt unfolding st by (simp add: handle_done_def)
  have ew2: "effect w e2 w2" using effect_trans [OF ew1 outputs_effect [OF w2(2)]] by simp
  note cong = effect_cong [OF ew2]
  have n': "3 * int (length (sp_users ?s)) < 2 ^ 31" and lim': "sp_limit ?s < 2 ^ 31" using n lim by simp_all
  from start_waiting_jobs_ok [OF rep2 n' lim'] obtain st' w' s' js' es where
    st': "start_waiting_jobs ?st w2 = Some (st', w')" and p: "promotes (may_fail w) ?s js' s'" and rep': "ctl_rep st' w' s'"
    and e: "effect w2 es w'" and sn: "sends w es (map (ack (self_pid w)) js') []" unfolding cong by blast
  have "sends w (e2 @ es) (map (ack (self_pid w)) js') [(''log.txt'', fit_buffer 256 (log_line j ms))]"
    using sends_append [OF s2 [unfolded effect_cong(4) [OF ew1]] sn] by simp
  then show ?thesis unfolding unf
    by (rule handler_okI [OF st' done_known [OF m r t ms p] rep' effect_trans [OF ew2 e]])
qed

subsection \<open>Status\<close>

lemma sys_write_msg_outputs:
  obtains n w' es where "sys_write_msg d m w = (n, w')" and "outputs w es w'" and "sends w es [(fd_path d, m)] []"
    and "sys_ok w \<longrightarrow> n = int sizeof_RpcMessage"
proof (cases "sys_out w (tick w) < 0")
  case True
  then show thesis
    using sys_okD [of w "tick w"]
    by (intro that [of "- 1" "w\<lparr>tick := Suc (tick w)\<rparr>" "[]"])
      (auto simp: sys_eqs outputs_def sends_def intro!: exI [of _ "Suc (tick w)"])
next
  case False
  let ?n = "min (sys_out w (tick w)) (int sizeof_RpcMessage)"
  from False show thesis
    using sys_okD [of w "tick w"]
    by (intro that [of ?n "w\<lparr>tick := Suc (tick w), events := events w @ [Wrote_msg (fd_path d) m ?n]\<rparr>" "[Wrote_msg (fd_path d) m ?n]"])
      (auto simp: sys_eqs outputs_def sends_def intro!: exI [of _ "Suc (tick w)"])
qed

lemma outputs_cong:
  assumes "outputs w es w'"
  shows "sys_ok w' = sys_ok w" and "may_fail w' = may_fail w" and "self_pid w' = self_pid w" and "sends w' = sends w"
  using effect_cong [OF outputs_effect [OF assms]] .

lemma status_text_payload: "status_text pid t\<lparr>payload := fit_buffer RPC_PAYLOAD_SIZE t'\<rparr> = status_text pid t'"
  by (simp add: status_text_def)

lemma write_status_message_ok:
  obtains r w' es where "write_status_message d (status_text pid t0) t w = (r, status_text pid t, w')"
    and "outputs w es w'" and "sends w es [(fd_path d, status_text pid t)] []" and "r = - 1 \<longrightarrow> \<not> sys_ok w"
proof -
  obtain n w' es where e: "sys_write_msg d (status_text pid t) w = (n, w')" "outputs w es w'"
      "sends w es [(fd_path d, status_text pid t)] []" "sys_ok w \<longrightarrow> n = int sizeof_RpcMessage"
    by (rule sys_write_msg_outputs)
  show thesis
  proof (cases "n = int sizeof_RpcMessage")
    case True
    show thesis
      by (rule that [of 0 w' es]) (use True e in \<open>auto simp: write_status_message_def status_text_payload\<close>)
  next
    case False
    show thesis
      by (rule that [of "- 1" "emit (Err ''write'') w'" "es @ [Err ''write'']"])
        (use False e outputs_emit [OF e(2)] in \<open>auto simp: write_status_message_def status_text_payload\<close>)
  qed
qed

lemma write_status_loop_ok:
  assumes "array_rep arr js" and "i + k = length js"
  shows "\<exists>t' w' es. write_status_loop k (int i) d (status_text pid t0) arr w = Some (status_text pid t', w') \<and>
    outputs w es w' \<and> sends w es (map (\<lambda>j. (fd_path d, status_text pid (status_line j))) (drop i js)) []"
  using assms(2)
proof (induction k arbitrary: i t0 w)
  case 0
  then have "write_status_loop 0 (int i) d (status_text pid t0) arr w = Some (status_text pid t0, w)" and "drop i js = []"
    by simp_all
  then show ?case using outputs_refl sends_Nil by fastforce
next
  case (Suc k)
  then obtain b where b: "arr = Some b" "holds b js" using assms(1) by (cases arr) (auto simp: array_rep_def)
  let ?j = "js ! i"
  have r: "rd b (int i) = Some ?j" using holds_rd [OF b(2), of "int i"] Suc.prems by simp
  have dr: "drop i js = ?j # drop (Suc i) js" using Suc.prems by (simp add: Cons_nth_drop_Suc)
  obtain n w' es where e: "sys_write_msg d (status_text pid (status_line ?j)) w = (n, w')" "outputs w es w'"
      "sends w es [(fd_path d, status_text pid (status_line ?j))] []" "sys_ok w \<longrightarrow> n = int sizeof_RpcMessage"
    by (rule sys_write_msg_outputs)
  show ?case
  proof (cases "n = int sizeof_RpcMessage")
    case True
    from Suc.IH [of "Suc i" "status_line ?j" w'] Suc.prems obtain t' w2 es2 where
      ih: "write_status_loop k (int i + 1) d (status_text pid (status_line ?j)) arr w' = Some (status_text pid t', w2)"
      "outputs w' es2 w2" "sends w' es2 (map (\<lambda>j. (fd_path d, status_text pid (status_line j))) (drop (Suc i) js)) []"
      by (auto simp: add.commute)
    have "write_status_loop (Suc k) (int i) d (status_text pid t0) arr w = Some (status_text pid t', w2)"
      using b(1) r e(1) True ih(1) by (simp add: status_text_payload)
    moreover have "sends w (es @ es2) (map (\<lambda>j. (fd_path d, status_text pid (status_line j))) (drop i js)) []"
      using sends_append [OF e(3) ih(3) [unfolded outputs_cong(4) [OF e(2)]]] dr by simp
    ultimately show ?thesis using outputs_trans [OF e(2) ih(2)] by blast
  next
    case False
    then have nok: "\<not> sys_ok w" using e(4) by blast
    have "write_status_loop (Suc k) (int i) d (status_text pid t0) arr w =
        Some (status_text pid (status_line ?j), emit (Err ''write'') w')"
      using b(1) r e(1) False by (simp add: status_text_payload)
    moreover have "sends w (es @ [Err ''write'']) (map (\<lambda>j. (fd_path d, status_text pid (status_line j))) (drop i js)) []"
      using sends_more [OF e(3) nok] dr by simp
    ultimately show ?thesis using outputs_emit [OF e(2)] by blast
  qed
qed

lemma finish_status_ok:
  assumes "blocks w = k + nb r + nb a" and "open_fds w = Suc f"
  shows "finish_status r a d w = Some (w\<lparr>tick := Suc (tick w), blocks := k, open_fds := f\<rparr>)"
  using assms by (simp add: finish_status_def free_opt_nb sys_close_eq)

text \<open>The whole answer; whatever the writes return, the arrays are freed and the pipe is closed.\<close>

text \<open>A section of the answer: its header, then a line for every job; it ends early when the header cannot be written.\<close>

lemma status_section:
  assumes r: "array_rep ra js"
  obtains (cut) m1 es w1 where "write_status_message d (status_text (self_pid w) t) h w = (- 1, m1, w1)" and "outputs w es w1"
      and "sends w es [(fd_path d, status_text (self_pid w) h)] []" and "\<not> sys_ok w"
  | (whole) n t' m1 w1 es w2 where "write_status_message d (status_text (self_pid w) t) h w = (n, m1, w1)" and "n \<noteq> - 1"
      and "write_status_loop (length js) 0 d m1 ra w1 = Some (status_text (self_pid w) t', w2)" and "outputs w es w2"
      and "sends w es ((fd_path d, status_text (self_pid w) h) # map (\<lambda>j. (fd_path d, status_text (self_pid w) (status_line j))) js) []"
proof -
  let ?p = "self_pid w"
  obtain n e1 w1 where 1: "write_status_message d (status_text ?p t) h w = (n, status_text ?p h, w1)" "outputs w e1 w1"
      "sends w e1 [(fd_path d, status_text ?p h)] []" "n = - 1 \<longrightarrow> \<not> sys_ok w" by (rule write_status_message_ok)
  show thesis
  proof (cases "n = - 1")
    case True
    then show thesis using cut 1 by simp
  next
    case False
    have "\<exists>t' w' es. write_status_loop (length js) (int 0) d (status_text ?p h) ra w1 = Some (status_text ?p t', w') \<and>
        outputs w1 es w' \<and> sends w1 es (map (\<lambda>j. (fd_path d, status_text ?p (status_line j))) (drop 0 js)) []"
      by (rule write_status_loop_ok [OF r]) simp
    then obtain t2 w2 e2 where 2: "write_status_loop (length js) 0 d (status_text ?p h) ra w1 = Some (status_text ?p t2, w2)"
        "outputs w1 e2 w2" "sends w1 e2 (map (\<lambda>j. (fd_path d, status_text ?p (status_line j))) js) []" by auto
    show thesis
      by (rule whole [OF 1(1) False 2(1) outputs_trans [OF 1(2) 2(2)]])
        (use sends_append [OF 1(3) 2(3) [unfolded outputs_cong(4) [OF 1(2)]]] in simp)
  qed
qed

lemma send_status_ok:
  assumes r: "array_rep ra rs" and a: "array_rep wa ws" and bl: "blocks w = k + nb ra + nb wa" and fds: "open_fds w = Suc f"
    and path: "fd_path d = runner_fifo (sender_pid m)"
  obtains es t where "send_status d ra (int (length rs)) wa (int (length ws)) w =
      Some (w\<lparr>tick := t, events := events w @ es, blocks := k, open_fds := f\<rparr>)" and "tick w \<le> t"
    and "sends w es (status_msgs (self_pid w) m rs ws) []"
proof -
  note concl = that
  let ?p = "self_pid w" and ?T = "\<lambda>t. (fd_path d, status_text (self_pid w) t)"
  let ?L = "\<lambda>h js. ?T h # map (\<lambda>j. ?T (status_line j)) js"
  let ?E = "(fd_path d, zero_msg\<lparr>msg_type := STATUS_END, sender_pid := ?p\<rparr>)"
  have msgs: "status_msgs ?p m rs ws = ?L executing_header rs @ ?L scheduled_header ws @ [?E]" by (simp add: status_msgs_def path)
  have s0: "zero_msg\<lparr>msg_type := STATUS_RESP, sender_pid := ?p\<rparr> = status_text ?p []"
    by (simp add: status_text_def fit_buffer_def zero_msg_def)
  have fin: thesis if "outputs w es w'" and "sends w es (status_msgs ?p m rs ws) []"
    and "send_status d ra (int (length rs)) wa (int (length ws)) w = finish_status ra wa d w'" for es w'
  proof -
    from that(1) obtain t where w': "w' = w\<lparr>tick := t, events := events w @ es\<rparr>" "tick w \<le> t" by (auto simp: outputs_def)
    have "finish_status ra wa d w' = Some (w'\<lparr>tick := Suc (tick w'), blocks := k, open_fds := f\<rparr>)"
      by (rule finish_status_ok) (simp_all add: w' bl fds)
    with that(3) w' have "send_status d ra (int (length rs)) wa (int (length ws)) w =
        Some (w\<lparr>tick := Suc t, events := events w @ es, blocks := k, open_fds := f\<rparr>)" by simp
    then show thesis by (rule concl) (use w'(2) that(2) in auto)
  qed
  from r show thesis
  proof (cases rule: status_section [where d = d and w = w and t = "[]" and h = executing_header])
    case (cut m1 e1 w1)
    show thesis
      by (rule fin [OF cut(2)]) (use sends_more [OF cut(3,4)] cut(1) in \<open>simp_all add: msgs send_status_def s0\<close>)
  next
    case 1: (whole n t1 m1 w1 e1 w2)
    have pid: "self_pid w2 = ?p" by (rule outputs_cong(3) [OF 1(4)])
    from a show thesis
    proof (cases rule: status_section [where d = d and w = w2 and t = t1 and h = scheduled_header])
      case (cut m2 e2 w3)
      note cut = cut [unfolded pid]
      note o = outputs_trans [OF 1(4) cut(2)]
      have s: "sends w (e1 @ e2) (?L executing_header rs @ [?T scheduled_header]) []"
        using sends_append [OF 1(5) cut(3) [unfolded outputs_cong(4) [OF 1(4)]]] by simp
      have "\<not> sys_ok w" using cut(4) outputs_cong(1) [OF 1(4)] by simp
      from sends_more [OF s this] show thesis
        by (intro fin [OF o]) (use 1(1-3) cut(1) in \<open>simp_all add: msgs send_status_def s0 write_status_jobs_def\<close>)
    next
      case 2: (whole n2 t2 m2 w3 e2 w4)
      note 2 = 2 [unfolded pid]
      note o = outputs_trans [OF 1(4) 2(4)]
      have s: "sends w (e1 @ e2) (?L executing_header rs @ ?L scheduled_header ws) []"
        using sends_append [OF 1(5) 2(5) [unfolded outputs_cong(4) [OF 1(4)]]] by simp
      have pid4: "self_pid w4 = ?p" by (rule outputs_cong(3) [OF o])
      obtain n e5 w5 where 5: "sys_write_msg d (snd ?E) w4 = (n, w5)" "outputs w4 e5 w5" "sends w4 e5 [?E] []"
          "sys_ok w4 \<longrightarrow> n = int sizeof_RpcMessage"
        using sys_write_msg_outputs [of d "snd ?E" w4] by (metis prod.collapse fst_conv)
      have s5: "sends w ((e1 @ e2) @ e5) (status_msgs ?p m rs ws) []"
        using sends_append [OF s 5(3) [unfolded outputs_cong(4) [OF o]]] unfolding msgs by simp
      let ?w6 = "if n \<noteq> int sizeof_RpcMessage then emit (Err ''write'') w5 else w5"
      have res: "send_status d ra (int (length rs)) wa (int (length ws)) w = finish_status ra wa d ?w6"
        using 1(1-3) 2(1-3) 5(1) pid4 by (simp add: send_status_def s0 write_status_jobs_def)
      from perror_outputs [OF outputs_trans [OF o 5(2)] s5, of "n \<noteq> int sizeof_RpcMessage" "''write''"] obtain e6 where
        "outputs w e6 ?w6" "sends w e6 (status_msgs ?p m rs ws) []" by blast
      then show thesis using fin res by blast
    qed
  qed
qed

lemma snapshot_alloc_cases:
  obtains arr t where "snapshot_alloc (int (length js)) w = (True, arr, w\<lparr>tick := t, blocks := blocks w + nb arr\<rparr>)"
    and "tick w \<le> t" and "case arr of None \<Rightarrow> js = [] | Some b \<Rightarrow> js \<noteq> [] \<and> length b = length js"
  | "may_fail w" and "snapshot_alloc (int (length js)) w = (False, None, w\<lparr>tick := Suc (tick w)\<rparr>)"
proof (cases "js = []")
  case True
  then show thesis by (intro that(1) [of None "tick w"]) (simp_all add: snapshot_alloc_def nb_def)
next
  case ne: False
  show thesis
  proof (cases "malloc_ok w (tick w)")
    case True
    with ne show thesis
      by (intro that(1) [of "Some (uninit (int (length js)))" "Suc (tick w)"])
        (simp_all add: snapshot_alloc_def malloc_block_def malloc_try_def nb_def)
  next
    case False
    with ne show thesis
      by (intro that(2)) (auto simp: snapshot_alloc_def malloc_block_def malloc_try_def may_fail_def)
  qed
qed

lemma snapshot_copy:
  assumes st: "store w mp" and b: "mp b = Some js"
    and arr: "case arr of None \<Rightarrow> js = [] | Some b \<Rightarrow> js \<noteq> [] \<and> length b = length js"
  obtains arr' where "queue_copy_to_array (At b) arr (int (length js)) w = Some (int (length js), arr')"
    and "array_rep arr' js" and "nb arr' = nb arr"
proof (cases arr)
  case None
  with arr that [of None] show thesis by (simp add: queue_copy_to_array_def array_rep_def)
next
  case (Some c)
  with arr queue_copy_to_array_ok [OF st b, of "length js" c] obtain c' where
    "queue_copy_to_array (At b) (Some c) (int (length js)) w = Some (int (length js), Some c')" "holds c' js" by auto
  with Some that show thesis by (simp add: array_rep_def nb_def)
qed

lemma snapshot_copy_fair:
  assumes st: "store w mp" and a: "mp a = Some js"
    and arr: "case arr of None \<Rightarrow> js = [] | Some b \<Rightarrow> js \<noteq> [] \<and> length b = length js"
    and fu: "array_rep f fu" "3 * int (length fu) < 2 ^ 31"
  obtains out arr' t where "queue_copy_fair_to_array (At a) arr (int (length js)) l f (int (length fu)) w =
      Some (int (length out), arr', w\<lparr>tick := t\<rparr>)" and "tick w \<le> t"
    and "array_rep arr' out" and "nb arr' = nb arr"
    and "out = fair_order fu l js \<or> (may_fail w \<or> - 1 \<in> user_id ` set js) \<and>
      ((\<exists>k. out = take k (fair_order fu l js)) \<or> out = js)"
proof (cases arr)
  case None
  with arr that [of "[]" None "tick w"] show thesis
    by (simp add: queue_copy_fair_to_array_def array_rep_def)
next
  case (Some c)
  with arr have ne: "js \<noteq> []" and len: "length c = length js" by simp_all
  then have mx: "length js \<le> length c" and pos: "0 < length js" by auto
  from queue_copy_fair_to_array_ok [OF st a mx ne pos fu, of l] obtain out c' t where
    r: "queue_copy_fair_to_array (At a) (Some c) (int (length js)) l f (int (length fu)) w =
      Some (int (length out), Some c', w\<lparr>tick := t\<rparr>)" "tick w \<le> t" "holds c' out" "length c' = length c"
    "(\<exists>k\<le>length js. out = take k (fair_order fu l js)) \<or> out = take (length js) js"
    "(\<forall>t. malloc_ok w t) \<and> - 1 \<notin> user_id ` set js \<longrightarrow> out = take (length js) (fair_order fu l js)" by blast
  have "out = fair_order fu l js \<or> (may_fail w \<or> - 1 \<in> user_id ` set js) \<and>
      ((\<exists>k. out = take k (fair_order fu l js)) \<or> out = js)"
  proof (cases "may_fail w \<or> - 1 \<in> user_id ` set js")
    case True
    then show ?thesis using r(5) by auto
  next
    case False
    then show ?thesis using r(6) by (simp add: may_fail_def)
  qed
  with Some r that [of out "Some c'" t] show thesis by (simp add: array_rep_def nb_def)
qed

lemma store_tick_blocks: "store (w\<lparr>tick := t, blocks := k\<rparr>) m = store w m"
  by (simp add: store_def store_at_def)

lemma status_okI:
  assumes rep: "ctl_rep st w s" and "r = Some w'" and o: "outputs w es w'"
    and "spec_msg (may_fail w) (self_pid w) s m out [] s" and "sends w es out []"
  shows "handler_ok w s m (map_option (Pair st) r)"
  by (rule handler_okI [of _ st w' _ _ _ out "[]" s es])
    (use assms ctl_rep_outputs [OF o] outputs_effect [OF o] in simp_all)

text \<open>The copy of the waiting jobs, in the order of the policy.\<close>

lemma waiting_snapshot:
  assumes rep: "ctl_rep st w s" and n: "3 * int (length (sp_users s)) < 2 ^ 31" and a: "waiting_queue st = At a"
    and st: "store w2 mp" "mp a = Some (sp_waiting s)" and fail: "may_fail w2 = may_fail w"
    and arr: "case wa of None \<Rightarrow> sp_waiting s = [] | Some b \<Rightarrow> sp_waiting s \<noteq> [] \<and> length b = length (sp_waiting s)"
  obtains wl wa' t where "(if is_fair_policy st then
        queue_copy_fair_to_array (waiting_queue st) wa (int (length (sp_waiting s))) (last_scheduled_user st)
          (fair_users st) (fair_user_count st) w2
      else do {
        (n, arr) \<leftarrow> queue_copy_to_array (waiting_queue st) wa (int (length (sp_waiting s))) w2;
        Some (n, arr, w2) }) = Some (int (length wl), wa', w2\<lparr>tick := t\<rparr>)"
    and "tick w2 \<le> t" and "array_rep wa' wl" and "nb wa' = nb wa" and "status_order (may_fail w) s wl"
proof (cases "is_fair_policy st")
  case True
  let ?ws = "sp_waiting s"
  note d = ctl_repD [OF rep]
  have users: "array_rep (fair_users st) (sp_users s)" and cnt: "fair_user_count st = int (length (sp_users s))"
    using d(2) by (simp_all add: users_rep_def)
  obtain wl wa' t where f: "queue_copy_fair_to_array (At a) wa (int (length ?ws)) (sp_last s) (fair_users st)
      (int (length (sp_users s))) w2 = Some (int (length wl), wa', w2\<lparr>tick := t\<rparr>)"
    "tick w2 \<le> t" "array_rep wa' wl" "nb wa' = nb wa"
    "wl = fair_order (sp_users s) (sp_last s) ?ws \<or> (may_fail w2 \<or> - 1 \<in> user_id ` set ?ws) \<and>
      ((\<exists>k. wl = take k (fair_order (sp_users s) (sp_last s) ?ws)) \<or> wl = ?ws)"
    by (rule snapshot_copy_fair [OF st arr users n])
  have "status_order (may_fail w) s wl"
    using f(5) True d(6) unfolding fail status_order_def is_fair_policy_def by simp
  then show thesis using f(1-4) True d(7) cnt a by (intro that [of wl wa' t]) simp_all
next
  case False
  obtain wa' where wa: "queue_copy_to_array (At a) wa (int (length (sp_waiting s))) w2 = Some (int (length (sp_waiting s)), wa')"
    "array_rep wa' (sp_waiting s)" "nb wa' = nb wa" by (rule snapshot_copy [OF st arr])
  have "status_order (may_fail w) s (sp_waiting s)"
    using False ctl_repD(6) [OF rep] by (simp add: status_order_def is_fair_policy_def)
  then show thesis using wa False a by (intro that [of "sp_waiting s" wa' "tick w2"]) simp_all
qed

text \<open>The answer, once both copies have been made.\<close>

lemma status_reply_ok:
  assumes ra: "array_rep ra rs" and wa: "array_rep wa wl" and t: "tick w \<le> t"
  obtains w' es where "(let (fd_resp, w4) = sys_open (runner_fifo (sender_pid m)) (w\<lparr>blocks := blocks w + nb ra + nb wa, tick := t\<rparr>) in
      if fd_num fd_resp = - 1 then do {
        w5 \<leftarrow> free_opt ra (emit (Err ''open response fifo'') w4);
        free_opt wa w5 }
      else send_status fd_resp ra (int (length rs)) wa (int (length wl)) w4) = Some w'"
    and "outputs w es w'" and "sends w es (status_msgs (self_pid w) m rs wl) []"
proof (cases "sys_out w t < 0")
  case True
  let ?e = "Err ''open response fifo''"
  show thesis
  proof (rule that)
    show "outputs w [?e] (w\<lparr>tick := Suc t, events := events w @ [?e]\<rparr>)"
      using t by (auto simp: outputs_def intro!: exI [of _ "Suc t"])
    show "sends w [?e] (status_msgs (self_pid w) m rs wl) []" using True sys_okD [of w t] by (auto simp: sends_def)
  qed (use True in \<open>simp add: sys_open_eq free_opt_nb emit_def\<close>)
next
  case False
  let ?w4 = "w\<lparr>blocks := blocks w + nb ra + nb wa, tick := Suc t, open_fds := Suc (open_fds w)\<rparr>"
    and ?d = "Fd (sys_out w t) (runner_fifo (sender_pid m))"
  have bl: "blocks ?w4 = blocks w + nb ra + nb wa" and fds: "open_fds ?w4 = Suc (open_fds w)"
    and pth: "fd_path ?d = runner_fifo (sender_pid m)" by simp_all
  obtain es t5 where e: "send_status ?d ra (int (length rs)) wa (int (length wl)) ?w4 =
      Some (?w4\<lparr>tick := t5, events := events ?w4 @ es, blocks := blocks w, open_fds := open_fds w\<rparr>)"
      "tick ?w4 \<le> t5" "sends ?w4 es (status_msgs (self_pid ?w4) m rs wl) []"
    by (rule send_status_ok [OF ra wa bl fds pth])
  show thesis
  proof (rule that)
    show "outputs w es (w\<lparr>tick := t5, events := events w @ es\<rparr>)"
      using t e(2) by (auto simp: outputs_def intro!: exI [of _ t5])
    show "sends w es (status_msgs (self_pid w) m rs wl) []" using e(3) by (simp add: sends_def sys_ok_def)
  qed (use False e(1) in \<open>simp add: sys_open_eq\<close>)
qed

lemma handle_status_req_ok:
  assumes rep: "ctl_rep st w s" and m: "msg_type m = STATUS_REQ"
    and n: "3 * int (length (sp_users s)) < 2 ^ 31"
  shows "handler_ok w s m (map_option (Pair st) (handle_status_req st m w))"
proof -
  note d = ctl_repD [OF rep]
  let ?ws = "sp_waiting s" and ?rs = "sp_running s"
  from d(1) obtain a b where q: "a \<noteq> b" "waiting_queue st = At a" "running_queue st = At b"
    and st: "store w (queue_pair a b ?ws ?rs)" by (rule queues_repE)
  note upd = queue_pair_upd [OF q(1)] and sizes = running_size [OF d(1)] waiting_size [OF d(1)]
  show ?thesis
  proof (cases rule: snapshot_alloc_cases [of ?rs w])
    case 2
    let ?e = "Err ''failed to allocate running queue snapshot''"
    show ?thesis
    proof (rule status_okI [OF rep])
      show "outputs w [?e] (emit ?e (w\<lparr>tick := Suc (tick w)\<rparr>))" by (auto simp: outputs_def emit_def intro!: exI [of _ "Suc (tick w)"])
      show "spec_msg (may_fail w) (self_pid w) s m [] [] s" by (rule status_failed [OF 2(1) m])
    qed (use 2(2) in \<open>simp_all add: sends_def handle_status_req_def sizes\<close>)
  next
    case (1 ra t1)
    let ?w1 = "w\<lparr>tick := t1, blocks := blocks w + nb ra\<rparr>"
    show ?thesis
    proof (cases rule: snapshot_alloc_cases [of ?ws ?w1])
      case 2
      let ?e = "Err ''failed to allocate waiting queue snapshot''"
      show ?thesis
      proof (rule status_okI [OF rep])
        show "outputs w [?e] (w\<lparr>tick := Suc t1, events := events w @ [?e]\<rparr>)"
          using 1(2) by (auto simp: outputs_def intro!: exI [of _ "Suc t1"])
        show "spec_msg (may_fail w) (self_pid w) s m [] [] s" using 2(1) by (intro status_failed [OF _ m]) (simp add: may_fail_def)
      qed (use 1(1) 2(2) in \<open>simp_all add: sends_def handle_status_req_def sizes free_opt_nb emit_def\<close>)
    next
      case w2: (1 wa t2)
      let ?w2 = "?w1\<lparr>tick := t2, blocks := blocks ?w1 + nb wa\<rparr>"
      have st2: "store ?w2 (queue_pair a b ?ws ?rs)" using st by (simp add: store_tick_blocks)
      obtain ra' where ra: "queue_copy_to_array (At b) ra (int (length ?rs)) ?w2 = Some (int (length ?rs), ra')"
          "array_rep ra' ?rs" "nb ra' = nb ra" by (rule snapshot_copy [OF st2 upd(2) 1(3)])
      have fail: "may_fail ?w2 = may_fail w" by (simp add: may_fail_def)
      obtain wl wa' t3 where wc: "(if is_fair_policy st then
          queue_copy_fair_to_array (waiting_queue st) wa (int (length ?ws)) (last_scheduled_user st) (fair_users st) (fair_user_count st) ?w2
        else do {
          (n, arr) \<leftarrow> queue_copy_to_array (waiting_queue st) wa (int (length ?ws)) ?w2;
          Some (n, arr, ?w2) }) = Some (int (length wl), wa', ?w2\<lparr>tick := t3\<rparr>)"
        "tick ?w2 \<le> t3" "array_rep wa' wl" "nb wa' = nb wa" "status_order (may_fail w) s wl"
        by (rule waiting_snapshot [OF rep n q(2) st2 upd(1) fail w2(3)])
      have t: "tick w \<le> t3" using 1(2) w2(2) wc(2) by simp
      obtain w' es where r: "(let (fd_resp, w4) = sys_open (runner_fifo (sender_pid m)) (w\<lparr>blocks := blocks w + nb ra' + nb wa', tick := t3\<rparr>) in
          if fd_num fd_resp = - 1 then do {
            w5 \<leftarrow> free_opt ra' (emit (Err ''open response fifo'') w4);
            free_opt wa' w5 }
          else send_status fd_resp ra' (int (length ?rs)) wa' (int (length wl)) w4) = Some w'"
        "outputs w es w'" "sends w es (status_msgs (self_pid w) m ?rs wl) []" by (rule status_reply_ok [OF ra(2) wc(3) t])
      have "handle_status_req st m w = Some w'"
        using r(1) 1(1) w2(1) ra(1,3) q(3) wc(1,4) unfolding handle_status_req_def sizes Let_def
        by (simp split del: if_split cong: if_cong)
      then show ?thesis by (rule status_okI [OF rep _ r(2) status_sent [OF m wc(5)] r(3)])
    qed
  qed
qed

subsection \<open>Shutdown and dispatch\<close>

lemma try_finish_shutdown_ok:
  assumes rep: "ctl_rep st w s" and fin: "finish s = (out, s')" and going: "\<not> sp_stop s"
  obtains r st' w' es where "try_finish_shutdown st w = Some (r, st', w')" and "ctl_rep st' w' s'"
    and "effect w es w'" and "sends w es out []" and "r \<noteq> 0 \<longleftrightarrow> sp_stop s'"
proof -
  note d = ctl_repD [OF rep]
  note empty = waiting_is_empty [OF d(1)]
  show thesis
  proof (cases "sp_shut s \<and> sp_running s = [] \<and> sp_waiting s = []")
    case True
    then have out: "out = [farewell s]" "s' = s\<lparr>sp_stop := True\<rparr>" using fin by (simp_all add: finish_def)
    obtain r w' es where e: "ipc_send_atomic (runner_fifo (sp_req s)) (zero_msg\<lparr>msg_type := SHUTDOWN_ACK\<rparr>) w = (r, w')"
        "outputs w es w'" "sends w es [(runner_fifo (sp_req s), zero_msg\<lparr>msg_type := SHUTDOWN_ACK\<rparr>)] []"
      by (rule ipc_send_atomic_outputs)
    show thesis
    proof (rule that)
      show "try_finish_shutdown st w = Some (1, st\<lparr>keep_running := False\<rparr>, w')"
        using True d(4,8,9) empty e(1) by (simp add: try_finish_shutdown_def)
      have "ctl_rep (st\<lparr>keep_running := False\<rparr>) w s'"
        using d out(2) by (intro ctl_repI) (simp_all add: queues_rep_def users_rep_def)
      then show "ctl_rep (st\<lparr>keep_running := False\<rparr>) w' s'" by (simp add: ctl_rep_outputs [OF e(2)])
      show "sends w es out []" using e(3) out(1) by (simp add: farewell_def)
    qed (use outputs_effect [OF e(2)] out(2) in simp_all)
  next
    case False
    then have out: "out = []" "s' = s" using fin by (auto simp: finish_def split: if_splits)
    have "try_finish_shutdown st w = Some (0, st, w)"
      using False d(4,8) empty by (auto simp: try_finish_shutdown_def)
    then show thesis by (rule that [where es = "[]"]) (use rep out going in simp_all)
  qed
qed

definition bounded :: "nat \<Rightarrow> spec \<Rightarrow> bool" where
  "bounded k s \<longleftrightarrow> 3 * int (length (sp_users s) + k) < 2 ^ 31 \<and> int (length (sp_waiting s) + k) < 2 ^ 31 \<and>
     sp_limit s < 2 ^ 31"

lemma promotes_waiting: "promotes fail s js s' \<Longrightarrow> length (sp_waiting s') \<le> length (sp_waiting s)"
proof (induction rule: promotes.induct)
  case (promote_start s ys j zs js s')
  then show ?case using may_pick_waiting [OF promote_start.hyps(2)] by simp
next
  case (promote_drop s ys j zs l js s')
  then show ?case using may_pick_waiting [OF promote_drop.hyps(3)] by simp
qed simp

lemma spec_msg_frame:
  assumes "spec_msg fail pid s m out logs s'"
  shows "sp_limit s' = sp_limit s" and "sp_policy s' = sp_policy s" and "sp_stop s' = sp_stop s"
    and "length (sp_users s') \<le> length (sp_users s) + 1" and "length (sp_waiting s') \<le> length (sp_waiting s) + 1"
  using assms
  by (cases rule: spec_msg.cases;
      force simp: users_after_def add_user_def dest: promotes_frame promotes_waiting)+

lemma spec_step_frame:
  assumes "spec_step fail pid s m out logs s'"
  shows "sp_limit s' = sp_limit s" and "sp_policy s' = sp_policy s"
    and "length (sp_users s') \<le> length (sp_users s) + 1" and "length (sp_waiting s') \<le> length (sp_waiting s) + 1"
  using assms
  by (cases rule: spec_step.cases; auto simp: finish_def dest: spec_msg_frame split: if_splits)+

lemma spec_step_bounded: "spec_step fail pid s m out logs s' \<Longrightarrow> bounded (Suc k) s \<Longrightarrow> bounded k s'"
  using spec_step_frame [of fail pid s m out logs s'] by (auto simp: bounded_def)

text \<open>Every message: the handler is defined and implements the specification.\<close>

text \<open>Every handler is followed by the test for the end of the shutdown.\<close>

definition message_ok ::
  "world \<Rightarrow> spec \<Rightarrow> RpcMessage \<Rightarrow> (int \<times> controller_state \<times> world) option \<Rightarrow> bool" where
  "message_ok w s m res \<longleftrightarrow> (\<exists>r st' w' s' es out logs. res = Some (r, st', w') \<and>
     spec_step (may_fail w) (self_pid w) s m out logs s' \<and> ctl_rep st' w' s' \<and> effect w es w' \<and> sends w es out logs \<and>
     (r \<noteq> 0 \<longleftrightarrow> sp_stop s'))"

lemma handler_finish:
  assumes h: "handler_ok w s m r0" and going: "\<not> sp_stop s" and open_for: "\<not> (msg_type m = SUBMIT \<and> sp_shut s)"
  shows "message_ok w s m (do { (st3, w3) \<leftarrow> r0; try_finish_shutdown st3 w3 })"
proof -
  from h obtain st1 w1 s1 e1 o1 l1 where 1: "r0 = Some (st1, w1)" "spec_msg (may_fail w) (self_pid w) s m o1 l1 s1"
      "ctl_rep st1 w1 s1" "effect w e1 w1" "sends w e1 o1 l1" unfolding handler_ok_def by blast
  obtain o2 s2 where f: "finish s1 = (o2, s2)" by (cases "finish s1")
  have "\<not> sp_stop s1" using going spec_msg_frame(3) [OF 1(2)] by simp
  from try_finish_shutdown_ok [OF 1(3) f this] obtain r st' w' e2 where 2: "try_finish_shutdown st1 w1 = Some (r, st', w')"
      "ctl_rep st' w' s2" "effect w1 e2 w'" "sends w1 e2 o2 []" "r \<noteq> 0 \<longleftrightarrow> sp_stop s2" .
  have "do { (st3, w3) \<leftarrow> r0; try_finish_shutdown st3 w3 } = Some (r, st', w')" using 1(1) 2(1) by simp
  moreover have "spec_step (may_fail w) (self_pid w) s m (o1 @ o2) l1 s2" using open_for by (intro handled [OF _ 1(2) f]) auto
  moreover have "effect w (e1 @ e2) w'" by (rule effect_trans [OF 1(4) 2(3)])
  moreover have "sends w (e1 @ e2) (o1 @ o2) l1" using sends_append [OF 1(5) 2(4) [unfolded effect_cong(4) [OF 1(4)]]] by simp
  ultimately show ?thesis using 2(2,5) unfolding message_ok_def by blast
qed

lemma refused_message_ok:
  assumes rep: "ctl_rep st w s" and going: "\<not> sp_stop s" and m: "msg_type m = SUBMIT" "sp_shut s"
  shows "message_ok w s m (controller_handle_message st m w)"
proof -
  obtain es where e: "outputs w es (send_shutdown_ack_to_runner m w)" "sends w es [refusal (self_pid w) m] []"
    using send_shutdown_ack_outputs by blast
  have "controller_handle_message st m w = Some (0, st, send_shutdown_ack_to_runner m w)"
    using m ctl_repD(8) [OF rep] by (simp add: controller_handle_message_def)
  moreover have "spec_step (may_fail w) (self_pid w) s m [refusal (self_pid w) m] [] s" using m by (intro refused) auto
  moreover have "ctl_rep st (send_shutdown_ack_to_runner m w) s" using rep by (simp add: ctl_rep_outputs [OF e(1)])
  ultimately show ?thesis using outputs_effect [OF e(1)] e(2) going unfolding message_ok_def by fastforce
qed

text \<open>The dispatch of a message that is not refused: one handler runs, or none.\<close>

lemma dispatched_ok:
  assumes rep: "ctl_rep st w s" and inv: "spec_inv s" and clock: "clock_ok w" and bnd: "bounded (Suc k) s"
  shows "handler_ok w s m (do {
    (st1, w1) \<leftarrow> (if msg_type m = SUBMIT then handle_submit st m w else Some (st, w));
    (st2, w2) \<leftarrow> (if msg_type m = DONE then handle_done st1 m w1 else Some (st1, w1));
    w3 \<leftarrow> (if msg_type m = STATUS_REQ then handle_status_req st2 m w2 else Some w2);
    Some (if msg_type m = SHUTDOWN_REQ then handle_shutdown_req st2 m else st2, w3) })"
proof -
  have b: "3 * (int (length (sp_users s)) + 1) < 2 ^ 31" "3 * int (length (sp_users s)) < 2 ^ 31"
    "int (length (sp_waiting s)) + 1 < 2 ^ 31" "sp_limit s < 2 ^ 31" using bnd by (simp_all add: bounded_def)
  consider "msg_type m = SUBMIT" | "msg_type m = DONE" | "msg_type m = STATUS_REQ" | "msg_type m = SHUTDOWN_REQ"
    | "msg_type m \<notin> {SUBMIT, DONE, STATUS_REQ, SHUTDOWN_REQ}" by blast
  then show ?thesis
  proof cases
    case 1
    show ?thesis using handle_submit_ok [OF rep 1 clock b(1,4,3)] by (simp add: 1)
  next
    case 2
    show ?thesis using handle_done_ok [OF rep inv 2 clock b(2,4)] by (simp add: 2)
  next
    case 3
    show ?thesis using handle_status_req_ok [OF rep 3 b(2)] by (cases "handle_status_req st m w"; simp add: 3)
  next
    case 4
    have "ctl_rep (handle_shutdown_req st m) w (s\<lparr>sp_shut := True, sp_req := sender_pid m\<rparr>)"
      using ctl_repD [OF rep] by (intro ctl_repI) (simp_all add: handle_shutdown_req_def queues_rep_def users_rep_def)
    then have "handler_ok w s m (Some (handle_shutdown_req st m, w))"
      by (rule handler_okI [OF refl shutdown_requested [OF 4] _ effect_refl]) simp
    then show ?thesis by (simp add: 4)
  next
    case 5
    have "handler_ok w s m (Some (st, w))" by (rule handler_okI [OF refl other_ignored [OF 5] rep effect_refl]) simp
    then show ?thesis using 5 by simp
  qed
qed

lemma handle_message_ok:
  assumes rep: "ctl_rep st w s" and inv: "spec_inv s" and going: "\<not> sp_stop s"
    and clock: "clock_ok w" and bnd: "bounded (Suc k) s"
  obtains r st' w' s' es out logs where "controller_handle_message st m w = Some (r, st', w')"
    and "spec_step (may_fail w) (self_pid w) s m out logs s'" and "ctl_rep st' w' s'" and "effect w es w'"
    and "sends w es out logs" and "r \<noteq> 0 \<longleftrightarrow> sp_stop s'"
proof -
  have "message_ok w s m (controller_handle_message st m w)"
  proof (cases "msg_type m = SUBMIT \<and> sp_shut s")
    case True
    then show ?thesis using refused_message_ok [OF rep going] by blast
  next
    case False
    have "controller_handle_message st m w = do {
        (st3, w3) \<leftarrow> do {
          (st1, w1) \<leftarrow> (if msg_type m = SUBMIT then handle_submit st m w else Some (st, w));
          (st2, w2) \<leftarrow> (if msg_type m = DONE then handle_done st1 m w1 else Some (st1, w1));
          w3 \<leftarrow> (if msg_type m = STATUS_REQ then handle_status_req st2 m w2 else Some w2);
          Some (if msg_type m = SHUTDOWN_REQ then handle_shutdown_req st2 m else st2, w3) };
        try_finish_shutdown st3 w3 }"
      using False ctl_repD(8) [OF rep] unfolding controller_handle_message_def
      by (auto simp: Let_def split: option.split prod.split Option.bind_split)
    then show ?thesis using handler_finish [OF dispatched_ok [OF rep inv clock bnd] going False] by simp
  qed
  then show thesis using that unfolding message_ok_def by blast
qed

end
