(* ===== verification/Controller_Main.thy ===== *)
theory Controller_Main
  imports Controller
begin

text \<open>
  \<^verbatim>\<open>src/controller/controller.c\<close>: the main loop. What the controller receives is a list of sessions:
  a session is what the successive reads return between two opens of the public pipe. When the list
  is used up the controller waits in \<open>open\<close> for the next writer.
\<close>

function serve :: "controller_state \<Rightarrow> read_result list \<Rightarrow> world \<Rightarrow> (controller_state \<times> world) option" where
  "serve st inp w =
     (case ipc_read_blocking inp of ((n, msg), rest) \<Rightarrow>
        if n = int sizeof_RpcMessage then do {
          (r, st1, w1) \<leftarrow> controller_handle_message st msg w;
          if r \<noteq> 0 then Some (st1, w1) else serve st1 rest w1 }
        else Some (st, w))"
  by pat_completeness auto

termination serve
  by (relation "measure (\<lambda>(st, inp, w). length inp)") (auto simp: ipc_read_blocking_def split: list.splits)

declare serve.simps [simp del]

datatype main_result = Exit int | Blocked controller_state

text \<open>The loop from the given state on; leaving it releases the queues and removes the public pipe.\<close>

fun main_loop :: "controller_state \<Rightarrow> read_result list list \<Rightarrow> world \<Rightarrow> (main_result \<times> world) option" where
  "main_loop st sessions w =
     (if \<not> keep_running st then do {
        (_, w1) \<leftarrow> controller_destroy_queues st w;
        let (_, w2) = ipc_destroy_fifo SERVER_FIFO_PATH w1;
        Some (Exit 0, w2) }
      else case sessions of
        [] \<Rightarrow> Some (Blocked st, w)
      | inp # rest \<Rightarrow>
          let (server_fd, w1) = sys_open SERVER_FIFO_PATH w
          in if fd_num server_fd = - 1 then do {
               (_, w2) \<leftarrow> controller_destroy_queues st (emit (Err ''open server fifo'') w1);
               Some (Exit 1, w2) }
             else do {
               (st1, w2) \<leftarrow> serve st inp w1;
               let (_, w3) = sys_close server_fd w2;
               main_loop st1 rest w3 })"

declare main_loop.simps [simp del]

definition controller_main :: "string list \<Rightarrow> read_result list list \<Rightarrow> world \<Rightarrow> (main_result \<times> world) option" where
  "controller_main argv sessions w = do {
     st \<leftarrow> controller_configure argv;
     let (r, st1, w1) = controller_init_queues st w;
     if r = - 1 then do {
       (_, w2) \<leftarrow> controller_destroy_queues st1 (emit (Err ''failed to create scheduler queues'') w1);
       Some (Exit 1, w2) }
     else do {
       let (c, w2) = ipc_create_fifo SERVER_FIFO_PATH w1;
       if c = - 1 then do {
         (_, w3) \<leftarrow> controller_destroy_queues st1 (emit (Err ''ipc_create_fifo'') w2);
         Some (Exit 1, w3) }
       else main_loop st1 sessions w2 } }"

end
