(* ===== verification/Controller_Run.thy ===== *)
theory Controller_Run
  imports Controller_Handlers Controller_Main
begin

text \<open>
  The main loop and the whole program against the specification: for every configuration, every
  sequence of sessions and every outcome of allocations and system calls the program is defined; it
  either waits for the next writer or exits, and when it exits nothing it allocated is left.
\<close>

definition whole :: "read_result list \<Rightarrow> RpcMessage list" where
  "whole inp = map snd (takeWhile (\<lambda>r. fst r = int sizeof_RpcMessage) inp)"

lemma whole_simps [simp]:
  "whole [] = []"
  "whole ((n, m) # inp) = (if n = int sizeof_RpcMessage then m # whole inp else [])"
  by (simp_all add: whole_def)

lemma spec_run_append:
  "spec_run fail pid s ms out logs s1 \<Longrightarrow> spec_run fail pid s1 ms' out' logs' s2 \<Longrightarrow>
   spec_run fail pid s (ms @ ms') (out @ out') (logs @ logs') s2"
  by (induction rule: spec_run.induct) (auto intro: run_cons)

lemma spec_run_bounded: "spec_run fail pid s ms out logs s' \<Longrightarrow> bounded (length ms + k) s \<Longrightarrow> bounded k s'"
  by (induction rule: spec_run.induct) (auto dest: spec_step_bounded)

lemma effect_clock: "effect w es w' \<Longrightarrow> clock_ok w' = clock_ok w"
  by (simp add: effect_def clock_ok_def)

text \<open>A state, the messages processed to reach the next one, and what was sent and logged meanwhile.\<close>

definition runs_to :: "world \<Rightarrow> spec \<Rightarrow> RpcMessage list \<Rightarrow> world \<Rightarrow> spec \<Rightarrow> bool" where
  "runs_to w s ms w' s' \<longleftrightarrow> (\<exists>es out logs. spec_run (may_fail w) (self_pid w) s ms out logs s' \<and>
     effect w es w' \<and> sends w es out logs)"

lemma runs_to_refl: "runs_to w s [] w s"
  unfolding runs_to_def using run_nil effect_refl sends_Nil by blast

lemma runs_to_trans:
  assumes "runs_to w s ms w1 s1" and "runs_to w1 s1 ms' w2 s2"
  shows "runs_to w s (ms @ ms') w2 s2"
proof -
  from assms(1) obtain es out logs where 1: "spec_run (may_fail w) (self_pid w) s ms out logs s1" "effect w es w1"
      "sends w es out logs" unfolding runs_to_def by blast
  from assms(2) obtain es' out' logs' where 2: "spec_run (may_fail w) (self_pid w) s1 ms' out' logs' s2" "effect w1 es' w2"
      "sends w es' out' logs'" unfolding runs_to_def effect_cong [OF 1(2)] by blast
  show ?thesis unfolding runs_to_def
    using spec_run_append [OF 1(1) 2(1)] effect_trans [OF 1(2) 2(2)] sends_append [OF 1(3) 2(3)] by blast
qed

lemma serve_ok:
  assumes "ctl_rep st w s" and "spec_inv s" and "\<not> sp_stop s" and "clock_ok w"
    and "bounded (length (whole inp) + k) s"
  shows "\<exists>st' w' s' ms rest. serve st inp w = Some (st', w') \<and> runs_to w s ms w' s' \<and> ctl_rep st' w' s' \<and>
    whole inp = ms @ rest \<and> (rest \<noteq> [] \<longrightarrow> sp_stop s')"
  using assms
proof (induction inp arbitrary: st w s)
  case Nil
  have "serve st [] w = Some (st, w)" by (simp add: serve.simps ipc_read_blocking_def)
  with Nil runs_to_refl show ?case by fastforce
next
  case (Cons r inp)
  obtain n m where r: "r = (n, m)" by (cases r)
  show ?case
  proof (cases "n = int sizeof_RpcMessage")
    case False
    then have "serve st (r # inp) w = Some (st, w)" and "whole (r # inp) = []"
      by (simp_all add: r serve.simps ipc_read_blocking_def)
    with Cons.prems runs_to_refl show ?thesis by fastforce
  next
    case True
    then have w: "whole (r # inp) = m # whole inp" by (simp add: r)
    have b: "bounded (Suc (length (whole inp) + k)) s" using Cons.prems(5) w by simp
    obtain c st1 w1 s1 es out logs where 1: "controller_handle_message st m w = Some (c, st1, w1)"
        "spec_step (may_fail w) (self_pid w) s m out logs s1" "ctl_rep st1 w1 s1" "effect w es w1"
        "sends w es out logs" "c \<noteq> 0 \<longleftrightarrow> sp_stop s1"
      using handle_message_ok [OF Cons.prems(1-4) b, of m] by metis
    have run1: "runs_to w s [m] w1 s1"
      unfolding runs_to_def using run_cons [OF Cons.prems(3) 1(2) run_nil] 1(4,5) by auto
    have unf: "serve st (r # inp) w = (if c \<noteq> 0 then Some (st1, w1) else serve st1 inp w1)"
      using True 1(1) by (subst serve.simps) (simp add: r ipc_read_blocking_def)
    show ?thesis
    proof (cases "sp_stop s1")
      case True
      then have "serve st (r # inp) w = Some (st1, w1)" using unf 1(6) by simp
      with run1 1(3) True w show ?thesis by fastforce
    next
      case False
      have "clock_ok w1" using Cons.prems(4) effect_clock [OF 1(4)] by simp
      from Cons.IH [OF 1(3) spec_step_inv [OF 1(2) Cons.prems(2)] False this spec_step_bounded [OF 1(2) b]]
      obtain st' w' s' ms rest where ih: "serve st1 inp w1 = Some (st', w')" "runs_to w1 s1 ms w' s'"
          "ctl_rep st' w' s'" "whole inp = ms @ rest" "rest \<noteq> [] \<longrightarrow> sp_stop s'" by blast
      have "serve st (r # inp) w = Some (st', w')" using unf False 1(6) ih(1) by simp
      moreover have "runs_to w s (m # ms) w' s'" using runs_to_trans [OF run1 ih(2)] by simp
      moreover have "whole (r # inp) = (m # ms) @ rest" using w ih(4) by simp
      ultimately show ?thesis using ih(3,5) by blast
    qed
  qed
qed

definition released :: "world \<Rightarrow> bool" where
  "released w \<longleftrightarrow> nodes w = Map.empty \<and> queues w = Map.empty \<and> blocks w = 0"

lemma controller_destroy_queues_ok:
  assumes "ctl_rep st w s"
  obtains st' w' where "controller_destroy_queues st w = Some (st', w')" and "released w'" and "effect w [] w'"
proof -
  note d = ctl_repD [OF assms]
  from d(1) obtain a b where q: "a \<noteq> b" "waiting_queue st = At a" "running_queue st = At b"
    and st: "store w (queue_pair a b (sp_waiting s) (sp_running s))" by (rule queues_repE)
  note upd = queue_pair_upd [OF q(1)]
  from queue_destroy_ok [OF st upd(1)] obtain w1 where w1: "queue_destroy (At a) w = Some w1"
      "store w1 ((queue_pair a b (sp_waiting s) (sp_running s))(a := None))" "env_eq w w1" by blast
  have "((queue_pair a b (sp_waiting s) (sp_running s))(a := None)) b = Some (sp_running s)" using q(1) upd(2) by simp
  from queue_destroy_ok [OF w1(2) this] obtain w2 where w2: "queue_destroy (At b) w1 = Some w2"
      "store w2 ((queue_pair a b (sp_waiting s) (sp_running s))(a := None, b := None))" "env_eq w1 w2" by blast
  have "(queue_pair a b (sp_waiting s) (sp_running s))(a := None, b := None) = Map.empty"
    using q(1) by (auto simp: queue_pair_def)
  then have emp: "nodes w2 = Map.empty" "queues w2 = Map.empty" using store_empty w2(2) by metis+
  have env: "env_eq w w2" using env_eq_trans [OF w1(3) w2(3)] .
  have bl: "blocks w2 = nb (fair_users st)" using d(3) env_eq_blocks [OF env] by (simp add: nb_def)
  let ?w3 = "w2\<lparr>blocks := 0\<rparr>"
  have "free_opt (fair_users st) w2 = Some ?w3" using free_opt_nb [of "fair_users st" w2] bl by simp
  then have "controller_destroy_queues st w = Some (st\<lparr>waiting_queue := NULL, running_queue := NULL, fair_users := None,
       fair_user_count := 0, fair_user_capacity := 0\<rparr>, ?w3)"
    using q(2,3) w1(1) w2(1) by (simp add: controller_destroy_queues_def)
  then show thesis
    by (rule that) (use emp effect_env [OF env] in \<open>simp_all add: released_def effect_def\<close>)
qed

definition main_ok :: "world \<Rightarrow> spec \<Rightarrow> RpcMessage list \<Rightarrow> (main_result \<times> world) option \<Rightarrow> bool" where
  "main_ok w s msgs r \<longleftrightarrow> (\<exists>res w' s' ms rest. r = Some (res, w') \<and> runs_to w s ms w' s' \<and> msgs = ms @ rest \<and>
     (case res of
        Blocked st' \<Rightarrow> ctl_rep st' w' s' \<and> \<not> sp_stop s' \<and> rest = []
      | Exit c \<Rightarrow> released w' \<and> (c = 0 \<and> sp_stop s' \<or> c = 1 \<and> \<not> sp_stop s' \<and> \<not> sys_ok w)))"

lemma ctl_rep_fds: "ctl_rep st (w\<lparr>tick := t, open_fds := f\<rparr>) s = ctl_rep st w s"
  by (simp add: ctl_rep_def queues_rep_def store_def store_at_def)

lemma runs_to_fds:
  assumes "runs_to (w\<lparr>tick := t, open_fds := Suc (open_fds w)\<rparr>) s ms w' s'" and "tick w \<le> t"
  shows "runs_to w s ms (snd (sys_close d w')) s'" and "ctl_rep st' w' s' \<Longrightarrow> ctl_rep st' (snd (sys_close d w')) s'"
  using assms unfolding runs_to_def
  by (fastforce simp: sys_close_eq effect_def sends_def sys_ok_def may_fail_def, simp add: sys_close_eq ctl_rep_fds)

lemma runs_to_effect:
  assumes "runs_to w s ms w1 s1" and "effect w1 es w2" and "delivered es = []" and "logged es = []"
  shows "runs_to w s ms w2 s1"
proof -
  from assms(1) obtain es1 out logs where 1: "spec_run (may_fail w) (self_pid w) s ms out logs s1" "effect w es1 w1"
      "sends w es1 out logs" unfolding runs_to_def by blast
  have "sends w (es1 @ es) (out @ []) (logs @ [])"
    by (rule sends_append [OF 1(3)]) (use assms(3,4) in \<open>simp add: sends_def\<close>)
  with 1 effect_trans [OF 1(2) assms(2)] show ?thesis unfolding runs_to_def by auto
qed

lemma main_loop_stopped:
  assumes rep: "ctl_rep st w s" and stop: "sp_stop s"
  shows "main_ok w s msgs (main_loop st ss w)"
proof -
  obtain st' w1 where 1: "controller_destroy_queues st w = Some (st', w1)" "released w1" "effect w [] w1"
    by (rule controller_destroy_queues_ok [OF rep])
  obtain r es t where u: "sys_unlink SERVER_FIFO_PATH w1 = (r, w1\<lparr>tick := t, events := events w1 @ es\<rparr>)" "tick w1 \<le> t"
      "delivered es = []" "logged es = []" "printed es = []" by (rule sys_unlink_effect)
  let ?w2 = "w1\<lparr>tick := t, events := events w1 @ es\<rparr>"
  have o2: "outputs w1 es ?w2" using u(2) by (auto simp: outputs_def)
  have "main_loop st ss w = Some (Exit 0, ?w2)"
    using 1(1) u(1) stop ctl_repD(10) [OF rep] by (subst main_loop.simps) (simp add: ipc_destroy_fifo_def)
  moreover have "runs_to w s [] ?w2 s"
    by (rule runs_to_effect [OF runs_to_effect [OF runs_to_refl 1(3)] outputs_effect [OF o2] u(3,4)]) simp_all
  moreover have "released ?w2" using 1(2) by (simp add: released_def)
  ultimately show ?thesis unfolding main_ok_def using stop by fastforce
qed

lemma main_ok_extend:
  assumes "runs_to w s ms w1 s1" and "main_ok w1 s1 msgs r"
  shows "main_ok w s (ms @ msgs) r"
proof -
  have eq: "sys_ok w1 = sys_ok w" using assms(1) effect_cong(1) unfolding runs_to_def by blast
  from assms(2) obtain res w' s' ms' rest where 1: "r = Some (res, w')" "runs_to w1 s1 ms' w' s'" "msgs = ms' @ rest"
     "case res of Blocked st' \<Rightarrow> ctl_rep st' w' s' \<and> \<not> sp_stop s' \<and> rest = []
      | Exit c \<Rightarrow> released w' \<and> (c = 0 \<and> sp_stop s' \<or> c = 1 \<and> \<not> sp_stop s' \<and> \<not> sys_ok w)"
    unfolding main_ok_def eq by blast
  show ?thesis unfolding main_ok_def
    by (rule exI [of _ res], rule exI [of _ w'], rule exI [of _ s'], rule exI [of _ "ms @ ms'"], rule exI [of _ rest])
      (use 1 runs_to_trans [OF assms(1) 1(2)] in simp)
qed

text \<open>One turn of the main loop while no shutdown is asked for: the open fails and the program ends, or a session is served.\<close>

lemma open_fails_ok:
  assumes rep: "ctl_rep st w s" and going: "\<not> sp_stop s" and fails: "sys_out w (tick w) < 0"
  shows "main_ok w s msgs (main_loop st (inp # ss) w)"
proof -
  let ?w1 = "emit (Err ''open server fifo'') (w\<lparr>tick := Suc (tick w)\<rparr>)"
  have o: "outputs w [Err ''open server fifo''] ?w1"
    by (auto simp: outputs_def emit_def intro!: exI [of _ "Suc (tick w)"])
  have "ctl_rep st ?w1 s" using rep by (simp add: ctl_rep_outputs [OF o])
  from controller_destroy_queues_ok [OF this] obtain st' w2 where
    2: "controller_destroy_queues st ?w1 = Some (st', w2)" "released w2" "effect ?w1 [] w2" .
  have "main_loop st (inp # ss) w = Some (Exit 1, w2)"
    using fails ctl_repD(10) [OF rep] going 2(1) by (subst main_loop.simps) (simp add: sys_open_eq)
  moreover have "runs_to w s [] w2 s"
    using runs_to_effect [OF runs_to_effect [OF runs_to_refl outputs_effect [OF o]] 2(3)] by simp
  moreover have "\<not> sys_ok w" using fails sys_okD [of w "tick w"] by auto
  ultimately show ?thesis unfolding main_ok_def using 2(2) going by fastforce
qed

lemma session_ok:
  assumes rep: "ctl_rep st w s" and inv: "spec_inv s" and going: "\<not> sp_stop s" and clk: "clock_ok w"
    and b: "bounded (length (whole inp) + n) s" and opens: "\<not> sys_out w (tick w) < 0"
  obtains st1 w1 s1 ms rest where "main_loop st (inp # ss) w = main_loop st1 ss w1" and "runs_to w s ms w1 s1"
    and "ctl_rep st1 w1 s1" and "whole inp = ms @ rest" and "rest \<noteq> [] \<longrightarrow> sp_stop s1"
proof -
  let ?w1 = "w\<lparr>tick := Suc (tick w), open_fds := Suc (open_fds w)\<rparr>" and ?d = "Fd (sys_out w (tick w)) SERVER_FIFO_PATH"
  have rep1: "ctl_rep st ?w1 s" using rep by (simp add: ctl_rep_fds)
  have clk1: "clock_ok ?w1" using clk by (simp add: clock_ok_def)
  from serve_ok [OF rep1 inv going clk1 b] obtain st1 w2 s1 ms rest where
    1: "serve st inp ?w1 = Some (st1, w2)" "runs_to ?w1 s ms w2 s1" "ctl_rep st1 w2 s1" "whole inp = ms @ rest"
      "rest \<noteq> [] \<longrightarrow> sp_stop s1" by blast
  let ?w3 = "snd (sys_close ?d w2)"
  have run3: "runs_to w s ms ?w3 s1" and rep3: "ctl_rep st1 ?w3 s1" using runs_to_fds [OF 1(2)] 1(3) by simp_all
  have "main_loop st (inp # ss) w = main_loop st1 ss ?w3"
    using opens ctl_repD(10) [OF rep] going 1(1) by (subst main_loop.simps) (simp add: sys_open_eq case_prod_beta)
  from that [OF this run3 rep3 1(4,5)] show thesis .
qed

lemma main_loop_ok:
  assumes "ctl_rep st w s" and "spec_inv s" and "clock_ok w" and "bounded (length (concat (map whole ss))) s"
  shows "main_ok w s (concat (map whole ss)) (main_loop st ss w)"
  using assms
proof (induction ss arbitrary: st w s)
  case Nil
  show ?case
  proof (cases "sp_stop s")
    case True
    with main_loop_stopped [OF Nil(1)] show ?thesis by blast
  next
    case False
    then have "main_loop st [] w = Some (Blocked st, w)"
      using ctl_repD(10) [OF Nil(1)] by (subst main_loop.simps) simp
    with False Nil(1) runs_to_refl show ?thesis unfolding main_ok_def by fastforce
  qed
next
  case (Cons inp ss)
  have b: "bounded (length (whole inp) + length (concat (map whole ss))) s" using Cons.prems(4) by simp
  consider "sp_stop s" | "\<not> sp_stop s" "sys_out w (tick w) < 0" | "\<not> sp_stop s" "\<not> sys_out w (tick w) < 0" by blast
  then show ?case
  proof cases
    case 1
    with main_loop_stopped [OF Cons.prems(1)] show ?thesis by blast
  next
    case 2
    with open_fails_ok [OF Cons.prems(1)] show ?thesis by blast
  next
    case 3
    obtain st1 w1 s1 ms rest where t: "main_loop st (inp # ss) w = main_loop st1 ss w1" "runs_to w s ms w1 s1"
      "ctl_rep st1 w1 s1" "whole inp = ms @ rest" "rest \<noteq> [] \<longrightarrow> sp_stop s1"
      by (rule session_ok [OF Cons.prems(1,2) 3(1) Cons.prems(3) b 3(2)])
    have "main_ok w1 s1 (rest @ concat (map whole ss)) (main_loop st1 ss w1)"
    proof (cases "sp_stop s1")
      case True
      then show ?thesis by (rule main_loop_stopped [OF t(3)])
    next
      case False
      from t(2) obtain es out logs where r: "spec_run (may_fail w) (self_pid w) s ms out logs s1" "effect w es w1"
        unfolding runs_to_def by blast
      have "bounded (length ms + length (concat (map whole ss))) s" using b t(4,5) False by simp
      with False t(5) Cons.IH [OF t(3) spec_run_inv [OF r(1) Cons.prems(2)] _ spec_run_bounded [OF r(1)]]
        effect_clock [OF r(2)] Cons.prems(3) show ?thesis by simp
    qed
    from main_ok_extend [OF t(2) this] show ?thesis using t(1,4) by simp
  qed
qed

text \<open>The whole program, from a process that has allocated nothing.\<close>

definition fresh_process :: "world \<Rightarrow> bool" where
  "fresh_process w \<longleftrightarrow> nodes w = Map.empty \<and> queues w = Map.empty \<and> blocks w = 0"

lemma fresh_store: "fresh_process w \<Longrightarrow> store w Map.empty"
  unfolding fresh_process_def store_def by (intro exI [of _ "\<lambda>_. []"] store_atI) auto

lemma controller_configure_ok:
  assumes "controller_configure argv = Some st"
  shows "0 < parallel_limit st" and "parallel_limit st < 2 ^ 31" and "running_count st = 0" and "keep_running st"
    and "\<not> is_shutting_down st" and "shutdown_requester_pid st = - 1" and "last_scheduled_user st = - 1"
    and "fair_users st = None" and "fair_user_count st = 0" and "fair_user_capacity st = 0"
    and "length (policy st) < sizeof_policy"
  using assms unfolding controller_configure_def
  by (auto simp: Let_def atoi_def c_int_def sizeof_policy_def fit_buffer_def split: if_splits Option.bind_splits)

lemma ctl_rep_initial:
  assumes st: "store w (queue_pair a b [] [])" and ab: "a \<noteq> b" and bl: "blocks w = 0"
    and cfg: "controller_configure argv = Some st0"
  shows "ctl_rep (st0\<lparr>waiting_queue := At a, running_queue := At b\<rparr>) w (initial (parallel_limit st0) (policy st0))"
  using controller_configure_ok [OF cfg] st ab bl
  by (intro ctl_repI) (auto simp: queues_rep_def users_rep_def initial_def array_rep_def)

lemma controller_init_queues_ok:
  assumes fr: "fresh_process w"
  obtains a b w' where "controller_init_queues st w = (0, st\<lparr>waiting_queue := At a, running_queue := At b\<rparr>, w')"
    and "a \<noteq> b" and "store w' (queue_pair a b [] [])" and "env_eq w w'"
  | st' w' where "may_fail w" and "controller_init_queues st w = (- 1, st', w')"
    and "store w' (case waiting_queue st' of NULL \<Rightarrow> Map.empty | At a \<Rightarrow> [a \<mapsto> []]) \<and> running_queue st' = NULL \<or>
      waiting_queue st' = NULL \<and> store w' (case running_queue st' of NULL \<Rightarrow> Map.empty | At a \<Rightarrow> [a \<mapsto> []])"
    and "fair_users st' = fair_users st" and "env_eq w w'"
proof (cases "malloc_ok w (tick w)")
  case True
  from store_create [OF fresh_store [OF fr] True] obtain w1 where
    1: "queue_create w = (At (fresh w), w1)" "store w1 [fresh w \<mapsto> []]" "env_eq w w1" by blast
  show thesis
  proof (cases "malloc_ok w1 (tick w1)")
    case True
    obtain m :: "nat \<rightharpoonup> job_info list" where m: "m = [fresh w \<mapsto> []]" by simp
    from store_create [OF 1(2) [folded m] True] obtain w2 where
      w2: "queue_create w1 = (At (fresh w1), w2)" "store w2 (m(fresh w1 \<mapsto> []))" "env_eq w1 w2"
        "fresh w1 \<notin> dom m" by blast
    note 2 = w2 [unfolded m]
    show thesis
      by (rule that(1) [where a = "fresh w" and b = "fresh w1" and w' = w2])
        (use 1 2 env_eq_trans [OF 1(3) 2(3)] in \<open>auto simp: controller_init_queues_def queue_pair_def\<close>)
  next
    case False
    have mf: "may_fail w" using False 1(3) by (auto simp: env_eq_def may_fail_def)
    have e: "env_eq w (w1\<lparr>tick := Suc (tick w1)\<rparr>)" using 1(3) by (simp add: env_eq_def)
    show thesis
      by (rule that(2) [OF mf, of "st\<lparr>waiting_queue := At (fresh w), running_queue := NULL\<rparr>" "w1\<lparr>tick := Suc (tick w1)\<rparr>"])
        (use 1 False e in \<open>simp_all add: controller_init_queues_def queue_create_nomem\<close>)
  qed
next
  case False
  have mf: "may_fail w" using False by (auto simp: may_fail_def)
  let ?w1 = "w\<lparr>tick := Suc (tick w)\<rparr>"
  have st1: "store ?w1 Map.empty" using fresh_store [OF fr] by simp
  have e1: "env_eq w ?w1" by (simp add: env_eq_def)
  show thesis
  proof (cases "malloc_ok ?w1 (tick ?w1)")
    case True
    from store_create [OF st1 True] obtain w2 where
      2: "queue_create ?w1 = (At (fresh ?w1), w2)" "store w2 [fresh ?w1 \<mapsto> []]" "env_eq ?w1 w2" by blast
    show thesis
      by (rule that(2) [OF mf, of "st\<lparr>waiting_queue := NULL, running_queue := At (fresh ?w1)\<rparr>" w2])
        (use 2 False env_eq_trans [OF e1 2(3)] in \<open>simp_all add: controller_init_queues_def queue_create_nomem\<close>)
  next
    case False2: False
    have e: "env_eq w (?w1\<lparr>tick := Suc (tick ?w1)\<rparr>)" by (simp add: env_eq_def)
    show thesis
      by (rule that(2) [OF mf, of "st\<lparr>waiting_queue := NULL, running_queue := NULL\<rparr>" "?w1\<lparr>tick := Suc (tick ?w1)\<rparr>"])
        (use False False2 st1 e in \<open>simp_all add: controller_init_queues_def queue_create_nomem\<close>)
  qed
qed

lemma destroy_one:
  assumes "store w (case p of NULL \<Rightarrow> Map.empty | At a \<Rightarrow> [a \<mapsto> []])"
  obtains w' where "queue_destroy p w = Some w'" and "store w' Map.empty" and "env_eq w w'"
proof (cases p)
  case NULL
  with assms that [of w] show thesis by (simp add: queue_destroy_def)
next
  case (At a)
  with assms have "store w [a \<mapsto> []]" by simp
  from queue_destroy_ok [OF this, of a "[]"] obtain w' where
    "queue_destroy (At a) w = Some w'" "store w' ([a \<mapsto> []](a := None))" "env_eq w w'" by auto
  with At that show thesis by simp
qed


lemma destroy_partial:
  assumes st: "store w (case waiting_queue st of NULL \<Rightarrow> Map.empty | At a \<Rightarrow> [a \<mapsto> []]) \<and> running_queue st = NULL \<or>
      waiting_queue st = NULL \<and> store w (case running_queue st of NULL \<Rightarrow> Map.empty | At a \<Rightarrow> [a \<mapsto> []])"
    and fu: "fair_users st = None" and bl: "blocks w = 0"
  obtains st' w' where "controller_destroy_queues st w = Some (st', w')" and "released w'" and "effect w [] w'"
proof -
  have "\<exists>w1 w2. queue_destroy (waiting_queue st) w = Some w1 \<and> queue_destroy (running_queue st) w1 = Some w2 \<and>
      store w2 Map.empty \<and> env_eq w w2"
    using st
  proof
    assume "store w (case waiting_queue st of NULL \<Rightarrow> Map.empty | At a \<Rightarrow> [a \<mapsto> []]) \<and> running_queue st = NULL"
    then have "store w (case waiting_queue st of NULL \<Rightarrow> Map.empty | At a \<Rightarrow> [a \<mapsto> []])" and n: "running_queue st = NULL" by simp_all
    from destroy_one [OF this(1)] obtain w1 where "queue_destroy (waiting_queue st) w = Some w1" "store w1 Map.empty" "env_eq w w1" .
    with n show ?thesis by (simp add: queue_destroy_def)
  next
    assume "waiting_queue st = NULL \<and> store w (case running_queue st of NULL \<Rightarrow> Map.empty | At a \<Rightarrow> [a \<mapsto> []])"
    then have "store w (case running_queue st of NULL \<Rightarrow> Map.empty | At a \<Rightarrow> [a \<mapsto> []])" and n: "waiting_queue st = NULL" by simp_all
    from destroy_one [OF this(1)] obtain w1 where "queue_destroy (running_queue st) w = Some w1" "store w1 Map.empty" "env_eq w w1" .
    with n show ?thesis by (simp add: queue_destroy_def)
  qed
  then obtain w1 w2 where 1: "queue_destroy (waiting_queue st) w = Some w1" "queue_destroy (running_queue st) w1 = Some w2"
      "store w2 Map.empty" "env_eq w w2" by blast
  show thesis
    by (rule that [of "st\<lparr>waiting_queue := NULL, running_queue := NULL, fair_users := None, fair_user_count := 0,
        fair_user_capacity := 0\<rparr>" w2])
      (use 1 fu bl store_empty [OF 1(3)] env_eq_blocks [OF 1(4)] effect_env [OF 1(4)]
       in \<open>simp_all add: controller_destroy_queues_def free_opt_def released_def\<close>)
qed

definition program_ok :: "world \<Rightarrow> spec \<Rightarrow> RpcMessage list \<Rightarrow> (main_result \<times> world) option \<Rightarrow> bool" where
  "program_ok w s msgs r \<longleftrightarrow> (\<exists>res w' s' ms rest. r = Some (res, w') \<and> runs_to w s ms w' s' \<and> msgs = ms @ rest \<and>
     (case res of
        Blocked st' \<Rightarrow> ctl_rep st' w' s' \<and> \<not> sp_stop s' \<and> rest = []
      | Exit c \<Rightarrow> released w' \<and> (c = 0 \<and> sp_stop s' \<or> c = 1 \<and> \<not> sp_stop s' \<and> (may_fail w \<or> \<not> sys_ok w))))"

lemma program_ok_extend:
  assumes "effect w es w1" and "delivered es = []" and "logged es = []" and "main_ok w1 s msgs r"
  shows "program_ok w s msgs r"
proof -
  have r1: "runs_to w s [] w1 s" by (rule runs_to_effect [OF runs_to_refl assms(1-3)])
  from main_ok_extend [OF r1 assms(4)] have "main_ok w s msgs r" by simp
  then obtain res w' s' ms rest where 1: "r = Some (res, w')" "runs_to w s ms w' s'" "msgs = ms @ rest"
     "case res of Blocked st' \<Rightarrow> ctl_rep st' w' s' \<and> \<not> sp_stop s' \<and> rest = []
      | Exit c \<Rightarrow> released w' \<and> (c = 0 \<and> sp_stop s' \<or> c = 1 \<and> \<not> sp_stop s' \<and> \<not> sys_ok w)"
    unfolding main_ok_def by blast
  then show ?thesis unfolding program_ok_def
    by (intro exI [of _ res] exI [of _ w'] exI [of _ s']) (auto split: main_result.splits)
qed

lemma program_ok_exit:
  assumes "r = Some (Exit 1, w')" and "released w'" and "effect w es w'" and "delivered es = []" and "logged es = []"
    and "may_fail w \<or> \<not> sys_ok w" and "\<not> sp_stop s"
  shows "program_ok w s msgs r"
proof -
  have "runs_to w s [] w' s" by (rule runs_to_effect [OF runs_to_refl assms(3-5)])
  with assms show ?thesis unfolding program_ok_def by fastforce
qed

text \<open>The three ways from the start: without its queues, without its pipe, and into the main loop.\<close>

lemma main_no_queues:
  assumes cfg: "controller_configure argv = Some st0" and bl: "blocks w = 0" and mf: "may_fail w" and going: "\<not> sp_stop s"
    and init: "controller_init_queues st0 w = (- 1, st1, w1)" and fu: "fair_users st1 = None" and env: "env_eq w w1"
    and st: "store w1 (case waiting_queue st1 of NULL \<Rightarrow> Map.empty | At a \<Rightarrow> [a \<mapsto> []]) \<and> running_queue st1 = NULL \<or>
      waiting_queue st1 = NULL \<and> store w1 (case running_queue st1 of NULL \<Rightarrow> Map.empty | At a \<Rightarrow> [a \<mapsto> []])"
  shows "program_ok w s msgs (controller_main argv ss w)"
proof -
  let ?w2 = "emit (Err ''failed to create scheduler queues'') w1"
  have b2: "blocks ?w2 = 0" using bl env_eq_blocks [OF env] by (simp add: emit_def)
  have st2: "store ?w2 m = store w1 m" for m by (simp add: emit_def)
  have e2: "effect w [Err ''failed to create scheduler queues''] ?w2"
    using effect_emit [OF effect_env [OF env]] by simp
  from destroy_partial [OF st [folded st2] fu b2] obtain st3 w3 where
    3: "controller_destroy_queues st1 ?w2 = Some (st3, w3)" "released w3" "effect ?w2 [] w3" .
  show ?thesis
  proof (rule program_ok_exit)
    show "controller_main argv ss w = Some (Exit 1, w3)" using cfg init 3(1) by (simp add: controller_main_def)
    show "effect w ([Err ''failed to create scheduler queues''] @ []) w3" by (rule effect_trans [OF e2 3(3)])
  qed (use mf 3(2) going in simp_all)
qed

lemma main_no_fifo:
  assumes cfg: "controller_configure argv = Some st0" and init: "controller_init_queues st0 w = (0, st, w1)"
    and f: "ipc_create_fifo SERVER_FIFO_PATH w1 = (- 1, w2)" and e: "effect w es w2" "delivered es = []" "logged es = []"
    and rep: "ctl_rep st w2 s" and going: "\<not> sp_stop s" and bad: "\<not> sys_ok w"
  shows "program_ok w s msgs (controller_main argv ss w)"
proof -
  let ?w3 = "emit (Err ''ipc_create_fifo'') w2"
  have o: "outputs w2 [Err ''ipc_create_fifo''] ?w3" using outputs_emit [OF outputs_refl, of w2] by simp
  have "ctl_rep st ?w3 s" using rep by (simp add: ctl_rep_outputs [OF o])
  from controller_destroy_queues_ok [OF this] obtain st3 w3 where
    3: "controller_destroy_queues st ?w3 = Some (st3, w3)" "released w3" "effect ?w3 [] w3" .
  show ?thesis
  proof (rule program_ok_exit)
    show "controller_main argv ss w = Some (Exit 1, w3)"
      using cfg init f 3(1) by (simp add: controller_main_def)
    show "effect w ((es @ [Err ''ipc_create_fifo'']) @ []) w3"
      by (rule effect_trans [OF effect_trans [OF e(1) outputs_effect [OF o]] 3(3)])
  qed (use e bad 3(2) going in simp_all)
qed

lemma controller_main_ok:
  assumes fr: "fresh_process w" and clock: "clock_ok w" and cfg: "controller_configure argv = Some st0"
    and n: "3 * int (length (concat (map whole ss))) < 2 ^ 31"
  shows "program_ok w (initial (parallel_limit st0) (policy st0)) (concat (map whole ss)) (controller_main argv ss w)"
proof -
  let ?s = "initial (parallel_limit st0) (policy st0)" and ?msgs = "concat (map whole ss)"
  note c = controller_configure_ok [OF cfg]
  have going: "\<not> sp_stop ?s" by (simp add: initial_def)
  have bnd: "bounded (length ?msgs) ?s" using n c(2) by (simp add: bounded_def initial_def)
  have bl: "blocks w = 0" using fr by (simp add: fresh_process_def)
  show ?thesis
  proof (cases rule: controller_init_queues_ok [OF fr, of st0])
    case (2 st1 w1)
    show ?thesis by (rule main_no_queues [OF cfg bl 2(1) going 2(2) _ 2(5,3)]) (use 2(4) c(8) in simp)
  next
    case (1 a b w1)
    let ?st = "st0\<lparr>waiting_queue := At a, running_queue := At b\<rparr>"
    have rep1: "ctl_rep ?st w1 ?s"
      by (rule ctl_rep_initial [OF 1(3,2) _ cfg]) (use bl env_eq_blocks [OF 1(4)] in simp)
    obtain r es t where f: "ipc_create_fifo SERVER_FIFO_PATH w1 = (r, w1\<lparr>tick := t, events := events w1 @ es\<rparr>)"
        "tick w1 \<le> t" "delivered es = []" "logged es = []" "r = - 1 \<longrightarrow> \<not> sys_ok w1"
      "printed es = []" by (rule ipc_create_fifo_effect)
    define w2 where "w2 = w1\<lparr>tick := t, events := events w1 @ es\<rparr>"
    have o2: "outputs w1 es w2" using f(2) by (auto simp: outputs_def w2_def)
    have e2: "effect w es w2" by (rule effect_env_trans [OF 1(4) outputs_effect [OF o2]])
    have rep2: "ctl_rep ?st w2 ?s" using rep1 by (simp add: ctl_rep_outputs [OF o2])
    note f1 = f(1) [folded w2_def]
    show ?thesis
    proof (cases "r = - 1")
      case True
      then have "\<not> sys_ok w" using f(5) effect_cong(1) [OF effect_env [OF 1(4)]] by simp
      from main_no_fifo [OF cfg 1(1) f1 [unfolded True] e2 f(3,4) rep2 going this] show ?thesis .
    next
      case False
      have "clock_ok w2" using clock effect_clock [OF e2] by simp
      from main_loop_ok [OF rep2 initial_inv [OF c(1)] this bnd]
      have "main_ok w2 ?s ?msgs (main_loop ?st ss w2)" .
      moreover have "controller_main argv ss w = main_loop ?st ss w2"
        using cfg 1(1) f1 False by (simp add: controller_main_def)
      ultimately show ?thesis using program_ok_extend [OF e2 f(3,4)] by simp
    qed
  qed
qed

end
