(* ===== verification/Spec_Properties.thy ===== *)
theory Spec_Properties
  imports Controller_Run
begin

text \<open>
  What follows from the specification: which acknowledgements a run sends, that no job is lost or
  invented, the order under \<open>fcfs\<close>, the absence of overtaking under \<open>fair\<close>, that no slot is idle while
  a job waits, and when a shutdown ends.
\<close>

subsection \<open>Keys of jobs and messages\<close>

definition is_ack :: "sent \<Rightarrow> bool" where
  "is_ack x \<longleftrightarrow> msg_type (snd x) = ACK"

definition job_key :: "job_info \<Rightarrow> int \<times> int \<times> int" where
  "job_key j = (user_id j, command_id j, runner_pid j)"

definition msg_key :: "RpcMessage \<Rightarrow> int \<times> int \<times> int" where
  "msg_key m = (msg_user_id m, msg_command_id m, sender_pid m)"

definition ack_for :: "int \<Rightarrow> int \<times> int \<times> int \<Rightarrow> sent" where
  "ack_for pid = (\<lambda>(u, c, p). (runner_fifo p,
     \<lparr>msg_type = ACK, sender_pid = pid, msg_user_id = u, msg_command_id = c, payload = []\<rparr>))"

text \<open>The submissions that are not refused: those before the first shutdown request.\<close>

definition accepted :: "bool \<Rightarrow> RpcMessage list \<Rightarrow> RpcMessage list" where
  "accepted sh ms = (if sh then []
     else filter (\<lambda>m. msg_type m = SUBMIT) (takeWhile (\<lambda>m. msg_type m \<noteq> SHUTDOWN_REQ) ms))"

lemma job_key_simps [simp]:
  "job_key (started j) = job_key j" "job_key (job_of m now) = msg_key m"
  by (simp_all add: job_key_def job_of_def msg_key_def)

lemma ack_ack_for: "ack pid j = ack_for pid (job_key j)"
  by (simp add: ack_def ack_for_def job_key_def)

lemma is_ack_simps [simp]:
  "is_ack (ack pid j)" "is_ack (ack_for pid k)" "\<not> is_ack (refusal pid m)" "\<not> is_ack (farewell s)"
  by (auto simp: is_ack_def ack_def ack_for_def refusal_def farewell_def split: prod.splits)

lemma filter_acks [simp]: "filter is_ack (map (ack pid) js) = map (ack pid) js"
  by (induction js) simp_all

lemma status_msgs_no_ack [simp]: "filter is_ack (status_msgs pid m rs ws) = []"
  by (auto simp: status_msgs_def is_ack_def status_text_def filter_empty_conv)

lemma finish_no_ack: "finish s = (out, s') \<Longrightarrow> filter is_ack out = []"
  by (auto simp: finish_def split: if_splits)

lemma finish_frame:
  assumes "finish s = (out, s')"
  shows "sp_running s' = sp_running s" and "sp_waiting s' = sp_waiting s" and "sp_users s' = sp_users s"
    and "sp_shut s' = sp_shut s" and "sp_last s' = sp_last s" and "sp_req s' = sp_req s"
    and "sp_limit s' = sp_limit s" and "sp_policy s' = sp_policy s"
  using assms by (auto simp: finish_def split: if_splits)

lemma promotes_running: "promotes fail s js s' \<Longrightarrow> sp_running s' = sp_running s @ js"
  by (induction rule: promotes.induct) simp_all

lemma promotes_busy: "promotes fail s js s' \<Longrightarrow> sp_limit s' \<le> int (length (sp_running s')) \<or> sp_waiting s' = []"
  by (induction rule: promotes.induct) simp_all

lemma promotes_keys:
  "promotes False s js s' \<Longrightarrow>
    mset (map job_key (sp_waiting s)) = mset (map job_key js) + mset (map job_key (sp_waiting s'))"
proof (induction rule: promotes.induct)
  case (promote_start s ys j zs js s')
  then show ?case using may_pick_waiting [OF promote_start.hyps(2)] by simp
qed simp_all

lemma promotes_fcfs:
  "promotes False s js s' \<Longrightarrow> sp_policy s \<notin> {''random'', ''fair''} \<Longrightarrow>
    map job_key (sp_waiting s) = map job_key js @ map job_key (sp_waiting s')"
proof (induction rule: promotes.induct)
  case (promote_start s ys j zs js s')
  have "ys = []" using promote_start.hyps(2) promote_start.prems by (auto simp: may_pick_def)
  then show ?case using may_pick_waiting [OF promote_start.hyps(2)] promote_start by simp
qed simp_all

subsection \<open>Work conservation\<close>

definition busy :: "spec \<Rightarrow> bool" where
  "busy s \<longleftrightarrow> sp_limit s \<le> int (length (sp_running s)) \<or> sp_waiting s = []"

lemma spec_msg_busy: "spec_msg fail pid s m out logs s' \<Longrightarrow> busy s \<Longrightarrow> busy s'"
proof (induction rule: spec_msg.induct)
  case (done_known m s ys j zs t ms js s')
  then show ?case using promotes_busy by (simp add: busy_def)
next
  case (done_unknown m s js s')
  then show ?case using promotes_busy by (simp add: busy_def)
qed (auto simp: busy_def)

lemma spec_step_busy: "spec_step fail pid s m out logs s' \<Longrightarrow> busy s \<Longrightarrow> busy s'"
proof (induction rule: spec_step.induct)
  case (handled m s out logs s1 out2 s2)
  then have "busy s1" using spec_msg_busy by blast
  then show ?case using finish_frame [OF handled(3)] by (simp add: busy_def)
qed simp

lemma spec_run_busy: "spec_run fail pid s ms out logs s' \<Longrightarrow> busy s \<Longrightarrow> busy s'"
  by (induction rule: spec_run.induct) (auto dest: spec_step_busy)

lemma initial_busy [simp]: "busy (initial lim pol)"
  by (simp add: busy_def initial_def)

subsection \<open>Accounting\<close>

definition log_of :: "job_info \<times> int \<Rightarrow> log_entry" where
  "log_of = (\<lambda>(j, ms). (''log.txt'', fit_buffer 256 (log_line j ms)))"

definition accounts :: "int \<Rightarrow> spec \<Rightarrow> sent list \<Rightarrow> log_entry list \<Rightarrow> (job_info \<times> int) list \<Rightarrow> spec \<Rightarrow> bool" where
  "accounts pid s out logs fin s' \<longleftrightarrow> logs = map log_of fin \<and>
     mset (filter is_ack out) + mset (map (ack pid) (sp_running s)) =
       mset (map (ack pid \<circ> fst) fin) + mset (map (ack pid) (sp_running s'))"

lemma spec_msg_accounts:
  "spec_msg fail pid s m out logs s' \<Longrightarrow> \<exists>fin. accounts pid s out logs fin s'"
proof (induction rule: spec_msg.induct)
  case (submit_started m now s us)
  show ?case by (rule exI [of _ "[]"]) (simp add: accounts_def ack_ack_for)
next
  case (done_known m s ys j zs t ms js s')
  show ?case
    by (rule exI [of _ "[(j, ms)]"])
      (use split_first_SomeD [OF done_known(2)] promotes_running [OF done_known(5)] in \<open>simp add: accounts_def log_of_def\<close>)
next
  case (done_unknown m s js s')
  show ?case
    by (rule exI [of _ "[]"]) (use promotes_running [OF done_unknown(3)] in \<open>simp add: accounts_def\<close>)
qed (rule exI [of _ "[]"]; simp add: accounts_def)+

lemma spec_step_accounts:
  "spec_step fail pid s m out logs s' \<Longrightarrow> \<exists>fin. accounts pid s out logs fin s'"
proof (induction rule: spec_step.induct)
  case (refused m s)
  show ?case by (rule exI [of _ "[]"]) (simp add: accounts_def)
next
  case (handled m s out logs s1 out2 s2)
  from spec_msg_accounts [OF handled(2)] obtain fin where "accounts pid s out logs fin s1" by blast
  then show ?case
    by (intro exI [of _ fin]) (use finish_no_ack [OF handled(3)] finish_frame [OF handled(3)] in \<open>simp add: accounts_def\<close>)
qed

lemma mset_chain:
  fixes a b f g s s1 s2 :: "'a multiset"
  assumes "a + s = f + s1" and "b + s1 = g + s2"
  shows "(a + b) + s = (f + g) + s2"
proof -
  have "(a + b) + s = (a + s) + b" by (simp add: ac_simps)
  also have "\<dots> = f + (b + s1)" using assms(1) by (simp add: ac_simps)
  finally show ?thesis using assms(2) by (simp add: ac_simps)
qed

lemma accounts_append:
  assumes "accounts pid s out logs fin s1" and "accounts pid s1 out' logs' fin' s2"
  shows "accounts pid s (out @ out') (logs @ logs') (fin @ fin') s2"
  using assms mset_chain [of "mset (filter is_ack out)" _ "mset (map (ack pid \<circ> fst) fin)" _
    "mset (filter is_ack out')" "mset (map (ack pid \<circ> fst) fin')"]
  unfolding accounts_def by simp

lemma spec_run_accounts:
  "spec_run fail pid s ms out logs s' \<Longrightarrow> \<exists>fin. accounts pid s out logs fin s'"
proof (induction rule: spec_run.induct)
  case (run_nil s)
  show ?case by (rule exI [of _ "[]"]) (simp add: accounts_def)
next
  case (run_cons s m out logs s1 ms out' logs' s2)
  from spec_step_accounts [OF run_cons(2)] run_cons(4) obtain fin fin' where
    a: "accounts pid s out logs fin s1" "accounts pid s1 out' logs' fin' s2" by blast
  from accounts_append [OF a] show ?case by blast
qed

text \<open>Jobs are neither lost nor invented, when allocations succeed.\<close>

definition jobs_of :: "spec \<Rightarrow> (int \<times> int \<times> int) multiset" where
  "jobs_of s = mset (map job_key (sp_waiting s)) + mset (map job_key (sp_running s))"

lemma spec_step_jobs:
  assumes "spec_step False pid s m out logs s'"
  shows "\<exists>fin. accounts pid s out logs fin s' \<and>
    jobs_of s + mset (map msg_key (accepted (sp_shut s) [m])) = mset (map (job_key \<circ> fst) fin) + jobs_of s'"
    and "sp_shut s' = (sp_shut s \<or> msg_type m = SHUTDOWN_REQ)"
proof -
  show "\<exists>fin. accounts pid s out logs fin s' \<and>
    jobs_of s + mset (map msg_key (accepted (sp_shut s) [m])) = mset (map (job_key \<circ> fst) fin) + jobs_of s'"
    using assms
  proof (cases rule: spec_step.cases)
    case refused
    then show ?thesis by (intro exI [of _ "[]"]) (simp add: accounts_def accepted_def jobs_of_def)
  next
    case (handled out1 s1 out2)
    note fin = finish_no_ack [OF handled(4)] finish_frame [OF handled(4)]
    have "\<exists>fin. accounts pid s out1 logs fin s1 \<and>
      jobs_of s + mset (map msg_key (accepted (sp_shut s) [m])) = mset (map (job_key \<circ> fst) fin) + jobs_of s1"
      using handled(3)
    proof (cases rule: spec_msg.cases)
      case (submit_started now us)
      then show ?thesis using handled(2)
        by (intro exI [of _ "[]"]) (simp add: accounts_def ack_ack_for accepted_def jobs_of_def)
    next
      case (submit_queued now us)
      then show ?thesis using handled(2)
        by (intro exI [of _ "[]"]) (simp add: accounts_def accepted_def jobs_of_def)
    next
      case (done_known ys j zs t ms js)
      show ?thesis
        by (rule exI [of _ "[(j, ms)]"])
          (use done_known split_first_SomeD [OF done_known(4)] promotes_running [OF done_known(7)] promotes_keys [OF done_known(7)]
            in \<open>simp add: accounts_def log_of_def accepted_def jobs_of_def\<close>)
    next
      case (done_unknown js)
      show ?thesis
        by (rule exI [of _ "[]"])
          (use done_unknown promotes_running [OF done_unknown(5)] promotes_keys [OF done_unknown(5)]
            in \<open>simp add: accounts_def accepted_def jobs_of_def\<close>)
    qed (simp_all add: accounts_def accepted_def jobs_of_def)
    then obtain f where "accounts pid s out1 logs f s1"
      "jobs_of s + mset (map msg_key (accepted (sp_shut s) [m])) = mset (map (job_key \<circ> fst) f) + jobs_of s1" by blast
    then show ?thesis using fin handled(1) by (intro exI [of _ f]) (simp add: accounts_def jobs_of_def)
  qed
  show "sp_shut s' = (sp_shut s \<or> msg_type m = SHUTDOWN_REQ)"
    using assms
    by (cases rule: spec_step.cases; (elim spec_msg_cases)?) (auto dest: finish_frame promotes_frame)
qed

lemma accepted_Cons:
  "accepted sh (m # ms) = accepted sh [m] @ accepted (sh \<or> msg_type m = SHUTDOWN_REQ) ms"
  by (simp add: accepted_def)

lemma spec_run_jobs:
  "spec_run False pid s ms out logs s' \<Longrightarrow> \<exists>fin. accounts pid s out logs fin s' \<and>
    jobs_of s + mset (map msg_key (accepted (sp_shut s) ms)) = mset (map (job_key \<circ> fst) fin) + jobs_of s'"
proof (induction rule: spec_run.induct)
  case (run_nil s)
  show ?case by (rule exI [of _ "[]"]) (simp add: accounts_def accepted_def)
next
  case (run_cons s m out logs s1 ms out' logs' s2)
  from spec_step_jobs(1) [OF run_cons(2)] run_cons(4) obtain f f' where
    f: "accounts pid s out logs f s1"
      "jobs_of s + mset (map msg_key (accepted (sp_shut s) [m])) = mset (map (job_key \<circ> fst) f) + jobs_of s1" and
    f': "accounts pid s1 out' logs' f' s2"
      "jobs_of s1 + mset (map msg_key (accepted (sp_shut s1) ms)) = mset (map (job_key \<circ> fst) f') + jobs_of s2" by blast
  have "jobs_of s + mset (map msg_key (accepted (sp_shut s) (m # ms))) =
      (jobs_of s + mset (map msg_key (accepted (sp_shut s) [m]))) + mset (map msg_key (accepted (sp_shut s1) ms))"
    using spec_step_jobs(2) [OF run_cons(2)] by (simp add: accepted_Cons [of _ m ms])
  also have "\<dots> = mset (map (job_key \<circ> fst) f) + (jobs_of s1 + mset (map msg_key (accepted (sp_shut s1) ms)))"
    using f(2) by (simp add: ac_simps)
  also have "\<dots> = mset (map (job_key \<circ> fst) (f @ f')) + jobs_of s2" using f'(2) by (simp add: ac_simps)
  finally show ?case using accounts_append [OF f(1) f'(1)] by blast
qed

subsection \<open>First come, first served\<close>

lemma spec_step_policy: "spec_step fail pid s m out logs s' \<Longrightarrow> sp_policy s' = sp_policy s"
  using spec_step_frame(2) .

lemma spec_step_fcfs:
  assumes "spec_step False pid s m out logs s'" and "sp_policy s \<notin> {''random'', ''fair''}" and "busy s"
  shows "filter is_ack out @ map (ack_for pid) (map job_key (sp_waiting s')) =
    map (ack_for pid) (map job_key (sp_waiting s)) @ map (ack_for pid) (map msg_key (accepted (sp_shut s) [m]))"
  using assms(1)
proof (cases rule: spec_step.cases)
  case refused
  then show ?thesis by (simp add: accepted_def)
next
  case (handled out1 s1 out2)
  note fin = finish_no_ack [OF handled(4)] finish_frame [OF handled(4)]
  have "filter is_ack out1 @ map (ack_for pid) (map job_key (sp_waiting s1)) =
    map (ack_for pid) (map job_key (sp_waiting s)) @ map (ack_for pid) (map msg_key (accepted (sp_shut s) [m]))"
    using handled(3)
  proof (cases rule: spec_msg.cases)
    case (submit_started now us)
    then have "sp_waiting s = []" using assms(3) by (simp add: busy_def)
    with submit_started handled(2) show ?thesis by (simp add: accepted_def ack_ack_for)
  next
    case (submit_queued now us)
    with handled(2) show ?thesis by (simp add: accepted_def)
  next
    case (done_known ys j zs t ms js)
    have "map job_key (sp_waiting s) = map job_key js @ map job_key (sp_waiting s1)"
      using promotes_fcfs [OF done_known(7)] assms(2) by simp
    with done_known show ?thesis by (simp add: accepted_def ack_ack_for [abs_def])
  next
    case (done_unknown js)
    have "map job_key (sp_waiting s) = map job_key js @ map job_key (sp_waiting s1)"
      using promotes_fcfs [OF done_unknown(5)] assms(2) by simp
    with done_unknown show ?thesis by (simp add: accepted_def ack_ack_for [abs_def])
  qed (simp_all add: accepted_def)
  then show ?thesis using fin handled(1) by simp
qed

lemma spec_run_fcfs:
  "spec_run False pid s ms out logs s' \<Longrightarrow> sp_policy s \<notin> {''random'', ''fair''} \<Longrightarrow> busy s \<Longrightarrow>
    filter is_ack out @ map (ack_for pid) (map job_key (sp_waiting s')) =
    map (ack_for pid) (map job_key (sp_waiting s)) @ map (ack_for pid) (map msg_key (accepted (sp_shut s) ms))"
proof (induction rule: spec_run.induct)
  case (run_cons s m out logs s1 ms out' logs' s2)
  have p: "sp_policy s1 \<notin> {''random'', ''fair''}" using run_cons spec_step_policy by metis
  note ih = run_cons(4) [OF p spec_step_busy [OF run_cons(2,6)]]
  note st = spec_step_fcfs [OF run_cons(2,5,6)]
  have "filter is_ack (out @ out') @ map (ack_for pid) (map job_key (sp_waiting s2)) =
      (filter is_ack out @ map (ack_for pid) (map job_key (sp_waiting s1))) @
      map (ack_for pid) (map msg_key (accepted (sp_shut s1) ms))" using ih by simp
  then show ?case unfolding st using spec_step_jobs(2) [OF run_cons(2)] by (simp add: accepted_Cons [of _ m ms])
qed (simp add: accepted_def)

subsection \<open>Shutdown\<close>

text \<open>The controller stops at the first message after which a shutdown is requested and no job is left.\<close>

definition stop_inv :: "spec \<Rightarrow> bool" where
  "stop_inv s \<longleftrightarrow> sp_stop s = (sp_shut s \<and> sp_running s = [] \<and> sp_waiting s = [])"

lemma spec_step_stop_inv:
  assumes "spec_step fail pid s m out logs s'" and "stop_inv s" and "\<not> sp_stop s"
  shows "stop_inv s'"
  using assms(1)
proof (cases rule: spec_step.cases)
  case (handled out1 s1 out2)
  have "\<not> sp_stop s1" using spec_msg_frame(3) [OF handled(3)] assms(3) by simp
  then show ?thesis using handled(4) by (auto simp: finish_def stop_inv_def split: if_splits)
qed (use assms in simp)

lemma spec_run_stop_inv: "spec_run fail pid s ms out logs s' \<Longrightarrow> stop_inv s \<Longrightarrow> stop_inv s'"
  by (induction rule: spec_run.induct) (auto dest: spec_step_stop_inv)

lemma initial_stop_inv [simp]: "stop_inv (initial lim pol)"
  by (simp add: stop_inv_def initial_def)

lemma spec_run_shut:
  "spec_run fail pid s ms out logs s' \<Longrightarrow> sp_shut s' = (sp_shut s \<or> (\<exists>m\<in>set ms. msg_type m = SHUTDOWN_REQ))"
proof (induction rule: spec_run.induct)
  case (run_cons s m out logs s1 ms out' logs' s2)
  have "sp_shut s1 = (sp_shut s \<or> msg_type m = SHUTDOWN_REQ)"
    using run_cons(2)
    by (cases rule: spec_step.cases; (elim spec_msg_cases)?) (auto dest: finish_frame promotes_frame)
  with run_cons show ?case by auto
qed simp

lemma busy_idle: "busy s \<Longrightarrow> spec_inv s \<Longrightarrow> sp_running s = [] \<Longrightarrow> sp_waiting s = []"
  by (auto simp: busy_def spec_inv_def)

definition is_shutdown_ack :: "sent \<Rightarrow> bool" where
  "is_shutdown_ack x \<longleftrightarrow> msg_type (snd x) = SHUTDOWN_ACK"

text \<open>While a shutdown is pending, a known \<open>DONE\<close> retires one job, and no step adds one.\<close>

definition load :: "spec \<Rightarrow> nat" where
  "load s = length (sp_running s) + length (sp_waiting s)"

lemma promotes_load: "promotes fail s js s' \<Longrightarrow> load s' \<le> load s \<and> (\<not> fail \<longrightarrow> load s' = load s)"
proof (induction rule: promotes.induct)
  case (promote_start s ys j zs js s')
  then show ?case using may_pick_waiting [OF promote_start.hyps(2)] by (simp add: load_def)
next
  case (promote_drop s ys j zs l js s')
  then show ?case using may_pick_waiting [OF promote_drop.hyps(3)] by (simp add: load_def)
qed simp

lemma shutdown_step_load:
  assumes "spec_step fail pid s m out logs s'" and "sp_shut s"
  shows "load s' \<le> load s"
    and "msg_type m = DONE \<Longrightarrow> msg_command_id m \<in> command_id ` set (sp_running s) \<Longrightarrow> load s' < load s"
proof -
  have "load s' \<le> load s \<and> (msg_type m = DONE \<longrightarrow> msg_command_id m \<in> command_id ` set (sp_running s) \<longrightarrow> load s' < load s)"
    using assms(1)
  proof (cases rule: spec_step.cases)
    case (handled out1 s1 out2)
    have "load s1 \<le> load s \<and> (msg_type m = DONE \<longrightarrow> msg_command_id m \<in> command_id ` set (sp_running s) \<longrightarrow> load s1 < load s)"
      using handled(3)
    proof (cases rule: spec_msg.cases)
      case (done_known ys j zs t ms js)
      from split_first_SomeD [OF done_known(4)] have "load s = Suc (load (s\<lparr>sp_running := ys @ zs\<rparr>))"
        by (simp add: load_def)
      with promotes_load [OF done_known(7)] show ?thesis by simp
    next
      case (done_unknown js)
      have "msg_command_id m \<notin> command_id ` set (sp_running s)" using done_unknown(4) by (auto simp: split_first_None)
      with promotes_load [OF done_unknown(5)] show ?thesis by simp
    qed (use handled assms(2) in \<open>auto simp: load_def\<close>)
    then show ?thesis using finish_frame [OF handled(4)] by (simp add: load_def)
  qed simp
  then show "load s' \<le> load s"
    and "msg_type m = DONE \<Longrightarrow> msg_command_id m \<in> command_id ` set (sp_running s) \<Longrightarrow> load s' < load s" by auto
qed

text \<open>A run in which every message is a \<open>DONE\<close> of a job that is running at that moment.\<close>

inductive drains :: "bool \<Rightarrow> int \<Rightarrow> spec \<Rightarrow> RpcMessage list \<Rightarrow> sent list \<Rightarrow> spec \<Rightarrow> bool" for fail :: bool and pid :: int where
  drain_nil: "drains fail pid s [] [] s"
| drain_cons: "\<not> sp_stop s \<Longrightarrow> msg_type m = DONE \<Longrightarrow> msg_command_id m \<in> command_id ` set (sp_running s) \<Longrightarrow>
    spec_step fail pid s m out logs s1 \<Longrightarrow> drains fail pid s1 ms out' s2 \<Longrightarrow> drains fail pid s (m # ms) (out @ out') s2"

lemma drains_load:
  "drains fail pid s ms out s' \<Longrightarrow> sp_shut s \<Longrightarrow> stop_inv s \<Longrightarrow> sp_shut s' \<and> stop_inv s' \<and> load s' + length ms \<le> load s"
proof (induction rule: drains.induct)
  case (drain_cons s m out logs s1 ms out' s2)
  have "sp_shut s1"
    using spec_run_shut [OF spec_run.run_cons [OF drain_cons(1,4) spec_run.run_nil]] drain_cons(7) by simp
  moreover have "stop_inv s1" using spec_step_stop_inv [OF drain_cons(4,8,1)] .
  ultimately show ?case
    using drain_cons.IH shutdown_step_load(2) [OF drain_cons(4,7,2,3)] by simp
qed simp

subsection \<open>Fairness over whole runs\<close>

text \<open>The users that the fair policy may serve before \<open>u\<close>.\<close>

definition ahead :: "spec \<Rightarrow> int \<Rightarrow> int list" where
  "ahead s u = takeWhile (\<lambda>v. v \<noteq> u) (after_user (sp_last s) (sp_users s))"

definition fair_inv :: "spec \<Rightarrow> bool" where
  "fair_inv s \<longleftrightarrow> sp_policy s = ''fair'' \<and> distinct (sp_users s) \<and> user_id ` set (sp_waiting s) \<subseteq> set (sp_users s)"

lemma ahead_users: "set (ahead s u) \<subseteq> set (sp_users s)"
  unfolding ahead_def by (auto dest: set_takeWhileD)

lemma ahead_not [simp]: "u \<notin> set (ahead s u)"
  unfolding ahead_def by (auto dest: set_takeWhileD)

lemma fair_turn:
  assumes d: "distinct fu" and us: "user_id ` set js \<subseteq> set fu" and u: "u \<in> user_id ` set js"
    and v: "v = fair_user fu l (users_of js)" and vu: "v \<noteq> u"
  shows "v \<in> set (takeWhile (\<lambda>x. x \<noteq> u) (after_user l fu))"
    and "set (takeWhile (\<lambda>x. x \<noteq> u) (after_user v fu)) \<subseteq> set (takeWhile (\<lambda>x. x \<noteq> u) (after_user l fu)) - {v}"
proof -
  let ?R = "after_user l fu" and ?P = "\<lambda>x. x \<in> set (users_of js)"
  have ufu: "u \<in> set fu" using u us by blast
  have "\<exists>x\<in>set ?R. ?P x" using u ufu by auto
  then obtain p y q where y: "split_first ?P ?R = Some (p, y, q)" "?R = p @ y # q" "\<forall>x\<in>set p. \<not> ?P x"
    by (rule split_first_exists) blast
  have ne: "users_of js \<noteq> []" "fu \<noteq> []" using u ufu by auto
  have vy: "v = y" using y(1) ne by (simp add: v fair_user_def)
  have up: "u \<notin> set p" using y(3) u by auto
  have "u \<in> set ?R" using ufu by simp
  with up vu vy have uq: "u \<in> set q" by (simp add: y(2))
  have tw: "takeWhile (\<lambda>x. x \<noteq> u) ?R = p @ v # takeWhile (\<lambda>x. x \<noteq> u) q"
    using up vu vy by (auto simp: y(2) takeWhile_append)
  show "v \<in> set (takeWhile (\<lambda>x. x \<noteq> u) ?R)" by (simp add: tw)
  have dR: "distinct (p @ v # q)" using d y(2) vy by (metis distinct_after_user)
  have "v \<in> set fu" using vy y(2) by (metis in_set_conv_decomp set_after_user)
  then have "after_user v fu = after_user v (p @ v # q)" using after_user_after [OF d, of v l] by (simp add: y(2) vy)
  also have "\<dots> = q @ p @ [v]" by (rule after_user_mid [OF dR])
  finally have "takeWhile (\<lambda>x. x \<noteq> u) (after_user v fu) = takeWhile (\<lambda>x. x \<noteq> u) q"
    using uq by (simp add: takeWhile_append1)
  then show "set (takeWhile (\<lambda>x. x \<noteq> u) (after_user v fu)) \<subseteq> set (takeWhile (\<lambda>x. x \<noteq> u) ?R) - {v}"
    using dR unfolding tw by (auto dest: set_takeWhileD)
qed

lemma after_user_snoc:
  assumes "w \<notin> set fu" and "u \<in> set fu"
  shows "set (takeWhile (\<lambda>x. x \<noteq> u) (after_user l (fu @ [w]))) \<subseteq> insert w (set (takeWhile (\<lambda>x. x \<noteq> u) (after_user l fu)))"
proof (cases "split_first (\<lambda>x. x = l) fu")
  case None
  then have "l \<notin> set fu" by (auto simp: split_first_None)
  then have "split_first (\<lambda>x. x = l) (fu @ [w]) = (if w = l then Some (fu, w, []) else None)"
    using split_first_mid [of fu "\<lambda>x. x = l" w "[]"] by (auto simp: split_first_None)
  then have "after_user l (fu @ [w]) = fu @ [w]" by (simp add: after_user_def)
  moreover have "after_user l fu = fu" using None by (simp add: after_user_def)
  ultimately show ?thesis using assms(2) by (auto simp: takeWhile_append1)
next
  case (Some r)
  then obtain ys zs where r: "split_first (\<lambda>x. x = l) fu = Some (ys, l, zs)" and fu: "fu = ys @ l # zs" and ys: "\<forall>x\<in>set ys. x \<noteq> l"
    using split_first_SomeD by (cases r) fastforce
  have "after_user l (fu @ [w]) = zs @ w # ys @ [l]"
    using split_first_mid [of ys "\<lambda>x. x = l" l "zs @ [w]"] ys by (simp add: fu after_user_def)
  moreover have "after_user l fu = zs @ ys @ [l]" using r by (simp add: after_user_def)
  ultimately show ?thesis
    by (cases "u \<in> set zs") (auto simp: takeWhile_append1 takeWhile_append2 takeWhile_append split: if_splits)
qed

lemma promotes_fair:
  assumes "promotes False s js s'" and "fair_inv s" and "u \<in> user_id ` set (sp_waiting s)" and "u \<notin> user_id ` set js"
  shows "fair_inv s' \<and> u \<in> user_id ` set (sp_waiting s') \<and> distinct (map user_id js) \<and>
    user_id ` set js \<subseteq> set (ahead s u) \<and> set (ahead s' u) \<subseteq> set (ahead s u) - user_id ` set js"
  using assms
proof (induction rule: promotes.induct)
  case (promote_start s ys j zs js s')
  let ?s1 = "s\<lparr>sp_waiting := ys @ zs, sp_running := sp_running s @ [started j], sp_last := user_id j\<rparr>"
  note w = may_pick_waiting [OF promote_start.hyps(2)]
  have uj: "user_id j \<noteq> u" using promote_start.prems(3) by auto
  have v: "user_id j = fair_user (sp_users s) (sp_last s) (users_of (sp_waiting s))"
    using promote_start.hyps(2) promote_start.prems(1) by (simp add: may_pick_def fair_inv_def)
  have d: "distinct (sp_users s)" and us: "user_id ` set (sp_waiting s) \<subseteq> set (sp_users s)"
    using promote_start.prems(1) by (simp_all add: fair_inv_def)
  note turn = fair_turn [OF d us promote_start.prems(2) v uj]
  have t1: "user_id j \<in> set (ahead s u)" and t2: "set (ahead ?s1 u) \<subseteq> set (ahead s u) - {user_id j}"
    using turn by (simp_all add: ahead_def)
  have "fair_inv ?s1" using promote_start.prems(1) w by (simp add: fair_inv_def)
  moreover have "u \<in> user_id ` set (sp_waiting ?s1)" using promote_start.prems(2) w uj by auto
  ultimately show ?case using promote_start.IH promote_start.prems(3) t1 t2 by auto
qed simp_all

definition ack_users :: "sent list \<Rightarrow> int list" where
  "ack_users out = map (\<lambda>x. msg_user_id (snd x)) (filter is_ack out)"

lemma ack_users_append [simp]: "ack_users (out @ out') = ack_users out @ ack_users out'"
  by (simp add: ack_users_def)

lemma ack_users_acks [simp]: "ack_users (map (ack pid) js) = map user_id js"
  by (induction js) (simp_all add: ack_users_def ack_def is_ack_def)

lemma ack_users_none: "filter is_ack out = [] \<Longrightarrow> ack_users out = []"
  by (simp add: ack_users_def)

definition fair_wait :: "spec \<Rightarrow> int \<Rightarrow> int list \<Rightarrow> spec \<Rightarrow> bool" where
  "fair_wait s u served s' \<longleftrightarrow> fair_inv s' \<and> u \<in> user_id ` set (sp_waiting s') \<and> distinct served \<and>
     set (sp_users s) \<subseteq> set (sp_users s') \<and> set served \<subseteq> set (ahead s u) \<and>
     set (ahead s' u) \<subseteq> (set (ahead s u) - set served) \<union> (set (sp_users s') - set (sp_users s))"

lemma fair_wait_refl: "fair_inv s \<Longrightarrow> u \<in> user_id ` set (sp_waiting s) \<Longrightarrow> fair_wait s u [] s"
  by (auto simp: fair_wait_def)

lemma ahead_cong: "sp_last s' = sp_last s \<Longrightarrow> sp_users s' = sp_users s \<Longrightarrow> ahead s' u = ahead s u"
  by (simp add: ahead_def)

lemma fair_step:
  assumes step: "spec_step False pid s m out logs s'" and fi: "fair_inv s" and b: "busy s"
    and u: "u \<in> user_id ` set (sp_waiting s)" and nu: "u \<notin> set (ack_users out)"
  shows "fair_wait s u (ack_users out) s'"
  using step
proof (cases rule: spec_step.cases)
  case refused
  then show ?thesis using fair_wait_refl [OF fi u] by (simp add: ack_users_def)
next
  case (handled out1 s1 out2)
  note fin = finish_no_ack [OF handled(4)] finish_frame [OF handled(4)]
  have au: "ack_users out = ack_users out1" using handled(1) ack_users_none [OF fin(1)] by simp
  have "fair_wait s u (ack_users out1) s1"
    using handled(3)
  proof (cases rule: spec_msg.cases)
    case (submit_started now us)
    then show ?thesis using b u by (auto simp: busy_def)
  next
    case (submit_queued now us)
    have us: "us = add_user (msg_user_id m) (sp_users s)" using submit_queued by (simp add: users_after_def)
    have uu: "u \<in> set (sp_users s)" using fi u by (auto simp: fair_inv_def)
    have "set (ahead s1 u) \<subseteq> set (ahead s u) \<union> (set us - set (sp_users s))"
      using after_user_snoc [OF _ uu, of "msg_user_id m" "sp_last s"] submit_queued(3)
      by (auto simp: ahead_def us add_user_def)
    then show ?thesis using submit_queued fi u us
      by (auto simp: fair_wait_def fair_inv_def ack_users_def job_of_def)
  next
    case (done_known ys j zs t ms js)
    let ?s = "s\<lparr>sp_running := ys @ zs\<rparr>"
    have "fair_inv ?s" and "u \<in> user_id ` set (sp_waiting ?s)" using fi u by (simp_all add: fair_inv_def)
    moreover have "u \<notin> user_id ` set js" using nu au done_known(1) by simp
    moreover have "ahead ?s u = ahead s u" by (rule ahead_cong) simp_all
    ultimately show ?thesis using promotes_fair [OF done_known(7), of u] done_known(1) promotes_frame [OF done_known(7)]
      by (auto simp: fair_wait_def)
  next
    case (done_unknown js)
    have "u \<notin> user_id ` set js" using nu au done_unknown(1) by simp
    then show ?thesis using promotes_fair [OF done_unknown(5) fi u] done_unknown(1) promotes_frame [OF done_unknown(5)]
      by (auto simp: fair_wait_def)
  next
    case (status_sent wl)
    then show ?thesis using fair_wait_refl [OF fi u] by (simp add: ack_users_def)
  next
    case shutdown_requested
    moreover have "ahead (s\<lparr>sp_shut := True, sp_req := sender_pid m\<rparr>) u = ahead s u" by (rule ahead_cong) simp_all
    ultimately show ?thesis using fi u by (auto simp: fair_wait_def fair_inv_def ack_users_def)
  next
    case other_ignored
    then show ?thesis using fair_wait_refl [OF fi u] by (simp add: ack_users_def)
  qed simp_all
  moreover have "ahead s' u = ahead s1 u" by (rule ahead_cong) (use fin in simp_all)
  ultimately show ?thesis using fin au by (simp add: fair_wait_def fair_inv_def)
qed

definition fair_served :: "spec \<Rightarrow> int \<Rightarrow> int list \<Rightarrow> spec \<Rightarrow> bool" where
  "fair_served s u served s' \<longleftrightarrow> distinct served \<and> u \<in> user_id ` set (sp_waiting s') \<and> set (sp_users s) \<subseteq> set (sp_users s') \<and>
     u \<in> set (sp_users s') \<and> set served \<subseteq> set (ahead s u) \<union> (set (sp_users s') - set (sp_users s))"

lemma fair_run:
  "spec_run False pid s ms out logs s' \<Longrightarrow> fair_inv s \<Longrightarrow> busy s \<Longrightarrow> u \<in> user_id ` set (sp_waiting s) \<Longrightarrow>
    u \<notin> set (ack_users out) \<Longrightarrow> fair_served s u (ack_users out) s'"
proof (induction rule: spec_run.induct)
  case (run_nil s)
  then show ?case by (auto simp: fair_served_def ack_users_def fair_inv_def)
next
  case (run_cons s m out logs s1 ms out' logs' s2)
  have "fair_wait s u (ack_users out) s1"
    by (rule fair_step [OF run_cons(2,5,6,7)]) (use run_cons(8) in simp)
  then have w: "fair_inv s1" "u \<in> user_id ` set (sp_waiting s1)" "distinct (ack_users out)"
    "set (sp_users s) \<subseteq> set (sp_users s1)" "set (ack_users out) \<subseteq> set (ahead s u)"
    "set (ahead s1 u) \<subseteq> (set (ahead s u) - set (ack_users out)) \<union> (set (sp_users s1) - set (sp_users s))"
    unfolding fair_wait_def by blast+
  have "fair_served s1 u (ack_users out') s2"
    by (rule run_cons.IH [OF w(1) spec_step_busy [OF run_cons(2,6)] w(2)]) (use run_cons(8) in simp)
  then have r: "distinct (ack_users out')" "u \<in> user_id ` set (sp_waiting s2)" "set (sp_users s1) \<subseteq> set (sp_users s2)"
    "u \<in> set (sp_users s2)" "set (ack_users out') \<subseteq> set (ahead s1 u) \<union> (set (sp_users s2) - set (sp_users s1))"
    unfolding fair_served_def by blast+
  have "set (ack_users out) \<inter> set (ack_users out') = {}"
    using w(4,5,6) r(5) ahead_users [of s u] by blast
  moreover have "set (ack_users out') \<subseteq> set (ahead s u) \<union> (set (sp_users s2) - set (sp_users s))"
    using w(4,6) r(3,5) by blast
  ultimately show ?case using w r unfolding fair_served_def by auto
qed

end
