(* ===== verification/Controller_Theorems.thy ===== *)
theory Controller_Theorems
  imports Spec_Properties
begin

text \<open>
  The properties of the controller program as a whole, over all inputs and environments, each with an
  instance at a concrete process and input.
\<close>

subsection \<open>A concrete process and input\<close>

definition demo_world :: world where
  "demo_world = \<lparr>tick = 0, malloc_ok = (\<lambda>_. True), rand_out = (\<lambda>t. t), clock_out = (\<lambda>_. \<lparr>tv_sec = 1000, tv_usec = 0\<rparr>),
     sys_out = (\<lambda>_. 504), self_pid = 100, blocks = 0, open_fds = 3, events = [],
     fresh = 0, nodes = Map.empty, queues = Map.empty\<rparr>"

definition submit_msg :: "int \<Rightarrow> int \<Rightarrow> int \<Rightarrow> RpcMessage" where
  "submit_msg pid uid cid = \<lparr>msg_type = SUBMIT, sender_pid = pid, msg_user_id = uid, msg_command_id = cid, payload = []\<rparr>"

definition shutdown_msg :: "int \<Rightarrow> RpcMessage" where
  "shutdown_msg pid = \<lparr>msg_type = SHUTDOWN_REQ, sender_pid = pid, msg_user_id = 0, msg_command_id = 0, payload = []\<rparr>"

definition done_msg :: "int \<Rightarrow> int \<Rightarrow> int \<Rightarrow> RpcMessage" where
  "done_msg pid uid cid = \<lparr>msg_type = DONE, sender_pid = pid, msg_user_id = uid, msg_command_id = cid, payload = []\<rparr>"

definition demo_sessions :: "read_result list list" where
  "demo_sessions = [[(504, submit_msg 201 1 11), (504, submit_msg 202 2 12)], [(504, submit_msg 203 1 13)],
     [(504, done_msg 201 1 11), (0, zero_msg)], [(504, shutdown_msg 300)]]"

lemma demo_world_ok [simp]:
  "fresh_process demo_world" "clock_ok demo_world" "sys_ok demo_world" "\<not> may_fail demo_world"
  "self_pid demo_world = 100" "events demo_world = []"
  by (simp_all add: demo_world_def fresh_process_def clock_ok_def sane_time_def sys_ok_def may_fail_def)

definition received :: "read_result list list \<Rightarrow> RpcMessage list" where
  "received ss = concat (map whole ss)"

lemma demo_received: "received demo_sessions = [submit_msg 201 1 11, submit_msg 202 2 12, submit_msg 203 1 13,
    done_msg 201 1 11, shutdown_msg 300]"
  by (simp add: received_def demo_sessions_def)

definition demo_argv :: "string list" where
  "demo_argv = [''controller'', ''1'', ''fair'']"

lemma demo_configure: "controller_configure demo_argv = Some
    \<lparr>parallel_limit = 1, running_count = 0, keep_running = True, is_shutting_down = False,
     shutdown_requester_pid = - 1, last_scheduled_user = - 1, fair_users = None, fair_user_count = 0,
     fair_user_capacity = 0, waiting_queue = NULL, running_queue = NULL, policy = ''fair''\<rparr>"
  by code_simp

lemma demo_configure_fcfs: "controller_configure [''controller'', ''1''] = Some
    \<lparr>parallel_limit = 1, running_count = 0, keep_running = True, is_shutting_down = False,
     shutdown_requester_pid = - 1, last_scheduled_user = - 1, fair_users = None, fair_user_count = 0,
     fair_user_capacity = 0, waiting_queue = NULL, running_queue = NULL, policy = ''fcfs''\<rparr>"
  by code_simp

lemma main_run:
  assumes "fresh_process w" and "clock_ok w" and "controller_configure argv = Some st0"
    and "3 * int (length (received ss)) < 2 ^ 31"
  obtains res w' s' ms rest es out logs where "controller_main argv ss w = Some (res, w')"
    and "spec_run (may_fail w) (self_pid w) (initial (parallel_limit st0) (policy st0)) ms out logs s'"
    and "effect w es w'" and "sends w es out logs" and "received ss = ms @ rest"
    and "case res of Blocked st' \<Rightarrow> ctl_rep st' w' s' \<and> \<not> sp_stop s' \<and> rest = []
      | Exit c \<Rightarrow> released w' \<and> (c = 0 \<and> sp_stop s' \<or> c = 1 \<and> \<not> sp_stop s' \<and> (may_fail w \<or> \<not> sys_ok w))"
proof -
  from controller_main_ok [OF assms(1-3), of ss] assms(4)
  have "program_ok w (initial (parallel_limit st0) (policy st0)) (received ss) (controller_main argv ss w)"
    unfolding received_def by blast
  then show thesis unfolding program_ok_def runs_to_def using that by blast
qed

lemma spec_run_limit: "spec_run fail pid s ms out logs s' \<Longrightarrow> sp_limit s' = sp_limit s \<and> sp_policy s' = sp_policy s"
  by (induction rule: spec_run.induct) (auto dest: spec_step_frame)

lemma accounts_count:
  assumes "accounts pid s out logs fin s'"
  shows "length (filter is_ack out) + length (sp_running s) = length logs + length (sp_running s')"
proof -
  have "size (mset (filter is_ack out) + mset (map (ack pid) (sp_running s))) =
      size (mset (map (ack pid \<circ> fst) fin) + mset (map (ack pid) (sp_running s')))"
    using assms unfolding accounts_def by (simp only:)
  then show ?thesis using assms by (simp add: accounts_def del: mset_filter)
qed

lemma jobs_count: "size (jobs_of s) = load s"
  by (simp add: jobs_of_def load_def)

lemma initial_load [simp]: "load (initial lim pol) = 0"
  by (simp add: load_def initial_def)

lemma spec_run_count:
  assumes "spec_run False pid (initial lim pol) ms out logs s'"
  shows "length (accepted False ms) = length logs + load s'"
proof -
  from spec_run_jobs [OF assms] obtain fin where f: "accounts pid (initial lim pol) out logs fin s'"
    "jobs_of (initial lim pol) + mset (map msg_key (accepted False ms)) = mset (map (job_key \<circ> fst) fin) + jobs_of s'"
    by (auto simp: initial_def)
  have "size (jobs_of (initial lim pol) + mset (map msg_key (accepted False ms))) =
      size (mset (map (job_key \<circ> fst) fin) + jobs_of s')" unfolding f(2) ..
  then show ?thesis using f(1) by (simp add: jobs_count accounts_def)
qed

lemma accepted_done: "\<exists>m\<in>set ms. msg_type m = SHUTDOWN_REQ \<Longrightarrow> accepted sh (ms @ rest) = accepted sh ms"
  by (auto simp: accepted_def takeWhile_append1)

subsection \<open>Properties\<close>

lemma demo_bound: "3 * int (length (received demo_sessions)) < 2 ^ 31"
  by (simp add: demo_received)

lemmas demo_main = demo_world_ok(1,2) demo_configure demo_bound

text \<open>
  C1. The controller program is defined (it returns; no undefined behaviour occurs) for every
  configuration, every input and every outcome of allocations and system calls. It implements the
  specification: some sequence of its steps explains the messages that arrived and the lines logged,
  all of them when every system call succeeds. The program leaves no descriptor open; it ends up
  waiting for the next writer in a state related to the abstract one, or exits with nothing left on
  the heap: with code 0 after a shutdown, with code 1 only if an allocation or a system call failed.
\<close>

theorem controller_main_refines:
  assumes "fresh_process w" and "clock_ok w" and "controller_configure argv = Some st0"
    and "3 * int (length (received ss)) < 2 ^ 31"
  shows "\<exists>res w' s' ms rest es out logs. controller_main argv ss w = Some (res, w') \<and>
    received ss = ms @ rest \<and>
    spec_run (may_fail w) (self_pid w) (initial (parallel_limit st0) (policy st0)) ms out logs s' \<and>
    events w' = events w @ es \<and> open_fds w' = open_fds w \<and>
    subseq (delivered es) out \<and> subseq (logged es) logs \<and>
    (sys_ok w \<longrightarrow> delivered es = out \<and> logged es = logs) \<and>
    (case res of
       Blocked st' \<Rightarrow> ctl_rep st' w' s' \<and> \<not> sp_stop s' \<and> rest = []
     | Exit c \<Rightarrow> nodes w' = Map.empty \<and> queues w' = Map.empty \<and> blocks w' = 0 \<and>
         (c = 0 \<and> sp_stop s' \<or> c = 1 \<and> \<not> sp_stop s' \<and> (may_fail w \<or> \<not> sys_ok w)))"
proof -
  obtain res w' s' ms rest es out logs where r: "controller_main argv ss w = Some (res, w')"
    "spec_run (may_fail w) (self_pid w) (initial (parallel_limit st0) (policy st0)) ms out logs s'"
    "effect w es w'" "sends w es out logs" "received ss = ms @ rest"
    "case res of Blocked st' \<Rightarrow> ctl_rep st' w' s' \<and> \<not> sp_stop s' \<and> rest = []
      | Exit c \<Rightarrow> released w' \<and> (c = 0 \<and> sp_stop s' \<or> c = 1 \<and> \<not> sp_stop s' \<and> (may_fail w \<or> \<not> sys_ok w))"
    by (rule main_run [OF assms])
  then show ?thesis unfolding effect_def sends_def released_def
    by (intro exI [of _ res] exI [of _ w'] exI [of _ s'] exI [of _ ms] exI [of _ rest] exI [of _ es]
        exI [of _ out] exI [of _ logs]) (auto split: main_result.splits)
qed

theorem controller_main_refines_witness:
  "\<exists>res w' s' ms rest out logs. controller_main demo_argv demo_sessions demo_world = Some (res, w') \<and>
    received demo_sessions = ms @ rest \<and> spec_run False 100 (initial 1 ''fair'') ms out logs s'"
  using controller_main_refines [OF demo_main] by auto

text \<open>
  C5. The concurrency limit. At any point of any run, with failing allocations or not, the number of
  jobs authorised (acknowledgements that arrived) exceeds the number of jobs logged as finished by at
  most the limit the controller was started with.
\<close>

theorem concurrency_limit:
  assumes "fresh_process w" and "clock_ok w" and "controller_configure argv = Some st0"
    and "3 * int (length (received ss)) < 2 ^ 31" and "sys_ok w"
  shows "\<exists>res w' es. controller_main argv ss w = Some (res, w') \<and> events w' = events w @ es \<and>
    int (length (filter is_ack (delivered es))) \<le> int (length (logged es)) + parallel_limit st0"
proof -
  obtain res w' s' ms rest es out logs where r: "controller_main argv ss w = Some (res, w')"
    "spec_run (may_fail w) (self_pid w) (initial (parallel_limit st0) (policy st0)) ms out logs s'"
    "effect w es w'" "sends w es out logs" by (rule main_run [OF assms(1-4)])
  from spec_run_accounts [OF r(2)] obtain fin where f: "accounts (self_pid w) (initial (parallel_limit st0) (policy st0)) out logs fin s'"
    by blast
  from accounts_count [OF this] have "length (filter is_ack out) = length logs + length (sp_running s')"
    by (simp add: initial_def)
  moreover have "int (length (sp_running s')) \<le> parallel_limit st0"
    using spec_run_inv [OF r(2) initial_inv [OF controller_configure_ok(1) [OF assms(3)]]] spec_run_limit [OF r(2)]
    by (simp add: spec_inv_def initial_def)
  ultimately show ?thesis using r(1,3,4) assms(5) by (auto simp: sends_def effect_def)
qed


theorem concurrency_limit_witness:
  "\<exists>res w' es. controller_main demo_argv demo_sessions demo_world = Some (res, w') \<and> events w' = es \<and>
    int (length (filter is_ack (delivered es))) \<le> int (length (logged es)) + 1"
  using concurrency_limit [OF demo_main demo_world_ok(3)] by simp

lemma all_ok_run:
  assumes "fresh_process w" and "clock_ok w" and "controller_configure argv = Some st0"
    and "3 * int (length (received ss)) < 2 ^ 31" and "sys_ok w" and "\<not> may_fail w"
  obtains res w' s' ms rest es where "controller_main argv ss w = Some (res, w')" and "events w' = events w @ es"
    and "spec_run False (self_pid w) (initial (parallel_limit st0) (policy st0)) ms (delivered es) (logged es) s'"
    and "received ss = ms @ rest"
    and "case res of Blocked st' \<Rightarrow> ctl_rep st' w' s' \<and> \<not> sp_stop s' \<and> rest = []
      | Exit c \<Rightarrow> released w' \<and> c = 0 \<and> sp_stop s'"
proof -
  obtain res w' s' ms rest es out logs where r: "controller_main argv ss w = Some (res, w')"
    "spec_run (may_fail w) (self_pid w) (initial (parallel_limit st0) (policy st0)) ms out logs s'"
    "effect w es w'" "sends w es out logs" "received ss = ms @ rest"
    "case res of Blocked st' \<Rightarrow> ctl_rep st' w' s' \<and> \<not> sp_stop s' \<and> rest = []
      | Exit c \<Rightarrow> released w' \<and> (c = 0 \<and> sp_stop s' \<or> c = 1 \<and> \<not> sp_stop s' \<and> (may_fail w \<or> \<not> sys_ok w))"
    by (rule main_run [OF assms(1-4)])
  show thesis
    by (rule that [OF r(1), of es ms s' rest])
      (use r assms(5,6) in \<open>auto simp: effect_def sends_def split: main_result.splits\<close>)
qed

text \<open>
  C8. Conservation of jobs. When no allocation and no system call fails, the accepted submissions are,
  as a multiset, the jobs logged as finished, the running and the waiting ones; exactly the finished
  and the running jobs have been acknowledged, each once; and the counter of running jobs is exact.
\<close>

theorem jobs_conserved:
  assumes "fresh_process w" and "clock_ok w" and "controller_configure argv = Some st0"
    and "3 * int (length (received ss)) < 2 ^ 31" and "sys_ok w" and "\<not> may_fail w"
  shows "\<exists>res w' es ms rest fin run wait. controller_main argv ss w = Some (res, w') \<and> events w' = events w @ es \<and>
    received ss = ms @ rest \<and> (\<forall>st'. res = Blocked st' \<longrightarrow> rest = [] \<and> running_count st' = int (length run)) \<and>
    logged es = map log_of fin \<and>
    mset (map msg_key (accepted False ms)) =
      mset (map (job_key \<circ> fst) fin) + mset (map job_key run) + mset (map job_key wait) \<and>
    mset (filter is_ack (delivered es)) = mset (map (ack (self_pid w) \<circ> fst) fin) + mset (map (ack (self_pid w)) run)"
proof -
  obtain res w' s' ms rest es where r: "controller_main argv ss w = Some (res, w')" "events w' = events w @ es"
    "spec_run False (self_pid w) (initial (parallel_limit st0) (policy st0)) ms (delivered es) (logged es) s'"
    "received ss = ms @ rest"
    "case res of Blocked st' \<Rightarrow> ctl_rep st' w' s' \<and> \<not> sp_stop s' \<and> rest = [] | Exit c \<Rightarrow> released w' \<and> c = 0 \<and> sp_stop s'"
    by (rule all_ok_run [OF assms])
  from spec_run_jobs [OF r(3)] obtain fin where f: "accounts (self_pid w) (initial (parallel_limit st0) (policy st0)) (delivered es) (logged es) fin s'"
    "mset (map msg_key (accepted False ms)) = mset (map (job_key \<circ> fst) fin) + jobs_of s'"
    by (auto simp: initial_def jobs_of_def)
  show ?thesis
    by (rule exI [of _ res], rule exI [of _ w'], rule exI [of _ es], rule exI [of _ ms], rule exI [of _ rest],
        rule exI [of _ fin], rule exI [of _ "sp_running s'"], rule exI [of _ "sp_waiting s'"])
      (use r f ctl_repD(4) in \<open>auto simp: accounts_def jobs_of_def initial_def simp del: mset_filter mset_map\<close>)
qed

theorem jobs_conserved_witness:
  "\<exists>res w' ms rest (fin :: (job_info \<times> int) list) run wait. controller_main demo_argv demo_sessions demo_world = Some (res, w') \<and>
    received demo_sessions = ms @ rest \<and>
    mset (map msg_key (accepted False ms)) =
      mset (map (job_key \<circ> fst) fin) + mset (map job_key run) + mset (map job_key wait)"
  using jobs_conserved [OF demo_main demo_world_ok(3,4)]
  by blast

text \<open>
  C9. First come, first served. Under every policy name other than \<open>random\<close> and \<open>fair\<close> the
  acknowledgements are sent in the order of the accepted submissions: they are an initial segment of
  them.
\<close>

theorem fcfs_order:
  assumes "fresh_process w" and "clock_ok w" and "controller_configure argv = Some st0"
    and "3 * int (length (received ss)) < 2 ^ 31" and "sys_ok w" and "\<not> may_fail w"
    and "policy st0 \<noteq> ''random''" and "policy st0 \<noteq> ''fair''"
  shows "\<exists>res w' es later. controller_main argv ss w = Some (res, w') \<and> events w' = events w @ es \<and>
    filter is_ack (delivered es) @ later = map (ack_for (self_pid w) \<circ> msg_key) (accepted False (received ss))"
proof -
  obtain res w' s' ms rest es where r: "controller_main argv ss w = Some (res, w')" "events w' = events w @ es"
    "spec_run False (self_pid w) (initial (parallel_limit st0) (policy st0)) ms (delivered es) (logged es) s'"
    "received ss = ms @ rest"
    "case res of Blocked st' \<Rightarrow> ctl_rep st' w' s' \<and> \<not> sp_stop s' \<and> rest = [] | Exit c \<Rightarrow> released w' \<and> c = 0 \<and> sp_stop s'"
    by (rule all_ok_run [OF assms(1-6)])
  have f: "filter is_ack (delivered es) @ map (ack_for (self_pid w)) (map job_key (sp_waiting s')) =
      map (ack_for (self_pid w)) (map msg_key (accepted False ms))"
    using spec_run_fcfs [OF r(3)] assms(7,8) by (simp add: initial_def busy_def)
  have "accepted False (received ss) = accepted False ms"
  proof (cases res)
    case (Exit c)
    then have "sp_stop s'" using r(5) by simp
    then have "sp_shut s'" using spec_run_stop_inv [OF r(3) initial_stop_inv] by (simp add: stop_inv_def)
    then have "\<exists>m\<in>set ms. msg_type m = SHUTDOWN_REQ" using spec_run_shut [OF r(3)] by (simp add: initial_def)
    then show ?thesis by (simp add: r(4) accepted_done)
  next
    case (Blocked st')
    then show ?thesis using r(4,5) by simp
  qed
  then show ?thesis using r(1,2) f by fastforce
qed

theorem fcfs_order_witness:
  "\<exists>res w' es later. controller_main [''controller'', ''1''] demo_sessions demo_world = Some (res, w') \<and> events w' = es \<and>
    filter is_ack (delivered es) @ later = map (ack_for 100 \<circ> msg_key) (accepted False (received demo_sessions))"
  using fcfs_order [OF demo_world_ok(1,2) demo_configure_fcfs demo_bound demo_world_ok(3,4)] by simp

text \<open>
  C10. Work conservation. Whenever the controller waits for the next writer, all slots are taken or no
  job is waiting; this holds for every policy and even when allocations or system calls fail.
\<close>

theorem no_idle_slot:
  assumes "fresh_process w" and "clock_ok w" and "controller_configure argv = Some st0"
    and "3 * int (length (received ss)) < 2 ^ 31"
  shows "\<exists>res w'. controller_main argv ss w = Some (res, w') \<and>
    (\<forall>st'. res = Blocked st' \<longrightarrow> running_count st' = parallel_limit st' \<or> queue_is_empty (waiting_queue st') w' = Some True)"
proof -
  obtain res w' s' ms rest es out logs where r: "controller_main argv ss w = Some (res, w')"
    "spec_run (may_fail w) (self_pid w) (initial (parallel_limit st0) (policy st0)) ms out logs s'"
    "effect w es w'" "sends w es out logs" "received ss = ms @ rest"
    "case res of Blocked st' \<Rightarrow> ctl_rep st' w' s' \<and> \<not> sp_stop s' \<and> rest = []
      | Exit c \<Rightarrow> released w' \<and> (c = 0 \<and> sp_stop s' \<or> c = 1 \<and> \<not> sp_stop s' \<and> (may_fail w \<or> \<not> sys_ok w))"
    by (rule main_run [OF assms])
  have b: "busy s'" by (rule spec_run_busy [OF r(2)]) simp
  have i: "spec_inv s'" by (rule spec_run_inv [OF r(2) initial_inv [OF controller_configure_ok(1) [OF assms(3)]]])
  have "running_count st' = parallel_limit st' \<or> queue_is_empty (waiting_queue st') w' = Some True" if "res = Blocked st'" for st'
    using that r(6) b i ctl_repD(4,5) [of st' w' s'] waiting_is_empty [OF ctl_repD(1), of st' w' s']
    by (auto simp: busy_def spec_inv_def)
  then show ?thesis using r(1) by blast
qed

theorem no_idle_slot_witness:
  "\<exists>res w'. controller_main demo_argv demo_sessions demo_world = Some (res, w') \<and>
    (\<forall>st'. res = Blocked st' \<longrightarrow> running_count st' = parallel_limit st' \<or> queue_is_empty (waiting_queue st') w' = Some True)"
  by (rule no_idle_slot [OF demo_main])

text \<open>
  C11. Shutdown. When nothing fails, the controller exits exactly if a shutdown was requested and as
  many jobs have been logged as finished as were accepted; otherwise it goes on waiting.
\<close>

theorem exit_iff_drained:
  assumes "fresh_process w" and "clock_ok w" and "controller_configure argv = Some st0"
    and "3 * int (length (received ss)) < 2 ^ 31" and "sys_ok w" and "\<not> may_fail w"
  shows "\<exists>res w' es. controller_main argv ss w = Some (res, w') \<and> events w' = events w @ es \<and>
    (res = Exit 0 \<longleftrightarrow> (\<exists>m\<in>set (received ss). msg_type m = SHUTDOWN_REQ) \<and>
       length (accepted False (received ss)) = length (logged es)) \<and>
    (res = Exit 0 \<or> (\<exists>st'. res = Blocked st' \<and> keep_running st'))"
proof -
  obtain res w' s' ms rest es where r: "controller_main argv ss w = Some (res, w')" "events w' = events w @ es"
    "spec_run False (self_pid w) (initial (parallel_limit st0) (policy st0)) ms (delivered es) (logged es) s'"
    "received ss = ms @ rest"
    "case res of Blocked st' \<Rightarrow> ctl_rep st' w' s' \<and> \<not> sp_stop s' \<and> rest = [] | Exit c \<Rightarrow> released w' \<and> c = 0 \<and> sp_stop s'"
    by (rule all_ok_run [OF assms])
  note cnt = spec_run_count [OF r(3)]
  have st: "sp_stop s' \<longleftrightarrow> sp_shut s' \<and> load s' = 0"
    using spec_run_stop_inv [OF r(3) initial_stop_inv] by (auto simp: stop_inv_def load_def)
  have sh: "sp_shut s' \<longleftrightarrow> (\<exists>m\<in>set ms. msg_type m = SHUTDOWN_REQ)"
    using spec_run_shut [OF r(3)] by (simp add: initial_def)
  show ?thesis
  proof (cases res)
    case (Exit c)
    then have "c = 0" "sp_stop s'" using r(5) by simp_all
    with Exit r cnt st sh accepted_done [of ms False rest] show ?thesis by auto
  next
    case (Blocked st')
    then have "rest = []" "\<not> sp_stop s'" "keep_running st'" using r(5) ctl_repD(10) by auto
    with Blocked r cnt st sh show ?thesis by auto
  qed
qed

theorem exit_iff_drained_witness:
  "\<exists>res w' es. controller_main demo_argv demo_sessions demo_world = Some (res, w') \<and> events w' = es \<and>
    (res = Exit 0 \<longleftrightarrow> length (accepted False (received demo_sessions)) = length (logged es))"
  using exit_iff_drained [OF demo_main demo_world_ok(3,4)] by (auto simp: demo_received shutdown_msg_def)

end
