(* ===== verification/Fairness_Theorems.thy ===== *)
theory Fairness_Theorems
  imports Controller_Theorems
begin

text \<open>
  The fair policy of the whole controller program, while submissions and reports keep arriving.
\<close>

subsection \<open>Running on\<close>

lemma main_loop_append:
  "main_loop st ss w = Some (Blocked st', w') \<Longrightarrow> main_loop st (ss @ ss') w = main_loop st' ss' w'"
proof (induction ss arbitrary: st w)
  case Nil
  then show ?case
    by (subst (asm) main_loop.simps) (auto simp: Let_def case_prod_beta split: if_splits Option.bind_splits)
next
  case (Cons inp ss)
  obtain d w1 where d: "sys_open SERVER_FIFO_PATH w = (d, w1)" by (cases "sys_open SERVER_FIFO_PATH w")
  have run: "keep_running st" "fd_num d \<noteq> - 1"
    using Cons.prems d by (auto simp: main_loop.simps [of _ "inp # ss"] Let_def case_prod_beta split: if_splits Option.bind_splits)
  obtain st1 w2 where s: "serve st inp w1 = Some (st1, w2)"
    using Cons.prems d run by (auto simp: main_loop.simps [of _ "inp # ss"] Let_def case_prod_beta split: if_splits Option.bind_splits)
  have unf: "main_loop st (inp # us) w = main_loop st1 us (snd (sys_close d w2))" for us
    using d run s by (subst main_loop.simps) (simp add: case_prod_beta)
  show ?case using Cons.IH Cons.prems by (simp add: unf)
qed

lemma controller_main_append:
  assumes "controller_main argv ss w = Some (Blocked st', w')"
  shows "controller_main argv (ss @ ss') w = main_loop st' ss' w'"
  using assms main_loop_append [of _ ss _ st' w' ss'] unfolding controller_main_def
  by (auto simp: Let_def case_prod_beta split: if_splits Option.bind_splits)

subsection \<open>What the memory says about the waiting jobs\<close>

lemma waiting_unique:
  assumes "queues_rep st w ws rs" and "queues_rep st w ws' rs'"
  shows "ws = ws'"
proof -
  have n: "length ws = length ws'" using waiting_size [OF assms(1)] waiting_size [OF assms(2)] by simp
  obtain a b where q: "a \<noteq> b" "waiting_queue st = At a" "store w (queue_pair a b ws rs)" using assms(1) by (rule queues_repE) blast
  obtain a' b' where q': "a' \<noteq> b'" "waiting_queue st = At a'" "store w (queue_pair a' b' ws' rs')" using assms(2) by (rule queues_repE) blast
  let ?b = "uninit (int (length ws))"
  have "queue_pair a b ws rs a = Some ws" "queue_pair a' b' ws' rs' a' = Some ws'" using q(1) q'(1) by (simp_all add: queue_pair_def)
  from queue_copy_to_array_ok [OF q(3) this(1), of "length ws" ?b] queue_copy_to_array_ok [OF q'(3) this(2), of "length ws" ?b]
  show ?thesis using q(2) q'(2) n by (auto simp: holds_def)
qed

subsection \<open>The fair invariant on all runs\<close>

lemma promotes_fair_inv: "promotes False s js s' \<Longrightarrow> fair_inv s \<Longrightarrow> fair_inv s'"
proof (induction rule: promotes.induct)
  case (promote_start s ys j zs js s')
  from promote_start.prems may_pick_waiting [OF promote_start.hyps(2)] show ?case
    by (intro promote_start.IH) (auto simp: fair_inv_def)
qed simp_all

lemma spec_msg_fair_inv: "spec_msg False c s m out logs s' \<Longrightarrow> fair_inv s \<Longrightarrow> fair_inv s'"
proof (induction rule: spec_msg.induct)
  case (done_known m s ys j zs t ms js s')
  then have "fair_inv (s\<lparr>sp_running := ys @ zs\<rparr>)" by (simp add: fair_inv_def)
  then show ?case by (rule promotes_fair_inv [OF done_known(5)])
next
  case (done_unknown m s js s')
  then show ?case by (blast intro: promotes_fair_inv)
qed (auto simp: fair_inv_def users_after_def add_user_def job_of_def)

lemma spec_run_fair_inv: "spec_run False c s ms out logs s' \<Longrightarrow> fair_inv s \<Longrightarrow> fair_inv s'"
proof (induction rule: spec_run.induct)
  case (run_cons s m out logs s1 ms out' logs' s2)
  have "fair_inv s1" using run_cons(2,5)
  proof (cases rule: spec_step.cases)
    case (handled out1 s0 out2)
    then have "fair_inv s0" using spec_msg_fair_inv run_cons(5) by blast
    then show ?thesis using handled(4) by (auto simp: finish_def fair_inv_def split: if_splits)
  qed simp
  then show ?case by (rule run_cons.IH)
qed simp

subsection \<open>One turn for everybody\<close>

text \<open>What a prefix of the sessions and the rest of them do, when nothing fails.\<close>

lemma main_continues:
  assumes "fresh_process w" and "clock_ok w" and "sys_ok w" and "\<not> may_fail w" and "controller_configure argv = Some st0"
    and "3 * int (length (received (ss @ ss'))) < 2 ^ 31" and "controller_main argv ss w = Some (Blocked st1, w1)"
  obtains s out logs res w2 s2 ms rest es out2 logs2 where
    "spec_run False (self_pid w) (initial (parallel_limit st0) (policy st0)) (received ss) out logs s" and "ctl_rep st1 w1 s"
    and "controller_main argv (ss @ ss') w = Some (res, w2)" and "spec_run False (self_pid w) s ms out2 logs2 s2"
    and "events w2 = events w1 @ es" and "delivered es = out2" and "received ss' = ms @ rest"
    and "case res of Blocked st2 \<Rightarrow> ctl_rep st2 w2 s2 \<and> \<not> sp_stop s2 \<and> rest = [] | Exit c \<Rightarrow> sp_stop s2"
proof -
  note concl = that
  have rec: "received (ss @ ss') = received ss @ received ss'" by (simp add: received_def)
  have b1: "3 * int (length (received ss)) < 2 ^ 31" using assms(6) by (simp add: rec)
  obtain r0 w0 s ms rest es1 out logs where "controller_main argv ss w = Some (r0, w0)"
    and 0: "spec_run (may_fail w) (self_pid w) (initial (parallel_limit st0) (policy st0)) ms out logs s" "effect w es1 w0" "received ss = ms @ rest"
    and r0: "case r0 of Blocked st' \<Rightarrow> ctl_rep st' w0 s \<and> \<not> sp_stop s \<and> rest = []
      | Exit c \<Rightarrow> released w0 \<and> (c = 0 \<and> sp_stop s \<or> c = 1 \<and> \<not> sp_stop s \<and> (may_fail w \<or> \<not> sys_ok w))"
    by (rule main_run [OF assms(1,2,5) b1])
  then have w0: "r0 = Blocked st1" "w0 = w1" using assms(7) by simp_all
  have 1: "spec_run False (self_pid w) (initial (parallel_limit st0) (policy st0)) (received ss) out logs s" "effect w es1 w1"
    "ctl_rep st1 w1 s" using 0 r0 assms(4) by (simp_all add: w0)
  note c = controller_configure_ok [OF assms(5)]
  have inv: "spec_inv s" by (rule spec_run_inv [OF 1(1) initial_inv [OF c(1)]])
  have "bounded (length (received ss) + length (received ss')) (initial (parallel_limit st0) (policy st0))"
    using assms(6) c(2) by (simp add: bounded_def initial_def rec)
  from spec_run_bounded [OF 1(1) this] have bnd: "bounded (length (concat (map whole ss'))) s" by (simp add: received_def)
  have env: "clock_ok w1" "sys_ok w1" "\<not> may_fail w1" "self_pid w1 = self_pid w"
    using assms(2-4) effect_clock [OF 1(2)] effect_cong [OF 1(2)] by simp_all
  obtain res w2 ms' s2 rest' where m: "main_loop st1 ss' w1 = Some (res, w2)" "runs_to w1 s ms' w2 s2" "concat (map whole ss') = ms' @ rest'"
    "case res of Blocked st' \<Rightarrow> ctl_rep st' w2 s2 \<and> \<not> sp_stop s2 \<and> rest' = []
      | Exit c \<Rightarrow> released w2 \<and> (c = 0 \<and> sp_stop s2 \<or> c = 1 \<and> \<not> sp_stop s2 \<and> \<not> sys_ok w1)"
    using main_loop_ok [OF 1(3) inv env(1) bnd] unfolding main_ok_def by blast
  from m(2) obtain es2 out2 logs2 where 3: "spec_run False (self_pid w) s ms' out2 logs2 s2" "effect w1 es2 w2" "sends w1 es2 out2 logs2"
    unfolding runs_to_def using env(3,4) by auto
  show thesis
  proof (rule concl [OF 1(1,3) _ 3(1)])
    show "controller_main argv (ss @ ss') w = Some (res, w2)" using m(1) controller_main_append [OF assms(7)] by simp
    show "events w2 = events w1 @ es2" using 3(2) by (simp add: effect_def)
    show "delivered es2 = out2" using 3(3) env(2) by (simp add: sends_def)
    show "received ss' = ms' @ rest'" using m(3) by (simp add: received_def)
    show "case res of Blocked st2 \<Rightarrow> ctl_rep st2 w2 s2 \<and> \<not> sp_stop s2 \<and> rest' = [] | Exit c \<Rightarrow> sp_stop s2"
      using m(4) env(2) by (cases res) auto
  qed
qed

text \<open>
  C21. Fairness of the controller. Under the fair policy, from any moment at which a user has a waiting
  job until it is served for the first time, no other user is served twice, whatever submissions,
  reports and other messages arrive meanwhile: at most one job of each other known user is authorised,
  and the user is still known to be waiting.
\<close>

theorem fair_turns:
  assumes "fresh_process w" and "clock_ok w" and "sys_ok w" and "\<not> may_fail w"
    and "controller_configure argv = Some st0" and "policy st0 = ''fair''"
    and "3 * int (length (received (ss @ ss'))) < 2 ^ 31"
    and "controller_main argv ss w = Some (Blocked st1, w1)" and "ctl_rep st1 w1 s1" and "u \<in> user_id ` set (sp_waiting s1)"
    and "controller_main argv (ss @ ss') w = Some (res, w2)" and "events w2 = events w1 @ es" and "u \<notin> set (ack_users (delivered es))"
  shows "\<exists>st2 s2. res = Blocked st2 \<and> ctl_rep st2 w2 s2 \<and> u \<in> user_id ` set (sp_waiting s2) \<and>
    distinct (ack_users (delivered es)) \<and> set (ack_users (delivered es)) \<subseteq> set (sp_users s2) - {u}"
proof -
  obtain s out logs r2 v2 s2 ms rest es2 out2 logs2 where
    1: "spec_run False (self_pid w) (initial (parallel_limit st0) (policy st0)) (received ss) out logs s" "ctl_rep st1 w1 s"
      "controller_main argv (ss @ ss') w = Some (r2, v2)" "spec_run False (self_pid w) s ms out2 logs2 s2"
      "events v2 = events w1 @ es2" "delivered es2 = out2" "received ss' = ms @ rest"
    and r2: "case r2 of Blocked st2 \<Rightarrow> ctl_rep st2 v2 s2 \<and> \<not> sp_stop s2 \<and> rest = [] | Exit c \<Rightarrow> sp_stop s2"
    by (rule main_continues [OF assms(1-5,7,8)]) blast
  have e: "r2 = res" "v2 = w2" "es2 = es" using 1(3,5) assms(11,12) by simp_all
  have u: "u \<in> user_id ` set (sp_waiting s)" using waiting_unique assms(9,10) 1(2) ctl_repD(1) by metis
  have "fair_inv (initial (parallel_limit st0) (policy st0))" using assms(6) by (simp add: fair_inv_def initial_def)
  then have fi: "fair_inv s" by (rule spec_run_fair_inv [OF 1(1)])
  have "busy (initial (parallel_limit st0) (policy st0))" by (simp add: busy_def initial_def)
  then have "busy s" by (rule spec_run_busy [OF 1(1)])
  from fair_run [OF 1(4) fi this u] assms(13) have f: "fair_served s u (ack_users out2) s2" using 1(6) by (simp add: e)
  then have w: "u \<in> user_id ` set (sp_waiting s2)" by (simp add: fair_served_def)
  have sub: "set (ack_users out2) \<subseteq> set (sp_users s2)" using f ahead_users [of s u] by (auto simp: fair_served_def)
  have "stop_inv s2" by (rule spec_run_stop_inv [OF 1(4) spec_run_stop_inv [OF 1(1) initial_stop_inv]])
  then have "\<not> sp_stop s2" using w by (auto simp: stop_inv_def)
  then obtain st2 where "res = Blocked st2" "ctl_rep st2 w2 s2" using r2 by (cases r2) (auto simp: e [symmetric])
  moreover have "distinct (ack_users out2)" using f by (simp add: fair_served_def)
  moreover have "delivered es = out2" using 1(6) e(3) by simp
  ultimately show ?thesis using w sub assms(13) by auto
qed

text \<open>
  One slot: user 1 runs, users 2 and 3 wait. The report of the running job lets user 2 start; user 3
  still waits.
\<close>

inductive_cases spec_run_ConsE: "spec_run fail pid s (m # ms) out logs s'"
inductive_cases spec_run_NilE: "spec_run fail pid s [] out logs s'"

lemma submit_stepD:
  assumes "spec_step False c s (submit_msg p u k) out logs s'" and "\<not> sp_shut s" and "sp_limit s = 1"
  shows "\<exists>t. s' = (if sp_running s = [] then s\<lparr>sp_users := add_user u (sp_users s), sp_running := [started (job_of (submit_msg p u k) t)], sp_last := u\<rparr>
      else s\<lparr>sp_users := add_user u (sp_users s), sp_waiting := sp_waiting s @ [job_of (submit_msg p u k) t]\<rparr>)"
proof -
  have m: "msg_type (submit_msg p u k) = SUBMIT" "msg_user_id (submit_msg p u k) = u" by (simp_all add: submit_msg_def)
  from assms(1) show ?thesis
  proof (cases rule: spec_step.cases)
    case refused
    then show ?thesis using assms(2) by simp
  next
    case (handled out1 s1 out2)
    have ex: "\<exists>t. s1 = (if sp_running s = [] then s\<lparr>sp_users := add_user u (sp_users s), sp_running := [started (job_of (submit_msg p u k) t)], sp_last := u\<rparr>
      else s\<lparr>sp_users := add_user u (sp_users s), sp_waiting := sp_waiting s @ [job_of (submit_msg p u k) t]\<rparr>)"
    proof (cases "sp_running s")
      case Nil
      with handled(3) show ?thesis by (cases rule: spec_msg.cases) (auto simp: users_after_def m assms(3))
    next
      case (Cons j js)
      with handled(3) show ?thesis by (cases rule: spec_msg.cases) (auto simp: users_after_def m assms(3))
    qed
    then have "\<not> sp_shut s1" using assms(2) by (auto split: if_splits)
    then have "s' = s1" using handled(4) by (simp add: finish_def)
    with ex show ?thesis by simp
  qed
qed

definition turn_sessions :: "read_result list list" where
  "turn_sessions = [[(504, submit_msg 201 1 11), (504, submit_msg 202 2 12)], [(504, submit_msg 203 3 13)]]"

lemma turn_received: "received turn_sessions = [submit_msg 201 1 11, submit_msg 202 2 12, submit_msg 203 3 13]"
  by (simp add: received_def turn_sessions_def)

abbreviation turn_state :: "timeval \<Rightarrow> timeval \<Rightarrow> timeval \<Rightarrow> spec" where
  "turn_state t1 t2 t3 \<equiv> (initial 1 ''fair'')\<lparr>sp_users := [1, 2, 3], sp_running := [started (job_of (submit_msg 201 1 11) t1)], sp_last := 1,
     sp_waiting := [job_of (submit_msg 202 2 12) t2, job_of (submit_msg 203 3 13) t3]\<rparr>"

lemma turn_run:
  assumes "spec_run False c (initial 1 ''fair'') (received turn_sessions) out logs s"
  shows "\<exists>t1 t2 t3. s = turn_state t1 t2 t3"
proof -
  obtain s1 s2 o1 l1 o2 l2 o3 l3 where r: "spec_step False c (initial 1 ''fair'') (submit_msg 201 1 11) o1 l1 s1"
    "spec_step False c s1 (submit_msg 202 2 12) o2 l2 s2" "spec_step False c s2 (submit_msg 203 3 13) o3 l3 s"
    using assms unfolding turn_received by (elim spec_run_ConsE spec_run_NilE) blast
  obtain t1 where 1: "s1 = (initial 1 ''fair'')\<lparr>sp_users := [1], sp_running := [started (job_of (submit_msg 201 1 11) t1)], sp_last := 1\<rparr>"
    using submit_stepD [OF r(1)] by (auto simp: initial_def add_user_def)
  obtain t2 where 2: "s2 = s1\<lparr>sp_users := [1, 2], sp_waiting := [job_of (submit_msg 202 2 12) t2]\<rparr>"
    using submit_stepD [OF r(2)] by (auto simp: 1 initial_def add_user_def)
  obtain t3 where 3: "s = s2\<lparr>sp_users := [1, 2, 3], sp_waiting := [job_of (submit_msg 202 2 12) t2, job_of (submit_msg 203 3 13) t3]\<rparr>"
    using submit_stepD [OF r(3)] by (auto simp: 1 2 initial_def add_user_def)
  show ?thesis unfolding 3 2 1 by (intro exI [of _ t1] exI [of _ t2] exI [of _ t3]) (simp add: initial_def)
qed

lemma turn_done:
  assumes "spec_step False c (turn_state t1 t2 t3) (done_msg 201 1 11) out logs s'"
  shows "ack_users out = [2]"
proof -
  let ?j1 = "started (job_of (submit_msg 201 1 11) t1)" and ?j2 = "job_of (submit_msg 202 2 12) t2" and ?j3 = "job_of (submit_msg 203 3 13) t3"
  let ?s = "(turn_state t1 t2 t3)\<lparr>sp_running := []\<rparr>"
  have id: "command_id ?j1 = 11" "user_id ?j2 = 2" "user_id ?j3 = 3" "msg_command_id (done_msg 201 1 11) = 11" "msg_type (done_msg 201 1 11) = DONE"
    by (simp_all add: job_of_def submit_msg_def done_msg_def)
  have pick: "ys = [] \<and> j = ?j2" if "may_pick False ?s ys j zs" for ys j zs
  proof -
    have "fair_user [1, 2, 3] 1 (users_of [?j2, ?j3]) = 2"
      by (simp add: fair_user_def after_user_def users_of_def add_user_def id)
    then have "?j2 # [?j3] = ys @ j # zs" "user_id j = 2" using that id by (auto simp: may_pick_def initial_def)
    then show ?thesis using id by (auto simp: Cons_eq_append_conv)
  qed
  have prom: "map user_id js = [2]" if "promotes False ?s js s1" for js s1
    using that
  proof (cases rule: promotes.cases)
    case promote_stop
    then show ?thesis by (simp add: initial_def)
  next
    case (promote_start ys j zs js')
    note j = pick [OF promote_start(3)]
    from promote_start(4) have "js' = []" by (cases rule: promotes.cases) (simp_all add: initial_def)
    then show ?thesis using promote_start(1) j id by simp
  qed simp
  from assms show ?thesis
  proof (cases rule: spec_step.cases)
    case (handled out1 s1 out2)
    from handled(3) have "\<exists>js s1'. out1 = map (ack c) js \<and> promotes False ?s js s1' \<and> s1' = s1"
      by (cases rule: spec_msg.cases) (auto simp: id initial_def)
    then have "ack_users out1 = [2]" using prom by (auto simp: ack_users_acks)
    moreover have "ack_users out2 = []" using handled(4) by (auto simp: finish_def farewell_def ack_users_def is_ack_def zero_msg_def split: if_splits)
    ultimately show ?thesis using handled(1) by simp
  qed (simp add: id)
qed

theorem fair_turns_witness:
  "\<exists>st1 w1 s1 res w2 es. controller_main demo_argv turn_sessions demo_world = Some (Blocked st1, w1) \<and> ctl_rep st1 w1 s1 \<and>
     3 \<in> user_id ` set (sp_waiting s1) \<and> controller_main demo_argv (turn_sessions @ [[(504, done_msg 201 1 11)]]) demo_world = Some (res, w2) \<and>
     events w2 = events w1 @ es \<and> ack_users (delivered es) = [2] \<and> (\<exists>st2 s2. res = Blocked st2 \<and> ctl_rep st2 w2 s2 \<and> 3 \<in> user_id ` set (sp_waiting s2))"
proof -
  let ?ss = "[[(504, done_msg 201 1 11)]]" and ?w = demo_world
  obtain st0 where c: "controller_configure demo_argv = Some st0" "parallel_limit st0 = 1" "policy st0 = ''fair''"
    using demo_configure by simp
  have n: "3 * int (length (received turn_sessions)) < 2 ^ 31" "3 * int (length (received (turn_sessions @ ?ss))) < 2 ^ 31"
    by (simp_all add: received_def turn_sessions_def)
  obtain res w1 s out logs ms rest es where r: "controller_main demo_argv turn_sessions ?w = Some (res, w1)"
    "spec_run (may_fail ?w) (self_pid ?w) (initial (parallel_limit st0) (policy st0)) ms out logs s" "received turn_sessions = ms @ rest"
    and res: "case res of Blocked st' \<Rightarrow> ctl_rep st' w1 s \<and> \<not> sp_stop s \<and> rest = []
      | Exit c \<Rightarrow> released w1 \<and> (c = 0 \<and> sp_stop s \<or> c = 1 \<and> \<not> sp_stop s \<and> (may_fail ?w \<or> \<not> sys_ok ?w))"
    by (rule main_run [OF demo_world_ok(1,2) c(1) n(1)])
  have "set ms \<subseteq> {submit_msg 201 1 11, submit_msg 202 2 12, submit_msg 203 3 13}" using r(3) unfolding turn_received by (metis Un_upper1 set_append list.set)
  then have "\<not> sp_shut s" using spec_run_shut [OF r(2)] by (auto simp: initial_def submit_msg_def)
  moreover have "stop_inv s" by (rule spec_run_stop_inv [OF r(2) initial_stop_inv])
  ultimately have "\<not> sp_stop s" by (simp add: stop_inv_def)
  then obtain st1 where st1: "res = Blocked st1" using res by (cases res) auto
  note main1 = r(1) [unfolded st1]
  obtain s1 out1 logs1 res2 w2 s2 ms2 rest2 es2 out2 logs2 where
    1: "spec_run False (self_pid ?w) (initial (parallel_limit st0) (policy st0)) (received turn_sessions) out1 logs1 s1" "ctl_rep st1 w1 s1"
      "controller_main demo_argv (turn_sessions @ ?ss) ?w = Some (res2, w2)" "spec_run False (self_pid ?w) s1 ms2 out2 logs2 s2"
      "events w2 = events w1 @ es2" "delivered es2 = out2" "received ?ss = ms2 @ rest2"
    and res2: "case res2 of Blocked st2 \<Rightarrow> ctl_rep st2 w2 s2 \<and> \<not> sp_stop s2 \<and> rest2 = [] | Exit c \<Rightarrow> sp_stop s2"
    by (rule main_continues [OF demo_world_ok(1,2,3,4) c(1) n(2) main1])
  obtain t1 t2 t3 where s1: "s1 = turn_state t1 t2 t3" using turn_run 1(1) unfolding c(2,3) by blast
  have "ms2 = [done_msg 201 1 11]"
  proof (cases ms2)
    case Nil
    then have "s2 = s1" "rest2 \<noteq> []" using 1(4,7) by (auto simp: received_def elim: spec_run_NilE)
    moreover have "\<not> sp_stop s1" using s1 by (simp add: initial_def)
    ultimately show ?thesis using res2 by (cases res2) auto
  next
    case (Cons m ms')
    then show ?thesis using 1(7) by (simp add: received_def)
  qed
  then obtain logs3 s3 where "spec_step False (self_pid ?w) s1 (done_msg 201 1 11) out2 logs3 s3"
    using 1(4) by (auto elim!: spec_run_ConsE spec_run_NilE)
  then have a: "ack_users (delivered es2) = [2]" using turn_done 1(6) unfolding s1 by blast
  have u: "3 \<in> user_id ` set (sp_waiting s1)" by (simp add: s1 job_of_def submit_msg_def)
  have "3 \<notin> set (ack_users (delivered es2))" using a by simp
  from fair_turns [OF demo_world_ok(1,2,3,4) c(1,3) n(2) main1 1(2) u 1(3,5) this] main1 1(2,3,5) u a show ?thesis by blast
qed

end
