(* ===== verification/Command_Parser.thy ===== *)
theory Command_Parser
  imports C_Runtime
begin

text \<open>
  \<^verbatim>\<open>src/runner/parser.c\<close>: splitting a command line into pipeline stages, arguments and redirections.
  A \<open>char\<close> pointer into a string is the rest of the string from there on; an owned string is a heap
  block, so that what the parser allocates and frees can be counted.
\<close>

subsection \<open>Data\<close>

definition PARSER_MAX_STAGES :: nat where
  "PARSER_MAX_STAGES = 16"

definition PARSER_MAX_ARGS :: nat where
  "PARSER_MAX_ARGS = 32"

definition PARSER_INPUT_BUFFER :: nat where
  "PARSER_INPUT_BUFFER = 1024"

record command_stage =
  argv :: "string option block"
  input_file :: "string option"
  output_file :: "string option"
  error_file :: "string option"

record parsed_command =
  stage_count :: int
  stages :: "command_stage list"

text \<open>\<open>memset\<close> to zero: every pointer is \<open>NULL\<close>.\<close>

definition zero_stage :: command_stage where
  "zero_stage = \<lparr>argv = replicate PARSER_MAX_ARGS (Some None), input_file = None, output_file = None, error_file = None\<rparr>"

definition zero_command :: parsed_command where
  "zero_command = \<lparr>stage_count = 0, stages = replicate PARSER_MAX_STAGES zero_stage\<rparr>"

subsection \<open>Tokens\<close>

fun skip_spaces :: "string \<Rightarrow> string" where
  "skip_spaces [] = []"
| "skip_spaces (c # cs) = (if is_space c then skip_spaces cs else c # cs)"

definition duplicate_range :: "string \<Rightarrow> nat \<Rightarrow> 'a os_scheme \<Rightarrow> string option \<times> 'a os_scheme" where
  "duplicate_range start len w =
     (let (ok, w1) = malloc_block w in if \<not> ok then (None, w1) else (Some (take len start), w1))"

fun skip_word :: "string \<Rightarrow> string" where
  "skip_word [] = []"
| "skip_word (c # cs) =
     (if \<not> is_space c \<and> c \<noteq> CHR ''<'' \<and> c \<noteq> CHR ''>'' then skip_word cs else c # cs)"

text \<open>The position after the token, or \<open>NULL\<close>, and the token.\<close>

definition parse_token :: "string \<Rightarrow> 'a os_scheme \<Rightarrow> string option \<times> string option \<times> 'a os_scheme" where
  "parse_token cursor0 w =
     (let cursor = skip_spaces cursor0
      in if cursor = [] \<or> hd cursor = CHR ''<'' \<or> hd cursor = CHR ''>'' then (None, None, w)
         else
           let start = cursor;
               cursor1 = skip_word cursor;
               (out_token, w1) = duplicate_range start (length start - length cursor1) w
           in if out_token = None then (None, None, w1) else (Some cursor1, out_token, w1))"

subsection \<open>Stages\<close>

text \<open>The three fields a redirection operator can select.\<close>

datatype redirect = Error_file | Input_file | Output_file

fun redirect_field :: "redirect \<Rightarrow> command_stage \<Rightarrow> string option" where
  "redirect_field Error_file st = error_file st"
| "redirect_field Input_file st = input_file st"
| "redirect_field Output_file st = output_file st"

fun set_redirect :: "redirect \<Rightarrow> string option \<Rightarrow> command_stage \<Rightarrow> command_stage" where
  "set_redirect Error_file t st = st\<lparr>error_file := t\<rparr>"
| "set_redirect Input_file t st = st\<lparr>input_file := t\<rparr>"
| "set_redirect Output_file t st = st\<lparr>output_file := t\<rparr>"

fun redirect_operator :: "string \<Rightarrow> redirect option \<times> string" where
  "redirect_operator cursor =
     (if take 2 cursor = ''2>'' then (Some Error_file, drop 2 cursor)
      else if take 1 cursor = ''<'' then (Some Input_file, drop 1 cursor)
      else if take 1 cursor = ''>'' then (Some Output_file, drop 1 cursor)
      else (None, cursor))"

declare redirect_operator.simps [simp del]

partial_function (option) parse_stage_loop ::
  "string \<Rightarrow> int \<Rightarrow> command_stage \<Rightarrow> 'a os_scheme \<Rightarrow> (int \<times> command_stage \<times> 'a os_scheme) option" where
  [code]: "parse_stage_loop cursor0 argc stage w =
     (let cursor = skip_spaces cursor0
      in if cursor = [] then do {
           argv1 \<leftarrow> wr (argv stage) argc None;
           Some (0, stage\<lparr>argv := argv1\<rparr>, w) }
         else
           let (redirect_target, cursor1) = redirect_operator cursor
           in case redirect_target of
                Some r \<Rightarrow>
                  let (next_cursor, token, w1) = parse_token cursor1 w
                  in (case next_cursor of
                        None \<Rightarrow> Some (- 1, stage, w1)
                      | Some nxt \<Rightarrow> do {
                          w2 \<leftarrow> free_opt (redirect_field r stage) w1;
                          parse_stage_loop nxt argc (set_redirect r token stage) w2 })
              | None \<Rightarrow>
                  let (next_cursor, token, w1) = parse_token cursor1 w
                  in (case next_cursor of
                        None \<Rightarrow> Some (- 1, stage, w1)
                      | Some nxt \<Rightarrow>
                          if argc < int PARSER_MAX_ARGS - 1 then do {
                            argv1 \<leftarrow> wr (argv stage) argc token;
                            parse_stage_loop nxt (argc + 1) (stage\<lparr>argv := argv1\<rparr>) w1 }
                          else do {
                            w2 \<leftarrow> free_opt token w1;
                            parse_stage_loop nxt argc stage w2 }))"

definition parse_stage ::
  "command_stage \<Rightarrow> string \<Rightarrow> 'a os_scheme \<Rightarrow> (int \<times> command_stage \<times> 'a os_scheme) option" where
  "parse_stage stage stage_str w = parse_stage_loop stage_str 0 stage w"

subsection \<open>Commands\<close>

fun destroy_args :: "nat \<Rightarrow> int \<Rightarrow> string option block \<Rightarrow> 'a os_scheme \<Rightarrow> 'a os_scheme option" where
  "destroy_args 0 j args w = Some w"
| "destroy_args (Suc k) j args w = do {
     a \<leftarrow> rd args j;
     if a = None then Some w
     else do {
       w1 \<leftarrow> free_opt a w;
       destroy_args k (j + 1) args w1 } }"

fun destroy_stages :: "command_stage list \<Rightarrow> 'a os_scheme \<Rightarrow> 'a os_scheme option" where
  "destroy_stages [] w = Some w"
| "destroy_stages (st # sts) w = do {
     w1 \<leftarrow> destroy_args PARSER_MAX_ARGS 0 (argv st) w;
     w2 \<leftarrow> free_opt (input_file st) w1;
     w3 \<leftarrow> free_opt (output_file st) w2;
     w4 \<leftarrow> free_opt (error_file st) w3;
     destroy_stages sts w4 }"

text \<open>The stages with an index below \<open>stage_count\<close>, then the structure itself.\<close>

definition parser_destroy :: "parsed_command option \<Rightarrow> 'a os_scheme \<Rightarrow> 'a os_scheme option" where
  "parser_destroy cmd w =
     (case cmd of
        None \<Rightarrow> Some w
      | Some c \<Rightarrow>
          if stage_count c \<le> int (length (stages c)) then do {
            w1 \<leftarrow> destroy_stages (take (nat (stage_count c)) (stages c)) w;
            free_block w1 }
          else None)"

text \<open>\<open>strtok_r\<close> with the single separator: leading separators are skipped, the token ends before the next one.\<close>

definition strtok :: "string \<Rightarrow> (string \<times> string) option" where
  "strtok s =
     (let s1 = dropWhile (\<lambda>c. c = CHR ''|'') s
      in if s1 = [] then None
         else Some (takeWhile (\<lambda>c. c \<noteq> CHR ''|'') s1, drop 1 (dropWhile (\<lambda>c. c \<noteq> CHR ''|'') s1)))"

text \<open>The loop over the stages, with the number of array entries left as first argument.\<close>

fun parse_stages ::
  "nat \<Rightarrow> string \<Rightarrow> parsed_command \<Rightarrow> 'a os_scheme \<Rightarrow> (parsed_command option \<times> 'a os_scheme) option" where
  "parse_stages 0 save parsed w = Some (Some parsed, w)"
| "parse_stages (Suc k) save parsed w =
     (case strtok save of
        None \<Rightarrow> Some (Some parsed, w)
      | Some (stage_str, save1) \<Rightarrow> do {
          (r, stage, w1) \<leftarrow> parse_stage (stages parsed ! nat (stage_count parsed)) stage_str w;
          let parsed1 = parsed\<lparr>stages := (stages parsed)[nat (stage_count parsed) := stage]\<rparr>;
          if r = - 1 then do {
            w2 \<leftarrow> parser_destroy (Some parsed1) w1;
            Some (None, w2) }
          else parse_stages k save1 (parsed1\<lparr>stage_count := stage_count parsed1 + 1\<rparr>) w1 })"

definition parser_parse :: "string option \<Rightarrow> 'a os_scheme \<Rightarrow> (parsed_command option \<times> 'a os_scheme) option" where
  "parser_parse input w =
     (case input of
        None \<Rightarrow> Some (None, w)
      | Some s \<Rightarrow>
          let (ok, w1) = malloc_block w
          in if \<not> ok then Some (None, w1)
             else parse_stages PARSER_MAX_STAGES (fit_buffer PARSER_INPUT_BUFFER s) zero_command w1)"

subsection \<open>Access\<close>

definition parser_get_stage_count :: "parsed_command option \<Rightarrow> int" where
  "parser_get_stage_count cmd = (case cmd of None \<Rightarrow> 0 | Some c \<Rightarrow> stage_count c)"

definition valid_stage :: "parsed_command option \<Rightarrow> int \<Rightarrow> bool" where
  "valid_stage cmd i \<longleftrightarrow> \<not> (cmd = None \<or> i < 0 \<or> parser_get_stage_count cmd \<le> i)"

definition parser_get_stage_argv :: "parsed_command option \<Rightarrow> int \<Rightarrow> string option block option" where
  "parser_get_stage_argv cmd i = (if valid_stage cmd i then Some (argv (stages (the cmd) ! nat i)) else None)"

definition parser_get_input_file :: "parsed_command option \<Rightarrow> int \<Rightarrow> string option" where
  "parser_get_input_file cmd i = (if valid_stage cmd i then input_file (stages (the cmd) ! nat i) else None)"

definition parser_get_output_file :: "parsed_command option \<Rightarrow> int \<Rightarrow> string option" where
  "parser_get_output_file cmd i = (if valid_stage cmd i then output_file (stages (the cmd) ! nat i) else None)"

definition parser_get_error_file :: "parsed_command option \<Rightarrow> int \<Rightarrow> string option" where
  "parser_get_error_file cmd i = (if valid_stage cmd i then error_file (stages (the cmd) ! nat i) else None)"

end
