(* ===== verification/Executor.thy ===== *)
theory Executor
  imports Command_Parser
begin

text \<open>
  \<^verbatim>\<open>src/runner/executor.c\<close>: running a pipeline. A process has a table of file descriptors; \<open>pipe\<close> and \<open>open\<close>
  take the lowest free numbers, \<open>dup2\<close> copies an entry, \<open>fork\<close> hands a copy of the table to the child.
  What a child does up to \<open>execvp\<close> is part of the program; the exit status of the executed program, the
  order in which children end and the failures of system calls are arbitrary.
\<close>

subsection \<open>Descriptors\<close>

datatype open_mode = Read_only | Write_truncate

datatype file_ref = Inherited nat | Pipe_read nat | Pipe_write nat | Opened string open_mode

type_synonym fd_table = "file_ref option list"

definition fd_get :: "fd_table \<Rightarrow> nat \<Rightarrow> file_ref option" where
  "fd_get T n = (if n < length T then T ! n else None)"

definition fd_set :: "fd_table \<Rightarrow> nat \<Rightarrow> file_ref option \<Rightarrow> fd_table" where
  "fd_set T n f = (if n < length T then T[n := f] else T @ replicate (n - length T) None @ [f])"

fun fd_lowest :: "fd_table \<Rightarrow> nat" where
  "fd_lowest [] = 0"
| "fd_lowest (None # T) = 0"
| "fd_lowest (Some f # T) = Suc (fd_lowest T)"

definition fd_close :: "int \<Rightarrow> fd_table \<Rightarrow> fd_table" where
  "fd_close d T = (if 0 \<le> d then fd_set T (nat d) None else T)"

subsection \<open>Processes\<close>

text \<open>How a child leaves the code of this program, and what \<open>wait\<close> reports.\<close>

datatype child_end = Child_exit int | Child_exec "string list" fd_table

datatype wait_status = Exited int | Signalled int

record runner_world = os +
  fds :: fd_table
  next_pipe :: nat
  children :: "child_end list"
  unreaped :: "nat list"
  child_out :: "nat \<Rightarrow> nat \<Rightarrow> int"
  program_status :: "nat \<Rightarrow> wait_status"
  wait_pick :: "nat \<Rightarrow> nat"

definition sys_pipe :: "runner_world \<Rightarrow> int \<times> (int \<times> int) \<times> runner_world" where
  "sys_pipe w =
     (let (r, w1) = sys_call w
      in if r = - 1 then (- 1, (- 1, - 1), w1)
         else
           let a = fd_lowest (fds w1); T1 = fd_set (fds w1) a (Some (Pipe_read (next_pipe w1)));
               b = fd_lowest T1; T2 = fd_set T1 b (Some (Pipe_write (next_pipe w1)))
           in (0, (int a, int b), w1\<lparr>fds := T2, next_pipe := Suc (next_pipe w1)\<rparr>))"

definition close_fd :: "int \<Rightarrow> runner_world \<Rightarrow> runner_world" where
  "close_fd d w = (let (_, w1) = sys_call w in w1\<lparr>fds := fd_close d (fds w1)\<rparr>)"

definition close_if_open :: "int \<Rightarrow> runner_world \<Rightarrow> runner_world" where
  "close_if_open d w = (if d \<noteq> - 1 then close_fd d w else w)"

definition status_of :: "nat \<Rightarrow> runner_world \<Rightarrow> wait_status" where
  "status_of c w = (case children w ! c of Child_exit n \<Rightarrow> Exited n | Child_exec _ _ \<Rightarrow> program_status w c)"

text \<open>\<open>wait\<close>: some child that has not been waited for yet; -1 when it fails or there is none.\<close>

definition sys_wait :: "runner_world \<Rightarrow> wait_status option \<times> runner_world" where
  "sys_wait w =
     (let (r, w1) = sys_call w
      in if r = - 1 \<or> unreaped w1 = [] then (None, w1)
         else
           let k = wait_pick w1 (tick w1) mod length (unreaped w1)
           in (Some (status_of (unreaped w1 ! k) w1),
               w1\<lparr>unreaped := take k (unreaped w1) @ drop (Suc k) (unreaped w1)\<rparr>))"

subsection \<open>The child\<close>

record child_state =
  c_fds :: fd_table
  c_tick :: nat

definition c_call :: "(nat \<Rightarrow> int) \<Rightarrow> child_state \<Rightarrow> int \<times> child_state" where
  "c_call out st = (let r = out (c_tick st) in (if r < 0 then - 1 else r, st\<lparr>c_tick := Suc (c_tick st)\<rparr>))"

definition c_dup2 :: "(nat \<Rightarrow> int) \<Rightarrow> int \<Rightarrow> nat \<Rightarrow> child_state \<Rightarrow> int \<times> child_state" where
  "c_dup2 out old new st =
     (let (r, st1) = c_call out st
      in if r = - 1 \<or> old < 0 \<or> fd_get (c_fds st1) (nat old) = None then (- 1, st1)
         else (int new, st1\<lparr>c_fds := fd_set (c_fds st1) new (fd_get (c_fds st1) (nat old))\<rparr>))"

definition c_open :: "(nat \<Rightarrow> int) \<Rightarrow> string \<Rightarrow> open_mode \<Rightarrow> child_state \<Rightarrow> int \<times> child_state" where
  "c_open out path mode st =
     (let (r, st1) = c_call out st
      in if r = - 1 then (- 1, st1)
         else let a = fd_lowest (c_fds st1)
              in (int a, st1\<lparr>c_fds := fd_set (c_fds st1) a (Some (Opened path mode))\<rparr>))"

definition c_close :: "(nat \<Rightarrow> int) \<Rightarrow> int \<Rightarrow> child_state \<Rightarrow> child_state" where
  "c_close out d st = (let (_, st1) = c_call out st in st1\<lparr>c_fds := fd_close d (c_fds st1)\<rparr>)"

text \<open>A step of the child that may call \<open>_exit(1)\<close>: that is \<open>None\<close>.\<close>

definition c_connect :: "(nat \<Rightarrow> int) \<Rightarrow> bool \<Rightarrow> int \<Rightarrow> nat \<Rightarrow> child_state \<Rightarrow> child_state option" where
  "c_connect out needed d new st =
     (if needed then
        let (r, st1) = c_dup2 out d new st in if r = - 1 then None else Some st1
      else Some st)"

definition c_close_if_open :: "(nat \<Rightarrow> int) \<Rightarrow> int \<Rightarrow> child_state \<Rightarrow> child_state" where
  "c_close_if_open out d st = (if d \<noteq> - 1 then c_close out d st else st)"

definition c_redirect ::
  "(nat \<Rightarrow> int) \<Rightarrow> string option \<Rightarrow> open_mode \<Rightarrow> nat \<Rightarrow> child_state \<Rightarrow> child_state option" where
  "c_redirect out file mode new st =
     (case file of
        None \<Rightarrow> Some st
      | Some path \<Rightarrow>
          let (d, st1) = c_open out path mode st
          in if d = - 1 then None
             else let (r, st2) = c_dup2 out d new st1
                  in if r = - 1 then None else Some (c_close out d st2))"

text \<open>The argument vector up to its \<open>NULL\<close>.\<close>

definition exec_args :: "string option block \<Rightarrow> string list" where
  "exec_args b = map (\<lambda>a. the (the a)) (takeWhile (\<lambda>a. a \<noteq> Some None) b)"

definition child_main ::
  "parsed_command option \<Rightarrow> int \<Rightarrow> int \<Rightarrow> int \<Rightarrow> int \<times> int \<Rightarrow> (nat \<Rightarrow> int) \<Rightarrow> fd_table \<Rightarrow> child_end" where
  "child_main cmd i num_stages prev_read_fd pipefd out T =
     (case do {
        st1 \<leftarrow> c_connect out (prev_read_fd \<noteq> - 1) prev_read_fd 0 \<lparr>c_fds = T, c_tick = 0\<rparr>;
        st2 \<leftarrow> c_connect out (i < num_stages - 1) (snd pipefd) 1 st1;
        let st5 = c_close_if_open out (snd pipefd) (c_close_if_open out (fst pipefd) (c_close_if_open out prev_read_fd st2));
        args \<leftarrow> parser_get_stage_argv cmd i;
        if rd args 0 = Some None then None
        else do {
          st6 \<leftarrow> c_redirect out (parser_get_input_file cmd i) Read_only 0 st5;
          st7 \<leftarrow> c_redirect out (parser_get_output_file cmd i) Write_truncate 1 st6;
          st8 \<leftarrow> c_redirect out (parser_get_error_file cmd i) Write_truncate 2 st7;
          let (r, st9) = c_call out st8;
          if r = - 1 then None else Some (exec_args args, c_fds st9) } }
      of None \<Rightarrow> Child_exit 1
       | Some (args, T') \<Rightarrow> Child_exec args T')"

subsection \<open>The parent\<close>

text \<open>\<open>fork\<close>: the child runs \<open>child_main\<close> on a copy of the descriptors; the parent sees its process number.\<close>

definition sys_fork :: "(fd_table \<Rightarrow> (nat \<Rightarrow> int) \<Rightarrow> child_end) \<Rightarrow> runner_world \<Rightarrow> int \<times> runner_world" where
  "sys_fork code w =
     (let (r, w1) = sys_call w
      in if r = - 1 then (- 1, w1)
         else let c = length (children w1)
              in (r + 1, w1\<lparr>children := children w1 @ [code (fds w1) (child_out w1 c)], unreaped := unreaped w1 @ [c]\<rparr>))"

fun wait_each :: "nat \<Rightarrow> runner_world \<Rightarrow> runner_world" where
  "wait_each 0 w = w"
| "wait_each (Suc k) w = (let (_, w1) = sys_wait w in wait_each k w1)"

text \<open>The loop from stage \<open>i\<close> on, with \<open>num_stages - i\<close> as first argument; \<open>False\<close> is an early return of -1.\<close>

fun spawn_stages ::
  "nat \<Rightarrow> int \<Rightarrow> parsed_command option \<Rightarrow> int \<Rightarrow> int \<Rightarrow> nat \<Rightarrow> runner_world \<Rightarrow> bool \<times> nat \<times> runner_world" where
  "spawn_stages 0 i cmd num_stages prev_read_fd children_created w = (True, children_created, w)"
| "spawn_stages (Suc k) i cmd num_stages prev_read_fd children_created w =
     (let (p, pipefd, w1) = (if i < num_stages - 1 then sys_pipe w else (0, (- 1, - 1), w))
      in if p = - 1 then
           (False, children_created, wait_each children_created (close_if_open prev_read_fd (emit (Err ''pipe'') w1)))
         else
           let (pid, w2) = sys_fork (\<lambda>T out. child_main cmd i num_stages prev_read_fd pipefd out T) w1
           in if pid < 0 then
                (False, children_created, wait_each children_created (close_if_open prev_read_fd
                   (close_if_open (snd pipefd) (close_if_open (fst pipefd) (emit (Err ''fork'') w2)))))
              else
                let w3 = close_if_open prev_read_fd w2;
                    (prev1, w4) = (if i < num_stages - 1 then (fst pipefd, close_fd (snd pipefd) w3) else (- 1, w3))
                in spawn_stages k (i + 1) cmd num_stages prev1 (Suc children_created) w4)"

fun wait_loop :: "nat \<Rightarrow> bool \<Rightarrow> runner_world \<Rightarrow> int \<times> runner_world" where
  "wait_loop 0 any_child_failed w = (if any_child_failed then - 1 else 0, w)"
| "wait_loop (Suc k) any_child_failed w =
     (let (status, w1) = sys_wait w
      in case status of
           None \<Rightarrow> (- 1, emit (Err ''wait'') w1)
         | Some s \<Rightarrow> wait_loop k (any_child_failed \<or> s \<noteq> Exited 0) w1)"

definition execute_pipeline :: "parsed_command option \<Rightarrow> runner_world \<Rightarrow> int \<times> runner_world" where
  "execute_pipeline cmd w =
     (if cmd = None then (- 1, w)
      else
        let num_stages = parser_get_stage_count cmd
        in if num_stages \<le> 0 then (- 1, w)
           else
             let (ok, children_created, w1) = spawn_stages (nat num_stages) 0 cmd num_stages (- 1) 0 w
             in if \<not> ok then (- 1, w1) else wait_loop children_created False w1)"

end
