(* ===== verification/Runner.thy ===== *)
theory Runner
  imports Executor Ipc
begin

text \<open>
  \<^verbatim>\<open>src/runner/runner_cli.c\<close> and \<^verbatim>\<open>src/runner/runner.c\<close>: the command line of a runner and its three modes.
  What arrives on the private pipe of the runner is a list of read results.
\<close>

subsection \<open>Command line\<close>

datatype runner_mode = RUNNER_MODE_EXECUTE | RUNNER_MODE_STATUS | RUNNER_MODE_SHUTDOWN

record runner_request =
  mode :: runner_mode
  req_user_id :: int
  command :: "string option"

text \<open>\<open>memset\<close> to zero: the enumerator of value 0.\<close>

definition zero_request :: runner_request where
  "zero_request = \<lparr>mode = RUNNER_MODE_EXECUTE, req_user_id = 0, command = None\<rparr>"

definition usage :: string where
  "usage = ''Usage: ./runner -e <user_id> '' @ [CHR 0x22] @ ''<command...>'' @ [CHR 0x22] @ LF"

text \<open>\<open>request\<close> is \<open>None\<close> for a \<open>NULL\<close> pointer; \<open>argc\<close> is the length of \<open>argv\<close>.\<close>

definition runner_parse_args ::
  "string list \<Rightarrow> runner_request option \<Rightarrow> 'a os_scheme \<Rightarrow> (int \<times> runner_request option \<times> 'a os_scheme) option" where
  "runner_parse_args args request w =
     (if request = None then Some (1, request, emit (Out usage) w)
      else if length args = 2 \<and> args ! 1 = ''-c'' then
        Some (0, Some (zero_request\<lparr>mode := RUNNER_MODE_STATUS\<rparr>), w)
      else if length args = 2 \<and> args ! 1 = ''-s'' then
        Some (0, Some (zero_request\<lparr>mode := RUNNER_MODE_SHUTDOWN\<rparr>), w)
      else if length args \<noteq> 4 \<or> args ! 1 \<noteq> ''-e'' then Some (1, Some zero_request, emit (Out usage) w)
      else do {
        uid \<leftarrow> atoi (args ! 2);
        Some (0, Some (zero_request\<lparr>mode := RUNNER_MODE_EXECUTE, req_user_id := uid, command := Some (args ! 3)\<rparr>), w) })"

subsection \<open>The private pipe\<close>

definition runner_fifo_path :: "'a os_scheme \<Rightarrow> string" where
  "runner_fifo_path w = runner_fifo (self_pid w)"

definition create_runner_fifo :: "'a os_scheme \<Rightarrow> int \<times> string \<times> 'a os_scheme" where
  "create_runner_fifo w =
     (let my_fifo = runner_fifo_path w; (r, w1) = ipc_create_fifo my_fifo w
      in if r = - 1 then (- 1, my_fifo, emit (Err ''ipc_create_fifo'') w1) else (0, my_fifo, w1))"

subsection \<open>Status\<close>

fun status_loop :: "read_result list \<Rightarrow> 'a os_scheme \<Rightarrow> 'a os_scheme" where
  "status_loop [] w = w"
| "status_loop ((n, m) # inp) w =
     (if n \<noteq> int sizeof_RpcMessage then w
      else
        let w1 = (if msg_type m = STATUS_RESP then emit (Out (payload m)) w else w)
        in if msg_type m = STATUS_END then w1 else status_loop inp w1)"

definition runner_run_status :: "read_result list \<Rightarrow> 'a os_scheme \<Rightarrow> int \<times> 'a os_scheme" where
  "runner_run_status inp w =
     (let (c, my_fifo, w1) = create_runner_fifo w
      in if c = - 1 then (1, w1)
         else
           let status_req = zero_msg\<lparr>msg_type := STATUS_REQ, sender_pid := self_pid w1\<rparr>;
               (r, w2) = ipc_send_atomic SERVER_FIFO_PATH status_req w1
           in if r = - 1 then
                let (_, w3) = ipc_destroy_fifo my_fifo (emit (Err ''ipc_send_atomic'') w2) in (1, w3)
              else
                let (my_fd, w3) = sys_open my_fifo w2
                in if fd_num my_fd = - 1 then
                     let (_, w4) = ipc_destroy_fifo my_fifo (emit (Err ''open runner fifo'') w3) in (1, w4)
                   else
                     let w4 = status_loop inp w3;
                         (_, w5) = sys_close my_fd w4;
                         (_, w6) = ipc_destroy_fifo my_fifo w5
                     in (0, w6))"

subsection \<open>Shutdown\<close>

fun shutdown_loop :: "read_result list \<Rightarrow> read_result list" where
  "shutdown_loop [] = []"
| "shutdown_loop ((n, m) # inp) =
     (if n \<noteq> int sizeof_RpcMessage then inp else if msg_type m = SHUTDOWN_ACK then inp else shutdown_loop inp)"

definition runner_run_shutdown :: "read_result list \<Rightarrow> 'a os_scheme \<Rightarrow> int \<times> 'a os_scheme" where
  "runner_run_shutdown inp w =
     (let (c, my_fifo, w1) = create_runner_fifo w
      in if c = - 1 then (1, w1)
         else
           let shutdown_req = zero_msg\<lparr>msg_type := SHUTDOWN_REQ, sender_pid := self_pid w1\<rparr>;
               (r, w2) = ipc_send_atomic SERVER_FIFO_PATH shutdown_req w1
           in if r = - 1 then
                let (_, w3) = ipc_destroy_fifo my_fifo (emit (Err ''ipc_send_atomic'') w2) in (1, w3)
              else
                let w3 = emit (Out (''[runner] waiting for controller to shutdown...'' @ LF))
                           (emit (Out (''[runner] sent shutdown notification'' @ LF)) w2);
                    (my_fd, w4) = sys_open my_fifo w3
                in if fd_num my_fd = - 1 then
                     let (_, w5) = ipc_destroy_fifo my_fifo (emit (Err ''open runner fifo'') w4) in (1, w5)
                   else
                     let _ = shutdown_loop inp;
                         (_, w5) = sys_close my_fd (emit (Out (''[runner] controller exited.'' @ LF)) w4);
                         (_, w6) = ipc_destroy_fifo my_fifo w5
                     in (0, w6))"

subsection \<open>Execution\<close>

definition submit_of :: "int \<Rightarrow> int \<Rightarrow> string \<Rightarrow> RpcMessage" where
  "submit_of pid uid cmd = zero_msg\<lparr>msg_type := SUBMIT, sender_pid := pid, msg_user_id := uid,
     msg_command_id := pid, payload := fit_buffer RPC_PAYLOAD_SIZE cmd\<rparr>"

text \<open>What happens after the authorisation: parse, run, report.\<close>

definition run_authorised :: "RpcMessage \<Rightarrow> RpcMessage \<Rightarrow> runner_world \<Rightarrow> (int \<times> runner_world) option" where
  "run_authorised submit_msg ack_msg w = do {
     let w1 = emit (Out (''[runner] executing command '' @ fmt_d (msg_command_id ack_msg) @ ''...'' @ LF)) w;
     (cmd, w2) \<leftarrow> parser_parse (Some (payload submit_msg)) w1;
     w4 \<leftarrow> (if cmd = None then Some (emit (Out (''parser_parse failed'' @ LF)) w2)
       else do {
         let (_, w3) = execute_pipeline cmd w2;
         parser_destroy cmd w3 });
     let msg_done = zero_msg\<lparr>msg_type := DONE, sender_pid := self_pid w4,
       msg_user_id := msg_user_id ack_msg, msg_command_id := msg_command_id ack_msg\<rparr>;
     Some (ipc_send_atomic SERVER_FIFO_PATH msg_done w4) }"

definition close_runner_fifo :: "fd \<Rightarrow> string \<Rightarrow> runner_world \<Rightarrow> runner_world" where
  "close_runner_fifo my_fd my_fifo w =
     (let (_, w1) = sys_close my_fd w; (_, w2) = ipc_destroy_fifo my_fifo w1 in w2)"

definition runner_run_execute ::
  "int \<Rightarrow> string \<Rightarrow> read_result list \<Rightarrow> runner_world \<Rightarrow> (int \<times> runner_world) option" where
  "runner_run_execute uid cmd inp w =
     (let (c, my_fifo, w1) = create_runner_fifo w
      in if c = - 1 then Some (1, w1)
         else
           let submit_msg = submit_of (self_pid w1) uid cmd;
               w2 = emit (Out (''[runner] command '' @ fmt_d (msg_command_id submit_msg) @ '' submitted'' @ LF)) w1;
               (r, w3) = ipc_send_atomic SERVER_FIFO_PATH submit_msg w2
           in if r = - 1 then
                let (_, w4) = ipc_destroy_fifo my_fifo (emit (Err ''ipc_send_atomic'') w3) in Some (1, w4)
              else
                let (my_fd, w4) = sys_open my_fifo w3
                in if fd_num my_fd = - 1 then
                     let (_, w5) = ipc_destroy_fifo my_fifo (emit (Err ''open runner fifo'') w4) in Some (1, w5)
                   else
                     let ((n, ack_msg), _) = ipc_read_blocking inp
                     in if n = int sizeof_RpcMessage \<and> msg_type ack_msg = ACK then do {
                          (s, w5) \<leftarrow> run_authorised submit_msg ack_msg w4;
                          if s = - 1 then Some (1, close_runner_fifo my_fd my_fifo (emit (Err ''ipc_send_atomic'') w5))
                          else Some (0, close_runner_fifo my_fd my_fifo
                            (emit (Out (''[runner] command '' @ fmt_d (msg_command_id ack_msg) @ '' finished'' @ LF)) w5)) }
                        else Some (1, close_runner_fifo my_fd my_fifo (emit (Out (''runner did not receive ACK'' @ LF)) w4)))"

subsection \<open>Entry point\<close>

definition runner_main :: "string list \<Rightarrow> read_result list \<Rightarrow> runner_world \<Rightarrow> (int \<times> runner_world) option" where
  "runner_main args inp w = do {
     (parse_result, request, w1) \<leftarrow> runner_parse_args args (Some zero_request) w;
     if parse_result \<noteq> 0 then Some (parse_result, w1)
     else do {
       req \<leftarrow> request;
       case mode req of
         RUNNER_MODE_STATUS \<Rightarrow> Some (runner_run_status inp w1)
       | RUNNER_MODE_SHUTDOWN \<Rightarrow> Some (runner_run_shutdown inp w1)
       | RUNNER_MODE_EXECUTE \<Rightarrow> do {
           cmd \<leftarrow> command req;
           runner_run_execute (req_user_id req) cmd inp w1 } } }"

end
