(* ===== verification/Command_Parser_Correct.thy ===== *)
theory Command_Parser_Correct
  imports Command_Parser
begin

text \<open>
  The parser against a reference definition that reads a stage as a list of items and forgets memory:
  equality of the results, termination, the balance of allocated blocks, and the inverse of printing.
\<close>

subsection \<open>Reference definition\<close>

abbreviation is_word :: "char \<Rightarrow> bool" where
  "is_word c \<equiv> \<not> is_space c \<and> c \<noteq> CHR ''<'' \<and> c \<noteq> CHR ''>''"

datatype item = Arg string | Redir redirect string

lemma skip_spaces_eq: "skip_spaces s = dropWhile is_space s"
  by (induction s) simp_all

lemma skip_word_eq: "skip_word s = dropWhile is_word s"
  by (induction s) simp_all

text \<open>The redirection operators of the command language, and the one a text starts with.\<close>

definition operators :: "(string \<times> redirect) list" where
  "operators = [(''2>'', Error_file), (''<'', Input_file), (''>'', Output_file)]"

definition operator_of :: "string \<Rightarrow> redirect option \<times> string" where
  "operator_of s =
     (case find (\<lambda>(t, r). take (length t) s = t) operators of
        None \<Rightarrow> (None, s)
      | Some (t, r) \<Rightarrow> (Some r, drop (length t) s))"

lemma redirect_operator_eq [simp]: "redirect_operator s = operator_of s"
  by (simp add: redirect_operator.simps operator_of_def operators_def numeral_2_eq_2)

lemma operator_of_length: "length (snd (operator_of s)) \<le> length s"
  by (simp add: operator_of_def operators_def)

function stage_items :: "string \<Rightarrow> item list option" where
  "stage_items s =
     (let c = dropWhile is_space s
      in if c = [] then Some []
         else
           let (r, c1) = operator_of c; c2 = dropWhile is_space c1; word = takeWhile is_word c2
           in if word = [] then None
              else map_option (Cons (case r of None \<Rightarrow> Arg word | Some r \<Rightarrow> Redir r word)) (stage_items (dropWhile is_word c2)))"
  by pat_completeness auto

lemma items_shorter:
  assumes "takeWhile is_word (dropWhile is_space c1) \<noteq> []" and "length c1 \<le> length s"
  shows "length (dropWhile is_word (dropWhile is_space c1)) < length s"
proof -
  let ?c2 = "dropWhile is_space c1"
  have "length (takeWhile is_word ?c2) + length (dropWhile is_word ?c2) = length ?c2"
    by (metis length_append takeWhile_dropWhile_id)
  moreover have "length ?c2 \<le> length c1" by (rule length_dropWhile_le)
  ultimately show ?thesis using assms by (cases "takeWhile is_word ?c2") auto
qed

termination stage_items
proof (relation "measure length", goal_cases)
  case (2 s c p r c1 c2 word)
  then have "length c1 \<le> length s"
    using operator_of_length [of c] length_dropWhile_le [of is_space s] by (metis order_trans snd_conv)
  with 2 show ?case using items_shorter [of c1 s] by simp
qed simp

declare stage_items.simps [simp del]

text \<open>What the arguments and the redirections of a stage are: the last target of each kind counts.\<close>

definition args_of :: "item list \<Rightarrow> string list" where
  "args_of its = List.map_filter (\<lambda>i. case i of Arg a \<Rightarrow> Some a | Redir r f \<Rightarrow> None) its"

fun redir_of :: "redirect \<Rightarrow> string option \<Rightarrow> item list \<Rightarrow> string option" where
  "redir_of r t [] = t"
| "redir_of r t (Arg a # its) = redir_of r t its"
| "redir_of r t (Redir r' f # its) = redir_of r (if r' = r then Some f else t) its"

lemma args_of_simps [simp]:
  "args_of [] = []" "args_of (Arg a # its) = a # args_of its" "args_of (Redir r f # its) = args_of its"
  by (simp_all add: args_of_def List.map_filter_def)

subsection \<open>The loop over one stage\<close>

definition stage_rep :: "command_stage \<Rightarrow> string list \<Rightarrow> (redirect \<Rightarrow> string option) \<Rightarrow> bool" where
  "stage_rep st args rf \<longleftrightarrow> length args < PARSER_MAX_ARGS \<and>
     argv st = map (Some \<circ> Some) args @ replicate (PARSER_MAX_ARGS - length args) (Some None) \<and>
     error_file st = rf Error_file \<and> input_file st = rf Input_file \<and> output_file st = rf Output_file"

definition stage_blocks :: "string list \<Rightarrow> (redirect \<Rightarrow> string option) \<Rightarrow> nat" where
  "stage_blocks args rf = length args + nb (rf Error_file) + nb (rf Input_file) + nb (rf Output_file)"

definition no_redirects :: "redirect \<Rightarrow> string option" where
  "no_redirects r = None"

lemma zero_stage_rep: "stage_rep zero_stage [] no_redirects"
  by (simp add: stage_rep_def zero_stage_def PARSER_MAX_ARGS_def no_redirects_def)

lemma stage_rep_field: "stage_rep st args rf \<Longrightarrow> redirect_field r st = rf r"
  by (cases r) (simp_all add: stage_rep_def)

lemma stage_rep_set: "stage_rep st args rf \<Longrightarrow> stage_rep (set_redirect r t st) args (rf(r := t))"
  by (cases r) (simp_all add: stage_rep_def)

lemma stage_rep_push:
  assumes rep: "stage_rep st args rf" and room: "length args < PARSER_MAX_ARGS - 1"
  obtains b where "wr (argv st) (int (length args)) (Some a) = Some b" and "stage_rep (st\<lparr>argv := b\<rparr>) (args @ [a]) rf"
proof -
  define k where "k = PARSER_MAX_ARGS - length args - 1"
  have k: "PARSER_MAX_ARGS - length args = Suc k" and k': "PARSER_MAX_ARGS - Suc (length args) = k"
    using room by (simp_all add: k_def)
  have av: "argv st = map (Some \<circ> Some) args @ Some None # replicate k (Some None)"
    using rep k by (simp add: stage_rep_def)
  show thesis
    by (rule that [of "map (Some \<circ> Some) (args @ [a]) @ replicate k (Some None)"])
      (use rep room k k' in \<open>simp_all add: av wr_def list_update_append stage_rep_def\<close>)
qed

lemma stage_rep_terminate:
  assumes "stage_rep st args rf"
  shows "wr (argv st) (int (length args)) None = Some (argv st)"
proof -
  obtain k where k: "PARSER_MAX_ARGS - length args = Suc k" using assms by (cases "PARSER_MAX_ARGS - length args") (auto simp: stage_rep_def)
  then have "argv st = map (Some \<circ> Some) args @ Some None # replicate k (Some None)" using assms by (simp add: stage_rep_def)
  then show ?thesis by (simp add: wr_def list_update_append)
qed

definition mem_ok :: "'a os_scheme \<Rightarrow> bool" where
  "mem_ok w \<longleftrightarrow> (\<forall>t. malloc_ok w t)"

text \<open>An operation that only allocates and frees.\<close>

definition allocates :: "'a os_scheme \<Rightarrow> 'a os_scheme \<Rightarrow> bool" where
  "allocates w w' \<longleftrightarrow> (\<exists>t b. w' = w\<lparr>tick := t, blocks := b\<rparr>)"

lemma allocates_refl [simp]: "allocates w w"
  unfolding allocates_def by (rule exI [of _ "tick w"], rule exI [of _ "blocks w"]) simp

lemma allocates_tick [simp]: "allocates w (w\<lparr>tick := t\<rparr>)" "allocates w (w\<lparr>blocks := b\<rparr>)"
    "allocates w (w\<lparr>tick := t, blocks := b\<rparr>)"
  unfolding allocates_def
  by (rule exI [of _ t], rule exI [of _ "blocks w"], simp) (rule exI [of _ "tick w"], rule exI [of _ b], simp, blast)

lemma allocates_trans: "allocates w w1 \<Longrightarrow> allocates w1 w2 \<Longrightarrow> allocates w w2"
  unfolding allocates_def by clarsimp blast

lemma allocates_mem: "allocates w w' \<Longrightarrow> mem_ok w' = mem_ok w"
  by (auto simp: allocates_def mem_ok_def)

lemma take_while_word: "take (length s - length (dropWhile P s)) s = takeWhile P s"
  by (induction s) (auto simp: Suc_diff_le length_dropWhile_le)

text \<open>Reading a token takes one block and the longest word, or nothing.\<close>

lemma parse_token_cases:
  obtains (word) a w' where "parse_token s w = (Some (dropWhile is_word (dropWhile is_space s)), Some a, w')"
      and "a = takeWhile is_word (dropWhile is_space s)" and "a \<noteq> []" and "allocates w w'" and "blocks w' = Suc (blocks w)"
  | (none) w' where "parse_token s w = (None, None, w')" and "allocates w w'" and "blocks w' = blocks w"
      and "mem_ok w \<longrightarrow> takeWhile is_word (dropWhile is_space s) = []"
proof -
  let ?c = "dropWhile is_space s"
  note tk = take_while_word [of ?c is_word]
  show thesis
  proof (cases "?c = [] \<or> hd ?c = CHR ''<'' \<or> hd ?c = CHR ''>''")
    case True
    then have "takeWhile is_word ?c = []" by (cases ?c) (auto simp del: dropWhile_eq_Nil_conv)
    with True show thesis by (intro none [of w]) (auto simp: parse_token_def skip_spaces_eq simp del: dropWhile_eq_Nil_conv)
  next
    case False
    then have ne: "takeWhile is_word ?c \<noteq> []"
      using hd_dropWhile [of is_space s] by (cases ?c) auto
    show thesis
    proof (cases "malloc_ok w (tick w)")
      case True
      show thesis
        by (rule word [of "takeWhile is_word ?c" "w\<lparr>tick := Suc (tick w), blocks := Suc (blocks w)\<rparr>"])
          (use True False ne tk in \<open>auto simp: parse_token_def skip_spaces_eq skip_word_eq duplicate_range_def
             malloc_block_def malloc_try_def Let_def simp del: dropWhile_eq_Nil_conv\<close>)
    next
      case noroom: False
      show thesis
        by (rule none [of "w\<lparr>tick := Suc (tick w)\<rparr>"])
          (use noroom False in \<open>auto simp: parse_token_def skip_spaces_eq skip_word_eq duplicate_range_def
             malloc_block_def malloc_try_def mem_ok_def Let_def
             simp del: dropWhile_eq_Nil_conv\<close>)
    qed
  qed
qed

definition stage_result :: "'a os_scheme \<Rightarrow> string \<Rightarrow> string list \<Rightarrow> (redirect \<Rightarrow> string option) \<Rightarrow>
    (int \<times> command_stage \<times> 'a os_scheme) option \<Rightarrow> bool" where
  "stage_result w s args rf res \<longleftrightarrow> (\<exists>r st' w' args' rf'. res = Some (r, st', w') \<and> stage_rep st' args' rf' \<and>
     allocates w w' \<and> blocks w' + stage_blocks args rf = blocks w + stage_blocks args' rf' \<and> (r = 0 \<or> r = - 1) \<and>
     (r = 0 \<longrightarrow> (\<exists>its. stage_items s = Some its \<and> args' = take (PARSER_MAX_ARGS - 1) (args @ args_of its) \<and>
        rf' = (\<lambda>k. redir_of k (rf k) its))) \<and>
     (mem_ok w \<and> stage_items s \<noteq> None \<longrightarrow> r = 0))"

lemma stage_resultI:
  assumes "res = Some (r, st', w')" and "stage_rep st' args' rf'" and "allocates w w'"
    and "blocks w' + stage_blocks args rf = blocks w + stage_blocks args' rf'" and "r = 0 \<or> r = - 1"
    and "r = 0 \<Longrightarrow> \<exists>its. stage_items s = Some its \<and> args' = take (PARSER_MAX_ARGS - 1) (args @ args_of its) \<and>
        rf' = (\<lambda>k. redir_of k (rf k) its)"
    and "mem_ok w \<Longrightarrow> stage_items s \<noteq> None \<Longrightarrow> r = 0"
  shows "stage_result w s args rf res"
  using assms unfolding stage_result_def by blast

lemma stage_result_step:
  assumes "stage_result w1 s1 args1 rf1 res" and "allocates w w1"
    and "blocks w1 + stage_blocks args rf = blocks w + stage_blocks args1 rf1"
    and "stage_items s = map_option (Cons it) (stage_items s1)"
    and "\<And>its. take (PARSER_MAX_ARGS - 1) (args1 @ args_of its) = take (PARSER_MAX_ARGS - 1) (args @ args_of (it # its))"
    and "\<And>its k. redir_of k (rf1 k) its = redir_of k (rf k) (it # its)"
  shows "stage_result w s args rf res"
proof -
  from assms(1) obtain r st' w' args' rf' where 1: "res = Some (r, st', w')" "stage_rep st' args' rf'" "allocates w1 w'"
    "blocks w' + stage_blocks args1 rf1 = blocks w1 + stage_blocks args' rf'" "r = 0 \<or> r = - 1"
    "r = 0 \<longrightarrow> (\<exists>its. stage_items s1 = Some its \<and> args' = take (PARSER_MAX_ARGS - 1) (args1 @ args_of its) \<and>
        rf' = (\<lambda>k. redir_of k (rf1 k) its))"
    "mem_ok w1 \<and> stage_items s1 \<noteq> None \<longrightarrow> r = 0" unfolding stage_result_def by blast
  show ?thesis
  proof (rule stage_resultI [OF 1(1,2)])
    show "allocates w w'" using allocates_trans [OF assms(2) 1(3)] .
    show "blocks w' + stage_blocks args rf = blocks w + stage_blocks args' rf'" using 1(4) assms(3) by simp
    show "\<exists>its. stage_items s = Some its \<and> args' = take (PARSER_MAX_ARGS - 1) (args @ args_of its) \<and>
        rf' = (\<lambda>k. redir_of k (rf k) its)" if r0: "r = 0"
    proof -
      from 1(6) r0 obtain its where "stage_items s1 = Some its" "args' = take (PARSER_MAX_ARGS - 1) (args1 @ args_of its)"
        "rf' = (\<lambda>k. redir_of k (rf1 k) its)" by blast
      then show ?thesis using assms(4) unfolding assms(5,6) by (intro exI [of _ "it # its"]) simp
    qed
    show "r = 0" if "mem_ok w" "stage_items s \<noteq> None"
      using that 1(7) assms(4) allocates_mem [OF assms(2)] by simp
  qed (rule 1(5))
qed

lemma stage_result_fail:
  assumes "res = Some (- 1, st, w1)" and "stage_rep st args rf" and "allocates w w1" and "blocks w1 = blocks w"
    and "mem_ok w \<longrightarrow> stage_items s = None"
  shows "stage_result w s args rf res"
  by (rule stage_resultI [OF assms(1,2,3)]) (use assms(4,5) in auto)

lemma stage_blocks_set:
  "stage_blocks args (rf(r := Some a)) + nb (rf r) = Suc (stage_blocks args rf)"
  by (cases r) (simp_all add: stage_blocks_def)

lemma stage_blocks_field: "nb (rf r) \<le> stage_blocks args rf"
  by (cases r) (simp_all add: stage_blocks_def)

text \<open>
  One turn of the loop: a redirection replaces the field it names, a word is appended or, when the vector is
  full, given back. In each case the rest of the text is parsed as the induction hypothesis \<open>ih\<close> says.
\<close>

lemma stage_turn_redirect:
  fixes w :: "'w os_scheme"
  assumes rep: "stage_rep st args rf" and le: "stage_blocks args rf \<le> blocks w"
    and ne: "dropWhile is_space s \<noteq> []" and op: "operator_of (dropWhile is_space s) = (Some k, c1)"
    and tok: "parse_token c1 w = (Some rest, Some a, w1)" "allocates w w1" "blocks w1 = Suc (blocks w)"
    and items: "stage_items s = map_option (Cons (Redir k a)) (stage_items rest)"
    and ih: "\<And>st' rf' (w' :: 'w os_scheme). stage_rep st' args rf' \<Longrightarrow> stage_blocks args rf' \<le> blocks w' \<Longrightarrow>
      stage_result w' rest args rf' (parse_stage_loop rest (int (length args)) st' w')"
  shows "stage_result w s args rf (parse_stage_loop s (int (length args)) st w)"
proof -
  let ?w2 = "w1\<lparr>blocks := blocks w1 - nb (rf k)\<rparr>"
  have fr: "free_opt (redirect_field k st) w1 = Some ?w2"
    unfolding stage_rep_field [OF rep] by (rule free_opt_nb) (use tok(3) stage_blocks_field [of rf k args] le in simp)
  have unf: "parse_stage_loop s (int (length args)) st w = parse_stage_loop rest (int (length args)) (set_redirect k (Some a) st) ?w2"
    using ne op tok(1) fr by (subst parse_stage_loop.simps) (simp add: skip_spaces_eq del: dropWhile_eq_Nil_conv)
  have bl: "blocks ?w2 + stage_blocks args rf = blocks w + stage_blocks args (rf(k := Some a))"
    using tok(3) stage_blocks_set [of args rf k a] stage_blocks_field [of rf k args] le by simp
  have al: "allocates w ?w2" by (rule allocates_trans [OF tok(2)]) simp
  have "stage_result ?w2 rest args (rf(k := Some a)) (parse_stage_loop rest (int (length args)) (set_redirect k (Some a) st) ?w2)"
    by (rule ih [OF stage_rep_set [OF rep]]) (use bl le in simp)
  then show ?thesis unfolding unf by (rule stage_result_step [OF _ al bl items]) simp_all
qed

lemma stage_turn_word:
  fixes w :: "'w os_scheme"
  assumes rep: "stage_rep st args rf" and le: "stage_blocks args rf \<le> blocks w"
    and ne: "dropWhile is_space s \<noteq> []" and op: "operator_of (dropWhile is_space s) = (None, c1)"
    and tok: "parse_token c1 w = (Some rest, Some a, w1)" "allocates w w1" "blocks w1 = Suc (blocks w)"
    and items: "stage_items s = map_option (Cons (Arg a)) (stage_items rest)"
    and ih: "\<And>st' args' (w' :: 'w os_scheme). stage_rep st' args' rf \<Longrightarrow> stage_blocks args' rf \<le> blocks w' \<Longrightarrow>
      stage_result w' rest args' rf (parse_stage_loop rest (int (length args')) st' w')"
  shows "stage_result w s args rf (parse_stage_loop s (int (length args)) st w)"
proof (cases "length args < PARSER_MAX_ARGS - 1")
  case True
  obtain b where b: "wr (argv st) (int (length args)) (Some a) = Some b" "stage_rep (st\<lparr>argv := b\<rparr>) (args @ [a]) rf"
    by (rule stage_rep_push [OF rep True])
  have lt: "int (length args) < int PARSER_MAX_ARGS - 1" using True by (simp add: PARSER_MAX_ARGS_def)
  have unf: "parse_stage_loop s (int (length args)) st w = parse_stage_loop rest (int (length (args @ [a]))) (st\<lparr>argv := b\<rparr>) w1"
    using ne op tok(1) b(1) lt
    by (subst parse_stage_loop.simps) (simp add: skip_spaces_eq add.commute del: dropWhile_eq_Nil_conv)
  have bl: "blocks w1 + stage_blocks args rf = blocks w + stage_blocks (args @ [a]) rf" using tok(3) by (simp add: stage_blocks_def)
  have "stage_result w1 rest (args @ [a]) rf (parse_stage_loop rest (int (length (args @ [a]))) (st\<lparr>argv := b\<rparr>) w1)"
    by (rule ih [OF b(2)]) (use bl le in simp)
  then show ?thesis unfolding unf by (rule stage_result_step [OF _ tok(2) bl items]) simp_all
next
  case False
  let ?w2 = "w1\<lparr>blocks := blocks w1 - 1\<rparr>"
  have full: "length args = PARSER_MAX_ARGS - 1" using False rep by (auto simp: stage_rep_def)
  have fr: "free_opt (Some a) w1 = Some ?w2" using free_opt_nb [of "Some a" w1] tok(3) by simp
  have unf: "parse_stage_loop s (int (length args)) st w = parse_stage_loop rest (int (length args)) st ?w2"
    using ne op tok(1) fr False
    by (subst parse_stage_loop.simps) (simp add: skip_spaces_eq of_nat_diff PARSER_MAX_ARGS_def del: dropWhile_eq_Nil_conv)
  have bl: "blocks ?w2 + stage_blocks args rf = blocks w + stage_blocks args rf" using tok(3) by simp
  have al: "allocates w ?w2" by (rule allocates_trans [OF tok(2)]) simp
  have "stage_result ?w2 rest args rf (parse_stage_loop rest (int (length args)) st ?w2)" by (rule ih [OF rep]) (use bl le in simp)
  then show ?thesis unfolding unf by (rule stage_result_step [OF _ al bl items]) (use full in simp_all)
qed

lemma parse_stage_loop_ok:
  assumes "stage_rep st args rf" and "stage_blocks args rf \<le> blocks w"
  shows "stage_result w s args rf (parse_stage_loop s (int (length args)) st w)"
  using assms
proof (induction "length s" arbitrary: s args rf st w rule: less_induct)
  case less
  note rep = less.prems(1)
  let ?c = "dropWhile is_space s"
  show ?case
  proof (cases "?c = []")
    case True
    have l: "stage_items s = Some []" using True by (subst stage_items.simps) (simp del: dropWhile_eq_Nil_conv)
    have "parse_stage_loop s (int (length args)) st w = Some (0, st, w)"
      using True stage_rep_terminate [OF rep]
      by (subst parse_stage_loop.simps) (simp add: skip_spaces_eq del: dropWhile_eq_Nil_conv)
    then show ?thesis
      by (rule stage_resultI [OF _ rep allocates_refl]) (use l rep in \<open>auto simp: stage_rep_def\<close>)
  next
    case ne: False
    obtain r c1 where op: "operator_of ?c = (r, c1)" by (cases "operator_of ?c")
    have c1: "length c1 \<le> length s"
      using operator_of_length [of ?c] length_dropWhile_le [of is_space s] op by simp
    let ?word = "takeWhile is_word (dropWhile is_space c1)" and ?rest = "dropWhile is_word (dropWhile is_space c1)"
    let ?it = "case r of None \<Rightarrow> Arg ?word | Some k \<Rightarrow> Redir k ?word"
    have lx: "stage_items s = (if ?word = [] then None else map_option (Cons ?it) (stage_items ?rest))"
      using ne op by (subst stage_items.simps) (simp add: Let_def del: dropWhile_eq_Nil_conv)
    show ?thesis
    proof (cases rule: parse_token_cases [of c1 w])
      case (none w1)
      have "parse_stage_loop s (int (length args)) st w = Some (- 1, st, w1)"
        using ne op none(1) by (subst parse_stage_loop.simps)
          (simp add: skip_spaces_eq split: option.split del: dropWhile_eq_Nil_conv)
      then show ?thesis by (rule stage_result_fail [OF _ rep none(2,3)]) (use lx none(4) in auto)
    next
      case (word a w1)
      have sh: "length ?rest < length s" using word(2,3) c1 by (intro items_shorter) auto
      have lx': "stage_items s = map_option (Cons ?it) (stage_items ?rest)" using lx word(2,3) by simp
      show ?thesis
      proof (cases r)
        case (Some k)
        show ?thesis
          by (rule stage_turn_redirect [OF rep less.prems(2) ne op [unfolded Some] word(1,4,5) _ less.hyps [OF sh]])
            (use lx' Some word(2) in simp)
      next
        case None
        show ?thesis
          by (rule stage_turn_word [OF rep less.prems(2) ne op [unfolded None] word(1,4,5) _ less.hyps [OF sh]])
            (use lx' None word(2) in simp)
      qed
    qed
  qed
qed

subsection \<open>Releasing a command\<close>

lemma destroy_args_ok:
  assumes "drop i b = map (Some \<circ> Some) as @ Some None # rest" and "length as < k" and "length as \<le> blocks w"
  shows "destroy_args k (int i) b w = Some (w\<lparr>blocks := blocks w - length as\<rparr>)"
  using assms
proof (induction as arbitrary: i k w)
  case Nil
  then obtain k' where k: "k = Suc k'" by (cases k) auto
  have "i < length b" using Nil.prems(1) by (cases "i < length b") auto
  moreover have "b ! i = Some None" using Nil.prems(1) by (metis Cons_nth_drop_Suc calculation list.inject list.simps(8) self_append_conv2)
  ultimately show ?case using k by (simp add: rd_def)
next
  case (Cons a as)
  then obtain k' where k: "k = Suc k'" by (cases k) auto
  have i: "i < length b" using Cons.prems(1) by (cases "i < length b") auto
  then have "drop i b = b ! i # drop (Suc i) b" by (simp add: Cons_nth_drop_Suc)
  with Cons.prems(1) have bi: "b ! i = Some (Some a)" and dr: "drop (Suc i) b = map (Some \<circ> Some) as @ Some None # rest" by simp_all
  have "free_opt (Some a) w = Some (w\<lparr>blocks := blocks w - 1\<rparr>)" using free_opt_nb [of "Some a" w] Cons.prems(3) by simp
  moreover have "destroy_args k' (int (Suc i)) b (w\<lparr>blocks := blocks w - 1\<rparr>) =
      Some ((w\<lparr>blocks := blocks w - 1\<rparr>)\<lparr>blocks := blocks (w\<lparr>blocks := blocks w - 1\<rparr>) - length as\<rparr>)"
    by (rule Cons.IH [OF dr]) (use Cons.prems k in simp_all)
  ultimately show ?case using i bi k by (simp add: rd_def add.commute)
qed

lemma destroy_stage_ok:
  assumes rep: "stage_rep st args rf" and bl: "stage_blocks args rf \<le> blocks w"
  shows "destroy_stages (st # sts) w = destroy_stages sts (w\<lparr>blocks := blocks w - stage_blocks args rf\<rparr>)"
proof -
  obtain n where n: "PARSER_MAX_ARGS - length args = Suc n" using rep by (cases "PARSER_MAX_ARGS - length args") (auto simp: stage_rep_def)
  have av: "drop 0 (argv st) = map (Some \<circ> Some) args @ Some None # replicate n (Some None)"
    using rep n by (simp add: stage_rep_def)
  have d: "destroy_args PARSER_MAX_ARGS 0 (argv st) w = Some (w\<lparr>blocks := blocks w - length args\<rparr>)"
    using destroy_args_ok [OF av, of PARSER_MAX_ARGS w] rep bl by (simp add: stage_rep_def stage_blocks_def)
  have f: "input_file st = rf Input_file" "output_file st = rf Output_file" "error_file st = rf Error_file"
    using rep by (simp_all add: stage_rep_def)
  show ?thesis using bl by (simp add: d f free_opt_nb stage_blocks_def add.commute add.left_commute)
qed

type_synonym stage_view = "string list \<times> (redirect \<Rightarrow> string option)"

definition view_blocks :: "stage_view list \<Rightarrow> nat" where
  "view_blocks vs = sum_list (map (\<lambda>v. stage_blocks (fst v) (snd v)) vs)"

lemma view_blocks_simps [simp]:
  "view_blocks [] = 0" "view_blocks (v # vs) = stage_blocks (fst v) (snd v) + view_blocks vs"
  "view_blocks (vs @ vs') = view_blocks vs + view_blocks vs'"
  by (simp_all add: view_blocks_def)

definition command_rep :: "parsed_command \<Rightarrow> stage_view list \<Rightarrow> bool" where
  "command_rep c vs \<longleftrightarrow> stage_count c = int (length vs) \<and> length vs \<le> PARSER_MAX_STAGES \<and>
     (\<exists>sts. stages c = sts @ replicate (PARSER_MAX_STAGES - length vs) zero_stage \<and>
       list_all2 (\<lambda>st v. stage_rep st (fst v) (snd v)) sts vs)"

lemma destroy_stages_ok:
  assumes "list_all2 (\<lambda>st v. stage_rep st (fst v) (snd v)) sts vs" and "view_blocks vs \<le> blocks w"
  shows "destroy_stages sts w = Some (w\<lparr>blocks := blocks w - view_blocks vs\<rparr>)"
  using assms
proof (induction arbitrary: w rule: list_all2_induct)
  case Nil
  then show ?case by simp
next
  case (Cons st sts v vs)
  let ?w = "w\<lparr>blocks := blocks w - stage_blocks (fst v) (snd v)\<rparr>"
  have "destroy_stages (st # sts) w = destroy_stages sts ?w"
    by (rule destroy_stage_ok [OF Cons(1)]) (use Cons.prems in simp)
  also have "\<dots> = Some (?w\<lparr>blocks := blocks ?w - view_blocks vs\<rparr>)" by (rule Cons.IH) (use Cons.prems in simp)
  finally show ?case by simp
qed

lemma command_rep_stages:
  assumes "command_rep c vs"
  obtains sts where "stages c = sts @ replicate (PARSER_MAX_STAGES - length vs) zero_stage"
    and "list_all2 (\<lambda>st v. stage_rep st (fst v) (snd v)) sts vs" and "length sts = length vs"
    and "stage_count c = int (length vs)" and "length vs \<le> PARSER_MAX_STAGES"
  using assms unfolding command_rep_def by (auto dest: list_all2_lengthD)

lemma parser_destroy_ok:
  assumes rep: "command_rep c vs" and bl: "Suc (view_blocks vs) \<le> blocks w"
  shows "parser_destroy (Some c) w = Some (w\<lparr>blocks := blocks w - Suc (view_blocks vs)\<rparr>)"
proof -
  obtain sts where s: "stages c = sts @ replicate (PARSER_MAX_STAGES - length vs) zero_stage"
    "list_all2 (\<lambda>st v. stage_rep st (fst v) (snd v)) sts vs" "length sts = length vs"
    "stage_count c = int (length vs)" "length vs \<le> PARSER_MAX_STAGES" by (rule command_rep_stages [OF rep])
  have "destroy_stages sts w = Some (w\<lparr>blocks := blocks w - view_blocks vs\<rparr>)"
    by (rule destroy_stages_ok [OF s(2)]) (use bl in simp)
  then show ?thesis using s bl by (simp add: parser_destroy_def free_block_def Suc_diff_Suc)
qed

subsection \<open>The whole command\<close>

function segments :: "string \<Rightarrow> string list" where
  "segments s = (case strtok s of None \<Rightarrow> [] | Some (t, r) \<Rightarrow> t # segments r)"
  by pat_completeness auto

termination segments
proof (relation "measure length", goal_cases)
  case (2 s p t r)
  let ?s1 = "dropWhile (\<lambda>c. c = CHR ''|'') s"
  have ne: "?s1 \<noteq> []" and r: "r = drop 1 (dropWhile (\<lambda>c. c \<noteq> CHR ''|'') ?s1)"
    using 2 by (auto simp: strtok_def Let_def split: if_splits)
  have "hd ?s1 \<noteq> CHR ''|''" using hd_dropWhile [OF ne] .
  with ne have "length (dropWhile (\<lambda>c. c \<noteq> CHR ''|'') ?s1) < length ?s1"
    using length_dropWhile_le [of "\<lambda>c. c \<noteq> CHR ''|''" "tl ?s1"] by (cases ?s1) auto
  then show ?case using length_dropWhile_le [of "\<lambda>c. c = CHR ''|''" s] by (simp add: r)
qed simp

declare segments.simps [simp del]

text \<open>What a stage and a command mean, without memory: the stages are read independently.\<close>

definition stage_view :: "string \<Rightarrow> stage_view option" where
  "stage_view s = map_option (\<lambda>its. (take (PARSER_MAX_ARGS - 1) (args_of its), \<lambda>k. redir_of k None its)) (stage_items s)"

fun stage_views :: "string list \<Rightarrow> stage_view list option" where
  "stage_views [] = Some []"
| "stage_views (s # ss) = (case stage_view s of None \<Rightarrow> None | Some v \<Rightarrow> map_option (Cons v) (stage_views ss))"

definition command_view :: "string \<Rightarrow> stage_view list option" where
  "command_view s = stage_views (take PARSER_MAX_STAGES (segments (fit_buffer PARSER_INPUT_BUFFER s)))"

definition stages_result :: "'a os_scheme \<Rightarrow> stage_view list \<Rightarrow> stage_view list option \<Rightarrow>
    (parsed_command option \<times> 'a os_scheme) option \<Rightarrow> bool" where
  "stages_result w vs spec res \<longleftrightarrow> (\<exists>p w'. res = Some (p, w') \<and> allocates w w' \<and>
     (case p of
        Some c \<Rightarrow> (\<exists>vs'. spec = Some vs' \<and> command_rep c (vs @ vs') \<and> blocks w' = blocks w + view_blocks vs')
      | None \<Rightarrow> \<not> (mem_ok w \<and> spec \<noteq> None) \<and>
          (\<exists>args rf. blocks w' + Suc (view_blocks vs) = blocks w + stage_blocks args rf)))"

text \<open>A stage is parsed into an empty entry of the array.\<close>

lemma parse_stage_fresh:
  obtains e st args rf w1 where "parse_stage zero_stage t w = Some (e, st, w1)" and "stage_rep st args rf"
    and "allocates w w1" and "blocks w1 = blocks w + stage_blocks args rf" and "e = 0 \<or> e = - 1"
    and "e = 0 \<longrightarrow> stage_view t = Some (args, rf)" and "mem_ok w \<and> stage_items t \<noteq> None \<longrightarrow> e = 0"
proof -
  have "stage_result w t [] no_redirects (parse_stage_loop t (int (length ([] :: string list))) zero_stage w)"
    by (rule parse_stage_loop_ok [OF zero_stage_rep]) (simp add: stage_blocks_def no_redirects_def)
  then obtain e st w1 args rf where p: "parse_stage_loop t (int (length ([] :: string list))) zero_stage w = Some (e, st, w1)"
      "stage_rep st args rf" "allocates w w1" "blocks w1 + stage_blocks [] no_redirects = blocks w + stage_blocks args rf"
      "e = 0 \<or> e = - 1"
      "e = 0 \<longrightarrow> (\<exists>its. stage_items t = Some its \<and> args = take (PARSER_MAX_ARGS - 1) ([] @ args_of its) \<and>
         rf = (\<lambda>k. redir_of k (no_redirects k) its))"
      "mem_ok w \<and> stage_items t \<noteq> None \<longrightarrow> e = 0"
    unfolding stage_result_def by blast
  have "e = 0 \<longrightarrow> stage_view t = Some (args, rf)" using p(6) by (auto simp: stage_view_def no_redirects_def)
  then show thesis using that [OF _ p(2,3) _ p(5) _ p(7)] p(1,4) by (simp add: parse_stage_def stage_blocks_def no_redirects_def)
qed

lemma command_rep_next:
  assumes rep: "command_rep c vs" and k: "length vs + Suc k = PARSER_MAX_STAGES"
  obtains sts where "stages c ! nat (stage_count c) = zero_stage" and "list_all2 (\<lambda>st v. stage_rep st (fst v) (snd v)) sts vs"
    and "length sts = length vs" and "stage_count c = int (length vs)"
    and "\<forall>st. stages (c\<lparr>stages := (stages c)[nat (stage_count c) := st]\<rparr>) = sts @ st # replicate k zero_stage"
proof -
  obtain sts where s: "stages c = sts @ replicate (PARSER_MAX_STAGES - length vs) zero_stage"
    "list_all2 (\<lambda>st v. stage_rep st (fst v) (snd v)) sts vs" "length sts = length vs"
    "stage_count c = int (length vs)" "length vs \<le> PARSER_MAX_STAGES" by (rule command_rep_stages [OF rep])
  have "PARSER_MAX_STAGES - length vs = Suc k" using k by simp
  then show thesis using that [OF _ s(2-4)] s by (simp add: nth_append list_update_append)
qed

lemma command_rep_snoc:
  assumes rep: "command_rep c vs" and k: "length vs + Suc k = PARSER_MAX_STAGES" and st: "stage_rep st args rf"
  shows "command_rep (c\<lparr>stages := (stages c)[nat (stage_count c) := st], stage_count := stage_count c + 1\<rparr>) (vs @ [(args, rf)])"
proof -
  obtain sts where z: "stages c ! nat (stage_count c) = zero_stage"
    and s: "list_all2 (\<lambda>st v. stage_rep st (fst v) (snd v)) sts vs" "length sts = length vs" "stage_count c = int (length vs)"
    "\<forall>st. stages (c\<lparr>stages := (stages c)[nat (stage_count c) := st]\<rparr>) = sts @ st # replicate k zero_stage"
    by (rule command_rep_next [OF rep k])
  have "PARSER_MAX_STAGES - length (vs @ [(args, rf)]) = k" using k by simp
  then show ?thesis
    unfolding command_rep_def using s(4) s(1-3) k st
    by (intro conjI exI [of _ "sts @ [st]"]) (simp_all add: list_all2_appendI)
qed

text \<open>After a stage that cannot be parsed the stages counted so far are released.\<close>

lemma parser_destroy_partial:
  assumes rep: "command_rep c vs" and k: "length vs + Suc k = PARSER_MAX_STAGES" and b: "Suc (view_blocks vs) \<le> blocks w"
  shows "parser_destroy (Some (c\<lparr>stages := (stages c)[nat (stage_count c) := st]\<rparr>)) w = Some (w\<lparr>blocks := blocks w - Suc (view_blocks vs)\<rparr>)"
proof -
  obtain sts where z: "stages c ! nat (stage_count c) = zero_stage"
    and s: "list_all2 (\<lambda>st v. stage_rep st (fst v) (snd v)) sts vs" "length sts = length vs" "stage_count c = int (length vs)"
    "\<forall>st. stages (c\<lparr>stages := (stages c)[nat (stage_count c) := st]\<rparr>) = sts @ st # replicate k zero_stage"
    by (rule command_rep_next [OF rep k])
  have "destroy_stages sts w = Some (w\<lparr>blocks := blocks w - view_blocks vs\<rparr>)" by (rule destroy_stages_ok [OF s(1)]) (use b in simp)
  then show ?thesis using s(2,3) s(4) b by (simp add: parser_destroy_def free_block_def Suc_diff_Suc)
qed

lemma stages_result_Cons:
  assumes r: "stages_result w1 (vs @ [(args, rf)]) (stage_views ts) r" and v: "stage_view t = Some (args, rf)"
    and al: "allocates w w1" and b: "blocks w1 = blocks w + stage_blocks args rf"
  shows "stages_result w vs (stage_views (t # ts)) r"
proof -
  from r obtain pc w' where 1: "r = Some (pc, w')" "allocates w1 w'"
    and 2: "case pc of
        Some c' \<Rightarrow> (\<exists>vs'. stage_views ts = Some vs' \<and> command_rep c' ((vs @ [(args, rf)]) @ vs') \<and> blocks w' = blocks w1 + view_blocks vs')
      | None \<Rightarrow> \<not> (mem_ok w1 \<and> stage_views ts \<noteq> None) \<and>
          (\<exists>args' rf'. blocks w' + Suc (view_blocks (vs @ [(args, rf)])) = blocks w1 + stage_blocks args' rf')"
    unfolding stages_result_def by auto
  have "case pc of
      Some c' \<Rightarrow> (\<exists>vs'. stage_views (t # ts) = Some vs' \<and> command_rep c' (vs @ vs') \<and> blocks w' = blocks w + view_blocks vs')
    | None \<Rightarrow> \<not> (mem_ok w \<and> stage_views (t # ts) \<noteq> None) \<and>
        (\<exists>args' rf'. blocks w' + Suc (view_blocks vs) = blocks w + stage_blocks args' rf')"
  proof (cases pc)
    case None
    with 2 obtain a' f' where "\<not> (mem_ok w1 \<and> stage_views ts \<noteq> None)"
      "blocks w' + Suc (view_blocks (vs @ [(args, rf)])) = blocks w1 + stage_blocks a' f'" by auto
    with None b allocates_mem [OF al] v show ?thesis by auto
  next
    case (Some c')
    with 2 obtain vs' where "stage_views ts = Some vs'" "command_rep c' ((vs @ [(args, rf)]) @ vs')"
      "blocks w' = blocks w1 + view_blocks vs'" by auto
    with Some b v show ?thesis by simp
  qed
  then show ?thesis unfolding stages_result_def using 1(1) allocates_trans [OF al 1(2)] by blast
qed

lemma parse_stages_ok:
  assumes "command_rep c vs" and "length vs + k = PARSER_MAX_STAGES" and "Suc (view_blocks vs) \<le> blocks w"
  shows "stages_result w vs (stage_views (take k (segments s))) (parse_stages k s c w)"
  using assms
proof (induction k arbitrary: s c vs w)
  case 0
  then show ?case by (auto simp: stages_result_def intro!: exI [of _ "Some c"] exI [of _ w])
next
  case (Suc k)
  show ?case
  proof (cases "strtok s")
    case None
    then have "segments s = []" by (subst segments.simps) simp
    with None Suc.prems show ?thesis
      by (auto simp: stages_result_def intro!: exI [of _ "Some c"] exI [of _ w])
  next
    case (Some q)
    obtain t r where q: "strtok s = Some (t, r)" using Some by (cases q) auto
    have seg: "segments s = t # segments r" using q by (subst segments.simps) simp
    have z: "stages c ! nat (stage_count c) = zero_stage" by (rule command_rep_next [OF Suc.prems(1,2)])
    obtain e st args rf w1 where p: "parse_stage zero_stage t w = Some (e, st, w1)" "stage_rep st args rf" "allocates w w1"
      "blocks w1 = blocks w + stage_blocks args rf" "e = 0 \<or> e = - 1" "e = 0 \<longrightarrow> stage_view t = Some (args, rf)"
      "mem_ok w \<and> stage_items t \<noteq> None \<longrightarrow> e = 0" by (rule parse_stage_fresh)
    let ?c1 = "c\<lparr>stages := (stages c)[nat (stage_count c) := st]\<rparr>"
    show ?thesis
    proof (cases "e = 0")
      case True
      have "stages_result w1 (vs @ [(args, rf)]) (stage_views (take k (segments r)))
          (parse_stages k r (?c1\<lparr>stage_count := stage_count ?c1 + 1\<rparr>) w1)"
        using command_rep_snoc [OF Suc.prems(1,2) p(2)] Suc.prems(2,3) p(4) by (intro Suc.IH) simp_all
      moreover have "parse_stages (Suc k) s c w = parse_stages k r (?c1\<lparr>stage_count := stage_count ?c1 + 1\<rparr>) w1"
        using q z p(1) True by simp
      moreover have v: "stage_view t = Some (args, rf)" using p(6) True by blast
      ultimately show ?thesis using stages_result_Cons [OF _ v p(3,4)] seg by simp
    next
      case False
      then have e: "e = - 1" using p(5) by blast
      have b: "Suc (view_blocks vs) \<le> blocks w1" using Suc.prems(3) p(4) by simp
      have "parse_stages (Suc k) s c w = Some (None, w1\<lparr>blocks := blocks w1 - Suc (view_blocks vs)\<rparr>)"
        using q z p(1) e parser_destroy_partial [OF Suc.prems(1,2) b] by simp
      moreover have "\<not> (mem_ok w \<and> stage_views (take (Suc k) (segments s)) \<noteq> None)"
        using p(7) e seg by (auto simp: stage_view_def split: option.splits)
      moreover have "allocates w (w1\<lparr>blocks := blocks w1 - Suc (view_blocks vs)\<rparr>)"
        by (rule allocates_trans [OF p(3)]) simp
      ultimately show ?thesis unfolding stages_result_def using p(4) Suc.prems(3) by fastforce
    qed
  qed
qed

lemma command_zero: "command_rep zero_command []"
  by (simp add: command_rep_def zero_command_def PARSER_MAX_STAGES_def)

lemma parser_parse_ok:
  obtains p w' where "parser_parse (Some s) w = Some (p, w')" and "allocates w w'"
    and "mem_ok w \<longrightarrow> (p = None \<longleftrightarrow> command_view s = None)"
    and "\<forall>c. p = Some c \<longrightarrow> (\<exists>vs. command_view s = Some vs \<and> command_rep c vs \<and> blocks w' = blocks w + Suc (view_blocks vs))"
    and "p = None \<longrightarrow> (\<exists>args rf. blocks w' = blocks w + stage_blocks args rf)"
proof (cases "malloc_ok w (tick w)")
  case False
  show thesis
  proof (rule that)
    show "parser_parse (Some s) w = Some (None, w\<lparr>tick := Suc (tick w)\<rparr>)"
      using False by (simp add: parser_parse_def malloc_block_def malloc_try_def)
    show "None = None \<longrightarrow> (\<exists>args rf. blocks (w\<lparr>tick := Suc (tick w)\<rparr>) = blocks w + stage_blocks args rf)"
      by (auto intro!: exI [of _ "[]"] exI [of _ no_redirects] simp: stage_blocks_def no_redirects_def)
  qed (use False in \<open>auto simp: mem_ok_def\<close>)
next
  case True
  let ?w1 = "w\<lparr>tick := Suc (tick w), blocks := Suc (blocks w)\<rparr>"
  have unf: "parser_parse (Some s) w = parse_stages PARSER_MAX_STAGES (fit_buffer PARSER_INPUT_BUFFER s) zero_command ?w1"
    using True by (simp add: parser_parse_def malloc_block_def malloc_try_def)
  have "stages_result ?w1 [] (stage_views (take PARSER_MAX_STAGES (segments (fit_buffer PARSER_INPUT_BUFFER s))))
      (parse_stages PARSER_MAX_STAGES (fit_buffer PARSER_INPUT_BUFFER s) zero_command ?w1)"
    by (rule parse_stages_ok [OF command_zero]) simp_all
  then obtain p w' where r: "parser_parse (Some s) w = Some (p, w')" "allocates ?w1 w'"
    "case p of Some c \<Rightarrow> (\<exists>vs'. command_view s = Some vs' \<and> command_rep c ([] @ vs') \<and> blocks w' = blocks ?w1 + view_blocks vs')
      | None \<Rightarrow> \<not> (mem_ok ?w1 \<and> command_view s \<noteq> None) \<and>
          (\<exists>args rf. blocks w' + Suc (view_blocks []) = blocks ?w1 + stage_blocks args rf)"
    unfolding stages_result_def command_view_def [symmetric] unf by blast
  have al: "allocates w w'" using allocates_trans [OF _ r(2)] by simp
  have me: "mem_ok ?w1 = mem_ok w" by (simp add: mem_ok_def)
  show thesis by (rule that [OF r(1) al]) (use r(3) me in \<open>auto split: option.splits\<close>)
qed

subsection \<open>Rendering\<close>

fun operator_text :: "redirect \<Rightarrow> string" where
  "operator_text Error_file = ''2>''"
| "operator_text Input_file = ''<''"
| "operator_text Output_file = ''>''"

fun item_text :: "item \<Rightarrow> string" where
  "item_text (Arg a) = a @ '' ''"
| "item_text (Redir k f) = operator_text k @ '' '' @ f @ '' ''"

definition plain_word :: "string \<Rightarrow> bool" where
  "plain_word a \<longleftrightarrow> a \<noteq> [] \<and> (\<forall>c\<in>set a. is_word c \<and> c \<noteq> CHR ''|'')"

fun plain_item :: "item \<Rightarrow> bool" where
  "plain_item (Arg a) = plain_word a"
| "plain_item (Redir k f) = plain_word f"

definition stage_text :: "item list \<Rightarrow> string" where
  "stage_text its = concat (map item_text its)"

fun pipeline_text :: "item list list \<Rightarrow> string" where
  "pipeline_text [] = []"
| "pipeline_text [its] = stage_text its"
| "pipeline_text (its # ps) = stage_text its @ ''|'' @ pipeline_text ps"

lemma is_space_blank [simp]: "is_space CHR '' ''"
  by (simp add: is_space_def)

lemma stage_items_blank [simp]: "stage_items (CHR '' '' # s) = stage_items s"
  by (subst (1 2) stage_items.simps) simp

lemma plain_take: "plain_word a \<Longrightarrow> takeWhile is_word (a @ CHR '' '' # s) = a \<and> dropWhile is_word (a @ CHR '' '' # s) = CHR '' '' # s"
  by (subst takeWhile_append2, simp add: plain_word_def) (subst dropWhile_append2, auto simp: plain_word_def)

lemma plain_hd: "plain_word a \<Longrightarrow> dropWhile is_space (a @ s) = a @ s"
  by (cases a) (auto simp: plain_word_def)

lemma operator_not_space [simp]: "dropWhile is_space (operator_text k @ s) = operator_text k @ s"
  by (cases k) (simp_all add: is_space_def)

lemma operator_of_text: "operator_of (operator_text k @ CHR '' '' # s) = (Some k, CHR '' '' # s)"
  by (cases k) (simp_all add: operator_of_def operators_def)

lemma operator_of_plain:
  assumes "plain_word a"
  shows "operator_of (a @ CHR '' '' # s) = (None, a @ CHR '' '' # s)"
proof (cases a)
  case Nil
  with assms show ?thesis by (simp add: plain_word_def)
next
  case (Cons c cs)
  with assms show ?thesis
    by (cases cs) (auto simp: operator_of_def operators_def plain_word_def)
qed

lemma stage_items_item:
  assumes "plain_item it"
  shows "stage_items (item_text it @ s) = map_option (Cons it) (stage_items s)"
proof (cases it)
  case (Arg a)
  with assms have a: "plain_word a" by simp
  then have ne: "a \<noteq> []" by (simp add: plain_word_def)
  show ?thesis using plain_take [OF a, of s] plain_hd [OF a] operator_of_plain [OF a, of s] ne Arg
    by (subst stage_items.simps) (simp add: Let_def)
next
  case (Redir k f)
  with assms have f: "plain_word f" by simp
  then have ne: "f \<noteq> []" "operator_text k \<noteq> []" by (simp_all add: plain_word_def) (cases k; simp)
  show ?thesis using plain_take [OF f, of s] plain_hd [OF f] operator_of_text [of k "f @ CHR '' '' # s"] ne Redir
    by (subst stage_items.simps) (simp add: Let_def)
qed

lemma stage_items_text: "\<forall>it\<in>set its. plain_item it \<Longrightarrow> stage_items (stage_text its) = Some its"
proof (induction its)
  case Nil
  show ?case by (simp add: stage_text_def stage_items.simps [of "[]"])
next
  case (Cons it its)
  then show ?case using stage_items_item [of it "stage_text its"] by (simp add: stage_text_def)
qed

lemma item_no_bar: "plain_item it \<Longrightarrow> CHR ''|'' \<notin> set (item_text it)"
  by (cases it; cases "case it of Redir k f \<Rightarrow> k | _ \<Rightarrow> Error_file") (auto simp: plain_word_def)

lemma stage_text_no_bar: "\<forall>it\<in>set its. plain_item it \<Longrightarrow> CHR ''|'' \<notin> set (stage_text its)"
  using item_no_bar by (auto simp: stage_text_def)

lemma stage_text_nonempty: "its \<noteq> [] \<Longrightarrow> stage_text its \<noteq> []"
proof (cases its)
  case (Cons it rest)
  then show ?thesis by (cases it) (simp_all add: stage_text_def)
qed simp

lemma strtok_segment:
  assumes "t \<noteq> []" and "CHR ''|'' \<notin> set t"
  shows "strtok (t @ CHR ''|'' # r) = Some (t, r)" and "strtok t = Some (t, [])"
proof -
  have d: "dropWhile (\<lambda>c. c = CHR ''|'') (t @ s) = t @ s" for s using assms by (cases t) auto
  have tk: "takeWhile (\<lambda>c. c \<noteq> CHR ''|'') (t @ s) = t @ takeWhile (\<lambda>c. c \<noteq> CHR ''|'') s"
    "dropWhile (\<lambda>c. c \<noteq> CHR ''|'') (t @ s) = dropWhile (\<lambda>c. c \<noteq> CHR ''|'') s" for s
    using assms(2) by (induction t) auto
  show "strtok (t @ CHR ''|'' # r) = Some (t, r)" using d tk assms(1) by (simp add: strtok_def)
  show "strtok t = Some (t, [])" using d [of "[]"] tk [of "[]"] assms(1)
    by (simp add: strtok_def del: dropWhile_eq_Nil_conv)
qed

lemma segments_pipeline:
  assumes "\<forall>its\<in>set ps. its \<noteq> [] \<and> (\<forall>it\<in>set its. plain_item it)"
  shows "segments (pipeline_text ps) = map stage_text ps"
  using assms
proof (induction ps rule: pipeline_text.induct)
  case 1
  show ?case by (simp add: segments.simps strtok_def)
next
  case (2 its)
  then have "strtok (stage_text its) = Some (stage_text its, [])"
    using strtok_segment(2) stage_text_nonempty stage_text_no_bar by simp
  moreover have "segments [] = []" by (simp add: segments.simps strtok_def)
  ultimately show ?case by (subst segments.simps) simp
next
  case (3 its p ps)
  then have "strtok (stage_text its @ CHR ''|'' # pipeline_text (p # ps)) = Some (stage_text its, pipeline_text (p # ps))"
    using strtok_segment(1) stage_text_nonempty stage_text_no_bar by simp
  then show ?case using 3 by (subst segments.simps) simp
qed

definition view_of :: "item list \<Rightarrow> stage_view" where
  "view_of its = (args_of its, \<lambda>k. redir_of k None its)"

lemma stage_views_text:
  assumes "\<forall>its\<in>set ps. length (args_of its) < PARSER_MAX_ARGS \<and> (\<forall>it\<in>set its. plain_item it)"
  shows "stage_views (map stage_text ps) = Some (map view_of ps)"
  using assms by (induction ps) (auto simp: stage_view_def stage_items_text view_of_def PARSER_MAX_ARGS_def)

lemma command_view_text:
  assumes "\<forall>its\<in>set ps. its \<noteq> [] \<and> length (args_of its) < PARSER_MAX_ARGS \<and> (\<forall>it\<in>set its. plain_item it)"
    and "length ps \<le> PARSER_MAX_STAGES" and "length (pipeline_text ps) < PARSER_INPUT_BUFFER"
  shows "command_view (pipeline_text ps) = Some (map view_of ps)"
  using assms segments_pipeline [of ps] stage_views_text [of ps]
  by (simp add: command_view_def fit_buffer_def)

subsection \<open>What a view contains\<close>

fun item_word :: "item \<Rightarrow> string" where
  "item_word (Arg a) = a"
| "item_word (Redir k a) = a"

lemma stage_items_words:
  assumes "stage_items s = Some its" and "it \<in> set its" and "set s \<subseteq> A"
  shows "item_word it \<noteq> [] \<and> (\<forall>c\<in>set (item_word it). is_word c \<and> c \<in> A)"
  using assms
proof (induction s arbitrary: its rule: stage_items.induct)
  case (1 s)
  let ?c = "dropWhile is_space s"
  obtain r c1 where op: "operator_of ?c = (r, c1)" by (cases "operator_of ?c")
  let ?c2 = "dropWhile is_space c1"
  let ?word = "takeWhile is_word ?c2"
  have ne: "?c \<noteq> []" using 1(2,3) by (subst (asm) stage_items.simps) (auto simp del: dropWhile_eq_Nil_conv)
  have eq: "stage_items s = (if ?word = [] then None
      else map_option (Cons (case r of None \<Rightarrow> Arg ?word | Some k \<Rightarrow> Redir k ?word)) (stage_items (dropWhile is_word ?c2)))"
    using ne op by (subst stage_items.simps) (simp add: Let_def del: dropWhile_eq_Nil_conv)
  have w: "?word \<noteq> []" using eq 1(2) by auto
  have c1: "set c1 \<subseteq> A"
  proof -
    have "set c1 \<subseteq> set ?c" using op by (auto simp: operator_of_def operators_def split: if_splits dest: in_set_dropD)
    then show ?thesis using 1(4) set_dropWhileD by fastforce
  qed
  obtain its' where its': "stage_items (dropWhile is_word ?c2) = Some its'"
    "its = (case r of None \<Rightarrow> Arg ?word | Some k \<Rightarrow> Redir k ?word) # its'" using eq w 1(2) by (cases "stage_items (dropWhile is_word ?c2)") auto
  have word: "?word \<noteq> [] \<and> (\<forall>c\<in>set ?word. is_word c \<and> c \<in> A)"
    using w c1 by (auto dest: set_takeWhileD set_dropWhileD)
  have rest: "set (dropWhile is_word ?c2) \<subseteq> A" using c1 by (auto dest: set_dropWhileD)
  show ?case
  proof (cases "it \<in> set its'")
    case True
    show ?thesis
      by (rule 1(1) [of ?c "operator_of ?c" r c1 ?c2 ?word its', OF refl ne refl op [symmetric] refl refl w its'(1) True rest])
  next
    case False
    then have it: "it = (case r of None \<Rightarrow> Arg ?word | Some k \<Rightarrow> Redir k ?word)" using 1(3) its'(2) by simp
    have iw: "item_word it = ?word" unfolding it by (cases r) (simp_all only: option.case item_word.simps)
    show ?thesis unfolding iw by (rule word)
  qed
qed

end
