(* ===== verification/Executor_Correct.thy ===== *)
theory Executor_Correct
  imports Executor Command_Parser_Correct
begin

text \<open>
  The executor: every stage starts with the right files on its standard descriptors and with no pipe
  end beyond them, the parent keeps no descriptor whatever fails, and the result reports whether all
  stages ended with status 0.
\<close>

subsection \<open>Descriptor tables\<close>

lemma fd_get_set [simp]: "fd_get (fd_set T n f) m = (if m = n then f else fd_get T m)"
  by (auto simp: fd_get_def fd_set_def nth_append nth_Cons')

lemma fd_get_close [simp]: "fd_get (fd_close d T) m = (if d = int m then None else fd_get T m)"
  by (auto simp: fd_close_def)

lemma fd_lowest_free [simp]: "fd_get T (fd_lowest T) = None"
  by (induction T rule: fd_lowest.induct) (auto simp: fd_get_def)

lemma fd_lowest_least: "fd_get T m = None \<Longrightarrow> fd_lowest T \<le> m"
proof (induction T arbitrary: m rule: fd_lowest.induct)
  case (3 f T)
  show ?case
  proof (cases m)
    case 0
    with 3 show ?thesis by (simp add: fd_get_def)
  next
    case (Suc k)
    with 3(2) have "fd_get T k = None" by (auto simp: fd_get_def split: if_splits)
    with 3 Suc show ?thesis by simp
  qed
qed simp_all

definition std_open :: "fd_table \<Rightarrow> bool" where
  "std_open T \<longleftrightarrow> fd_get T 0 \<noteq> None \<and> fd_get T 1 \<noteq> None \<and> fd_get T 2 \<noteq> None"

lemma std_open_free: "std_open T \<Longrightarrow> fd_get T m = None \<Longrightarrow> 3 \<le> m"
  by (cases "m < 3") (auto simp: std_open_def less_Suc_eq numeral_3_eq_3 numeral_2_eq_2)

definition same_fds :: "fd_table \<Rightarrow> fd_table \<Rightarrow> bool" where
  "same_fds T T' \<longleftrightarrow> (\<forall>m. fd_get T m = fd_get T' m)"

lemma same_fds_refl [simp]: "same_fds T T"
  by (simp add: same_fds_def)

subsection \<open>The child\<close>

definition calls_ok :: "(nat \<Rightarrow> int) \<Rightarrow> bool" where
  "calls_ok out \<longleftrightarrow> (\<forall>t. 0 \<le> out t)"

lemma c_call_ok: "calls_ok out \<Longrightarrow> \<exists>r st'. c_call out st = (r, st') \<and> r \<noteq> - 1 \<and> c_fds st' = c_fds st"
proof -
  assume "calls_ok out"
  then have "0 \<le> out (c_tick st)" by (simp add: calls_ok_def)
  then show ?thesis by (auto simp: c_call_def Let_def)
qed

lemma c_call_fds: "c_call out st = (r, st') \<Longrightarrow> c_fds st' = c_fds st"
  by (auto simp: c_call_def Let_def)

lemma c_close_fds [simp]: "c_fds (c_close out d st) = fd_close d (c_fds st)"
  by (simp add: c_close_def c_call_def Let_def)

lemma c_close_if_open_fds [simp]: "c_fds (c_close_if_open out d st) = fd_close d (c_fds st)"
  by (simp add: c_close_if_open_def fd_close_def)

lemma c_dup2_ok:
  assumes "calls_ok out" and "fd_get (c_fds st) d \<noteq> None"
  obtains st' where "c_dup2 out (int d) new st = (int new, st')" and "c_fds st' = fd_set (c_fds st) new (fd_get (c_fds st) d)"
  using c_call_ok [OF assms(1), of st] assms(2) that by (auto simp: c_dup2_def Let_def)

lemma c_connect_ok:
  assumes "calls_ok out" and "needed \<longrightarrow> fd_get (c_fds st) d \<noteq> None"
  obtains st' where "c_connect out needed (if needed then int d else - 1) new st = Some st'"
    and "\<forall>m. fd_get (c_fds st') m = (if needed \<and> m = new then fd_get (c_fds st) d else fd_get (c_fds st) m)"
proof (cases needed)
  case True
  then obtain st' where "c_dup2 out (int d) new st = (int new, st')" "c_fds st' = fd_set (c_fds st) new (fd_get (c_fds st) d)"
    using c_dup2_ok [OF assms(1)] assms(2) by blast
  with True that [of st'] show thesis by (simp add: c_connect_def)
next
  case False
  with that [of st] show thesis by (simp add: c_connect_def)
qed

lemma c_redirect_ok:
  assumes ok: "calls_ok out" and std: "std_open (c_fds st)" and new: "new < 3"
  obtains st' where "c_redirect out fl mode new st = Some st'"
    and "\<forall>m. fd_get (c_fds st') m =
      (if m = new then (case fl of None \<Rightarrow> fd_get (c_fds st) new | Some p \<Rightarrow> Some (Opened p mode)) else fd_get (c_fds st) m)"
    and "std_open (c_fds st')"
proof (cases fl)
  case None
  with that [of st] std show thesis by (simp add: c_redirect_def)
next
  case (Some p)
  obtain r st1 where 1: "c_call out st = (r, st1)" "r \<noteq> - 1" "c_fds st1 = c_fds st" using c_call_ok [OF ok] by blast
  define a where "a = fd_lowest (c_fds st)"
  let ?st2 = "st1\<lparr>c_fds := fd_set (c_fds st) a (Some (Opened p mode))\<rparr>"
  have op: "c_open out p mode st = (int a, ?st2)" using 1 by (simp add: c_open_def a_def Let_def)
  have a: "fd_get (c_fds st) a = None" "3 \<le> a"
    using std_open_free [OF std] by (simp_all add: a_def)
  have "fd_get (c_fds ?st2) a \<noteq> None" by simp
  from c_dup2_ok [OF ok this, of new] obtain st3 where
    3: "c_dup2 out (int a) new ?st2 = (int new, st3)" "c_fds st3 = fd_set (c_fds ?st2) new (fd_get (c_fds ?st2) a)" .
  show thesis
  proof (rule that)
    show "c_redirect out fl mode new st = Some (c_close out (int a) st3)"
      using Some op 3(1) by (simp add: c_redirect_def)
    show "\<forall>m. fd_get (c_fds (c_close out (int a) st3)) m =
      (if m = new then (case fl of None \<Rightarrow> fd_get (c_fds st) new | Some p \<Rightarrow> Some (Opened p mode)) else fd_get (c_fds st) m)"
      using Some 3(2) a new by auto
    show "std_open (c_fds (c_close out (int a) st3))"
      using std 3(2) a new by (auto simp: std_open_def)
  qed
qed

text \<open>The descriptors with which stage \<open>i\<close> of \<open>n\<close> starts its program; \<open>p0\<close> is the number of the first pipe.\<close>

definition wired :: "fd_table \<Rightarrow> nat \<Rightarrow> nat \<Rightarrow> parsed_command option \<Rightarrow> nat \<Rightarrow> fd_table \<Rightarrow> bool" where
  "wired T p0 n cmd i T' \<longleftrightarrow>
     fd_get T' 0 = (case parser_get_input_file cmd (int i) of Some f \<Rightarrow> Some (Opened f Read_only)
       | None \<Rightarrow> if 0 < i then Some (Pipe_read (p0 + i - 1)) else fd_get T 0) \<and>
     fd_get T' 1 = (case parser_get_output_file cmd (int i) of Some f \<Rightarrow> Some (Opened f Write_truncate)
       | None \<Rightarrow> if Suc i < n then Some (Pipe_write (p0 + i)) else fd_get T 1) \<and>
     fd_get T' 2 = (case parser_get_error_file cmd (int i) of Some f \<Rightarrow> Some (Opened f Write_truncate) | None \<Rightarrow> fd_get T 2) \<and>
     (\<forall>m\<ge>3. fd_get T' m = fd_get T m)"

lemma child_main_ok:
  assumes ok: "calls_ok out" and std: "std_open T0" and args: "parser_get_stage_argv cmd (int i) = Some b"
    and b0: "rd b 0 \<noteq> Some None" and i: "i < n"
    and pr: "prev = (if 0 < i then int p else - 1)" "0 < i \<longrightarrow> 3 \<le> p \<and> fd_get T p = Some (Pipe_read (p0 + i - 1)) \<and> fd_get T0 p = None"
    and pf: "fst pfd = (if Suc i < n then int x else - 1)" "snd pfd = (if Suc i < n then int y else - 1)"
      "Suc i < n \<longrightarrow> 3 \<le> x \<and> 3 \<le> y \<and> fd_get T y = Some (Pipe_write (p0 + i)) \<and> fd_get T0 x = None \<and> fd_get T0 y = None"
    and T: "\<And>m. \<not> (0 < i \<and> m = p) \<Longrightarrow> \<not> (Suc i < n \<and> (m = x \<or> m = y)) \<Longrightarrow> fd_get T m = fd_get T0 m"
  obtains T' where "child_main cmd (int i) (int n) prev pfd out T = Child_exec (exec_args b) T'" and "wired T0 p0 n cmd i T'"
proof -
  let ?s0 = "\<lparr>c_fds = T, c_tick = 0\<rparr>"
  have lt: "(int i < int n - 1) = (Suc i < n)" by linarith
  have pm: "(prev \<noteq> - 1) = (0 < i)" using pr(1) by auto
  have "0 < i \<longrightarrow> fd_get (c_fds ?s0) p \<noteq> None" using pr(2) by simp
  from c_connect_ok [OF ok this, of 0] obtain st1 where 1: "c_connect out (0 < i) prev 0 ?s0 = Some st1"
    "\<forall>m. fd_get (c_fds st1) m = (if 0 < i \<and> m = 0 then fd_get (c_fds ?s0) p else fd_get (c_fds ?s0) m)" unfolding pr(1) by blast
  have "Suc i < n \<longrightarrow> fd_get (c_fds st1) y \<noteq> None" using pf(3) 1(2) by auto
  from c_connect_ok [OF ok this, of 1] obtain st2 where 2: "c_connect out (Suc i < n) (snd pfd) 1 st1 = Some st2"
    "\<forall>m. fd_get (c_fds st2) m = (if Suc i < n \<and> m = 1 then fd_get (c_fds st1) y else fd_get (c_fds st1) m)" unfolding pf(2) by blast
  let ?st5 = "c_close_if_open out (snd pfd) (c_close_if_open out (fst pfd) (c_close_if_open out prev st2))"
  have g5: "fd_get (c_fds ?st5) 0 = (if 0 < i then Some (Pipe_read (p0 + i - 1)) else fd_get T0 0)"
    "fd_get (c_fds ?st5) 1 = (if Suc i < n then Some (Pipe_write (p0 + i)) else fd_get T0 1)"
    "fd_get (c_fds ?st5) 2 = fd_get T0 2"
    "\<And>m. 3 \<le> m \<Longrightarrow> fd_get (c_fds ?st5) m = fd_get T0 m"
    using pr pf 1(2) 2(2) T by auto
  have std5: "std_open (c_fds ?st5)" using std g5(1,2,3) by (simp add: std_open_def)
  obtain st6 where 6: "c_redirect out (parser_get_input_file cmd (int i)) Read_only 0 ?st5 = Some st6"
    "\<forall>m. fd_get (c_fds st6) m = (if m = 0 then (case parser_get_input_file cmd (int i) of None \<Rightarrow> fd_get (c_fds ?st5) 0
        | Some p \<Rightarrow> Some (Opened p Read_only)) else fd_get (c_fds ?st5) m)" "std_open (c_fds st6)"
    using c_redirect_ok [OF ok std5, of 0] by auto
  obtain st7 where 7: "c_redirect out (parser_get_output_file cmd (int i)) Write_truncate 1 st6 = Some st7"
    "\<forall>m. fd_get (c_fds st7) m = (if m = 1 then (case parser_get_output_file cmd (int i) of None \<Rightarrow> fd_get (c_fds st6) 1
        | Some p \<Rightarrow> Some (Opened p Write_truncate)) else fd_get (c_fds st6) m)" "std_open (c_fds st7)"
    using c_redirect_ok [OF ok 6(3), of 1] by auto
  obtain st8 where 8: "c_redirect out (parser_get_error_file cmd (int i)) Write_truncate 2 st7 = Some st8"
    "\<forall>m. fd_get (c_fds st8) m = (if m = 2 then (case parser_get_error_file cmd (int i) of None \<Rightarrow> fd_get (c_fds st7) 2
        | Some p \<Rightarrow> Some (Opened p Write_truncate)) else fd_get (c_fds st7) m)" "std_open (c_fds st8)"
    using c_redirect_ok [OF ok 7(3), of 2] by auto
  obtain r st9 where 9: "c_call out st8 = (r, st9)" "r \<noteq> - 1" "c_fds st9 = c_fds st8" using c_call_ok [OF ok] by blast
  show thesis
  proof (rule that)
    show "child_main cmd (int i) (int n) prev pfd out T = Child_exec (exec_args b) (c_fds st9)"
      unfolding child_main_def lt pm using 1(1) 2(1) args b0 6(1) 7(1) 8(1) 9(1,2) by simp
    show "wired T0 p0 n cmd i (c_fds st9)"
      unfolding wired_def 9(3) using g5 6(2) 7(2) 8(2) by (auto split: option.splits)
  qed
qed

subsection \<open>The parent\<close>

text \<open>
  The parent never keeps a pipe end: whatever fails, its descriptors afterwards are those before. While
  the loop runs, the only extra one is the read end \<open>prev_read_fd\<close> of the last pipe.
\<close>

definition holds_prev :: "fd_table \<Rightarrow> int \<Rightarrow> fd_table \<Rightarrow> bool" where
  "holds_prev T0 prev T \<longleftrightarrow> (prev = - 1 \<or> (0 \<le> prev \<and> fd_get T0 (nat prev) = None)) \<and>
     (\<forall>m. int m \<noteq> prev \<longrightarrow> fd_get T m = fd_get T0 m)"

lemma close_if_open_fds [simp]: "fds (close_if_open d w) = (if d = - 1 then fds w else fd_close d (fds w))"
  by (simp add: close_if_open_def close_fd_def sys_call_def Let_def)

lemma close_fd_fds [simp]: "fds (close_fd d w) = fd_close d (fds w)"
  by (simp add: close_fd_def sys_call_def Let_def)

lemma holds_prev_close: "holds_prev T0 prev T \<Longrightarrow> same_fds T0 (if prev = - 1 then T else fd_close prev T)"
  by (auto simp: holds_prev_def same_fds_def)

lemma sys_wait_fds [simp]: "fds (snd (sys_wait w)) = fds w"
  by (simp add: sys_wait_def sys_call_def Let_def)

lemma wait_each_fds [simp]: "fds (wait_each k w) = fds w"
proof (induction k arbitrary: w)
  case (Suc k)
  show ?case using sys_wait_fds [of w] by (simp add: case_prod_beta Suc)
qed simp

lemma wait_loop_fds [simp]: "fds (snd (wait_loop k b w)) = fds w"
proof (induction k arbitrary: b w)
  case (Suc k)
  obtain s w1 where s: "sys_wait w = (s, w1)" by (cases "sys_wait w")
  then have "fds w1 = fds w" using sys_wait_fds [of w] by simp
  then show ?case using s Suc by (simp add: emit_def split: option.split)
qed simp

lemma emit_fds [simp]: "fds (emit e w) = fds w"
  by (simp add: emit_def)

lemma sys_fork_fds [simp]: "fds (snd (sys_fork code w)) = fds w"
  by (simp add: sys_fork_def sys_call_def Let_def)

lemma sys_pipe_cases:
  obtains w1 where "sys_pipe w = (- 1, (- 1, - 1), w1)" and "fds w1 = fds w" and "sys_out w (tick w) < 0"
  | a b w1 where "sys_pipe w = (0, (int a, int b), w1)" and "fd_get (fds w) a = None" and "fd_get (fds w) b = None" and "a \<noteq> b"
    and "fds w1 = fd_set (fd_set (fds w) a (Some (Pipe_read (next_pipe w)))) b (Some (Pipe_write (next_pipe w)))"
    and "w1 = w\<lparr>tick := Suc (tick w), fds := fds w1, next_pipe := Suc (next_pipe w)\<rparr>"
proof (cases "sys_out w (tick w) < 0")
  case True
  then show thesis by (intro that(1) [of "w\<lparr>tick := Suc (tick w)\<rparr>"]) (simp_all add: sys_pipe_def sys_call_def)
next
  case False
  define a where "a = fd_lowest (fds w)"
  define T1 where "T1 = fd_set (fds w) a (Some (Pipe_read (next_pipe w)))"
  define b where "b = fd_lowest T1"
  have b1: "fd_get T1 b = None" by (simp add: b_def)
  then have ba: "b \<noteq> a" by (auto simp: T1_def)
  with b1 have b2: "fd_get (fds w) b = None" by (simp add: T1_def)
  have a: "fd_get (fds w) a = None" by (simp add: a_def)
  show thesis
    by (rule that(2) [of a b "w\<lparr>tick := Suc (tick w), fds := fd_set T1 b (Some (Pipe_write (next_pipe w))), next_pipe := Suc (next_pipe w)\<rparr>"])
      (use False a ba b2 in \<open>simp_all add: sys_pipe_def sys_call_def Let_def a_def [symmetric] T1_def [symmetric] b_def [symmetric]\<close>)
qed

lemma ex_bool [simp]: "\<exists>b. b" "\<exists>b. \<not> b"
  by auto

text \<open>The parent's table with both ends of a new pipe: what closing leaves when the child cannot be started, and when it runs.\<close>

lemma pipe_pair_fds:
  assumes hp: "holds_prev T0 prev T" and free: "fd_get T a = None" "fd_get T b = None" and ab: "a \<noteq> b"
    and T1: "T1 = fd_set (fd_set T a (Some (Pipe_read p))) b (Some (Pipe_write p))"
  shows "same_fds T0 (if prev = - 1 then fd_close (int b) (fd_close (int a) T1)
      else fd_close prev (fd_close (int b) (fd_close (int a) T1)))"
    and "holds_prev T0 (int a) (fd_close (int b) (if prev = - 1 then T1 else fd_close prev T1))"
proof -
  have "fd_get T0 m = None" if "fd_get T m = None" for m
    using hp that by (cases "int m = prev") (auto simp: holds_prev_def)
  then have a0: "fd_get T0 a = None" and b0: "fd_get T0 b = None" using free by simp_all
  show "same_fds T0 (if prev = - 1 then fd_close (int b) (fd_close (int a) T1)
      else fd_close prev (fd_close (int b) (fd_close (int a) T1)))"
    using hp T1 a0 b0 by (auto simp: holds_prev_def same_fds_def)
  show "holds_prev T0 (int a) (fd_close (int b) (if prev = - 1 then T1 else fd_close prev T1))"
    using hp T1 a0 b0 ab by (auto simp: holds_prev_def)
qed

text \<open>One turn of the loop that starts the stages.\<close>

lemma spawn_turn_fds:
  assumes hp: "holds_prev T0 prev (fds w)"
  obtains (failed) w' where "spawn_stages (Suc k) i cmd num prev c w = (False, c, w')" and "same_fds T0 (fds w')"
  | (started) prev1 w' where "spawn_stages (Suc k) i cmd num prev c w = spawn_stages k (i + 1) cmd num prev1 (Suc c) w'"
      and "holds_prev T0 prev1 (fds w')" and "i < num - 1 \<or> prev1 = - 1"
proof (cases "i < num - 1")
  case False
  let ?code = "\<lambda>T out. child_main cmd i num prev (- 1, - 1) out T"
  obtain pid w2 where f: "sys_fork ?code w = (pid, w2)" by (cases "sys_fork ?code w")
  then have T2: "fds w2 = fds w" using sys_fork_fds [of ?code w] by simp
  have cl: "same_fds T0 (fds (close_if_open prev w2))" using holds_prev_close [OF hp] T2 by (cases "prev = - 1") simp_all
  show thesis
  proof (cases "pid < 0")
    case True
    have "same_fds T0 (fds (wait_each c (close_if_open prev (close_if_open (- 1) (close_if_open (- 1) (emit (Err ''fork'') w2))))))"
      using cl by (cases "prev = - 1") (simp_all add: close_if_open_def)
    with failed False f True show thesis by simp
  next
    case pos: False
    have "holds_prev T0 (- 1) (fds (close_if_open prev w2))" using cl by (simp add: holds_prev_def same_fds_def)
    with started [of "- 1" "close_if_open prev w2"] False f pos show thesis by simp
  qed
next
  case more: True
  show thesis
  proof (cases rule: sys_pipe_cases [of w])
    case (1 w1)
    have "same_fds T0 (fds (wait_each c (close_if_open prev (emit (Err ''pipe'') w1))))"
      using 1(2) holds_prev_close [OF hp] by (cases "prev = - 1") simp_all
    with failed more 1(1) show thesis by simp
  next
    case (2 a b w1)
    let ?code = "\<lambda>T out. child_main cmd i num prev (int a, int b) out T"
    obtain pid w2 where f: "sys_fork ?code w1 = (pid, w2)" by (cases "sys_fork ?code w1")
    then have T2: "fds w2 = fds w1" using sys_fork_fds [of ?code w1] by simp
    note pair = pipe_pair_fds [OF hp 2(2,3,4,5)]
    show thesis
    proof (cases "pid < 0")
      case True
      have "same_fds T0 (fds (wait_each c (close_if_open prev (close_if_open (int b) (close_if_open (int a) (emit (Err ''fork'') w2))))))"
        using pair(1) T2 by (cases "prev = - 1") simp_all
      with failed more 2(1) f True show thesis by simp
    next
      case False
      have "holds_prev T0 (int a) (fds (close_fd (int b) (close_if_open prev w2)))"
        using pair(2) T2 by (cases "prev = - 1") simp_all
      with started [of "int a" "close_fd (int b) (close_if_open prev w2)"] more 2(1) f False show thesis by simp
    qed
  qed
qed

lemma spawn_stages_fds:
  assumes "holds_prev T0 prev (fds w)" and "int k = num - i"
  obtains ok cc w' where "spawn_stages k i cmd num prev c w = (ok, cc, w')"
    and "if ok \<and> k = 0 then holds_prev T0 prev (fds w') else same_fds T0 (fds w')"
proof -
  have "\<exists>ok cc w'. spawn_stages k i cmd num prev c w = (ok, cc, w') \<and>
      (if ok \<and> k = 0 then holds_prev T0 prev (fds w') else same_fds T0 (fds w'))"
    using assms
  proof (induction k arbitrary: i prev c w)
    case 0
    then show ?case by (auto intro: exI [of _ True])
  next
    case (Suc k)
    show ?case
    proof (cases rule: spawn_turn_fds [OF Suc.prems(1), of k i cmd num c])
      case (1 w')
      then show ?thesis by auto
    next
      case (2 prev1 w1)
      have n: "int k = num - (i + 1)" using Suc.prems(2) by simp
      from Suc.IH [OF 2(2) n, of "Suc c"] obtain ok cc w' where
        r: "spawn_stages k (i + 1) cmd num prev1 (Suc c) w1 = (ok, cc, w')"
           "if ok \<and> k = 0 then holds_prev T0 prev1 (fds w') else same_fds T0 (fds w')" by blast
      have "same_fds T0 (fds w')"
        using r(2) 2(3) n holds_prev_close [of T0 prev1 "fds w'"] by (auto split: if_splits)
      with 2(1) r(1) show ?thesis by auto
    qed
  qed
  with that show thesis by blast
qed

lemma execute_pipeline_fds: "same_fds (fds w) (fds (snd (execute_pipeline cmd w)))"
proof (cases "cmd = None \<or> parser_get_stage_count cmd \<le> 0")
  case True
  then show ?thesis by (auto simp: execute_pipeline_def)
next
  case False
  let ?n = "parser_get_stage_count cmd"
  have h: "holds_prev (fds w) (- 1) (fds w)" by (simp add: holds_prev_def)
  have "int (nat ?n) = ?n - 0" using False by simp
  from spawn_stages_fds [OF h this, of cmd 0] obtain ok cc w1 where
    1: "spawn_stages (nat ?n) 0 cmd ?n (- 1) 0 w = (ok, cc, w1)"
       "if ok \<and> nat ?n = 0 then holds_prev (fds w) (- 1) (fds w1) else same_fds (fds w) (fds w1)" .
  have "same_fds (fds w) (fds w1)" using 1(2) False by simp
  then show ?thesis using False 1(1) by (simp add: execute_pipeline_def)
qed

subsection \<open>The pipeline when no call fails\<close>

definition all_calls_ok :: "runner_world \<Rightarrow> bool" where
  "all_calls_ok w \<longleftrightarrow> (\<forall>t. 0 \<le> sys_out w t) \<and> (\<forall>c. calls_ok (child_out w c))"

definition same_oracles :: "runner_world \<Rightarrow> runner_world \<Rightarrow> bool" where
  "same_oracles w w' \<longleftrightarrow> sys_out w' = sys_out w \<and> child_out w' = child_out w \<and>
     program_status w' = program_status w \<and> wait_pick w' = wait_pick w"

lemma same_oracles_refl [simp]: "same_oracles w w"
  by (simp add: same_oracles_def)

lemma same_oracles_trans: "same_oracles w w1 \<Longrightarrow> same_oracles w1 w2 \<Longrightarrow> same_oracles w w2"
  by (simp add: same_oracles_def)

lemma same_oracles_ok: "same_oracles w w' \<Longrightarrow> all_calls_ok w' = all_calls_ok w"
  by (simp add: same_oracles_def all_calls_ok_def)

definition stage_end :: "fd_table \<Rightarrow> nat \<Rightarrow> nat \<Rightarrow> parsed_command option \<Rightarrow> nat \<Rightarrow> child_end \<Rightarrow> bool" where
  "stage_end T p0 n cmd i e \<longleftrightarrow> (\<exists>b. parser_get_stage_argv cmd (int i) = Some b \<and>
     (if rd b 0 = Some None then e = Child_exit 1
      else \<exists>T'. e = Child_exec (exec_args b) T' \<and> wired T p0 n cmd i T'))"

lemma child_main_empty:
  assumes "parser_get_stage_argv cmd i = Some b" and "rd b 0 = Some None"
  shows "child_main cmd i n prev pfd out T = Child_exit 1"
  using assms by (auto simp: child_main_def Let_def split: Option.bind_splits option.splits)

definition loop_inv :: "fd_table \<Rightarrow> nat \<Rightarrow> nat \<Rightarrow> int \<Rightarrow> runner_world \<Rightarrow> bool" where
  "loop_inv T0 p0 i prev w \<longleftrightarrow> std_open T0 \<and> all_calls_ok w \<and> next_pipe w = p0 + i \<and>
     (\<exists>p. prev = (if 0 < i then int p else - 1) \<and>
       (0 < i \<longrightarrow> 3 \<le> p \<and> fd_get (fds w) p = Some (Pipe_read (p0 + i - 1)) \<and> fd_get T0 p = None) \<and>
       (\<forall>m. \<not> (0 < i \<and> m = p) \<longrightarrow> fd_get (fds w) m = fd_get T0 m))"

lemma sys_fork_ok:
  assumes "all_calls_ok w"
  obtains pid where "sys_fork code w = (pid, w\<lparr>tick := Suc (tick w),
      children := children w @ [code (fds w) (child_out w (length (children w)))],
      unreaped := unreaped w @ [length (children w)]\<rparr>)" and "\<not> pid < 0"
proof -
  have "0 \<le> sys_out w (tick w)" using assms by (simp add: all_calls_ok_def)
  with that show thesis by (simp add: sys_fork_def sys_call_def Let_def)
qed

lemma close_if_open_eq:
  "close_if_open d w = (if d = - 1 then w else w\<lparr>tick := Suc (tick w), fds := fd_close d (fds w)\<rparr>)"
  by (simp add: close_if_open_def close_fd_def sys_call_def Let_def)

lemma close_fd_eq: "close_fd d w = w\<lparr>tick := Suc (tick w), fds := fd_close d (fds w)\<rparr>"
  by (simp add: close_fd_def sys_call_def Let_def)

text \<open>One turn of the loop.\<close>

text \<open>A child forked with the right descriptors ends as its stage asks.\<close>

lemma stage_end_ok:
  assumes std: "std_open T0" and ok: "calls_ok (child_out w c)" and i: "i < n"
    and argv: "parser_get_stage_argv cmd (int i) = Some b" and pr: "prev = (if 0 < i then int p else - 1)"
    and pT: "0 < i \<longrightarrow> 3 \<le> p \<and> fd_get T' p = Some (Pipe_read (p0 + i - 1)) \<and> fd_get T0 p = None"
    and pf: "fst pfd = (if Suc i < n then int x else - 1)" "snd pfd = (if Suc i < n then int y else - 1)"
      "Suc i < n \<longrightarrow> 3 \<le> x \<and> 3 \<le> y \<and> fd_get T' y = Some (Pipe_write (p0 + i)) \<and> fd_get T0 x = None \<and> fd_get T0 y = None"
    and T': "\<And>m. \<not> (0 < i \<and> m = p) \<Longrightarrow> \<not> (Suc i < n \<and> (m = x \<or> m = y)) \<Longrightarrow> fd_get T' m = fd_get T0 m"
  shows "stage_end T0 p0 n cmd i (child_main cmd (int i) (int n) prev pfd (child_out w c) T')"
proof (cases "rd b 0 = Some None")
  case True
  with argv child_main_empty [OF argv True] show ?thesis by (simp add: stage_end_def)
next
  case False
  obtain T2 where "child_main cmd (int i) (int n) prev pfd (child_out w c) T' = Child_exec (exec_args b) T2"
    "wired T0 p0 n cmd i T2"
    by (rule child_main_ok [OF ok std argv False i pr pT pf T'])
  with argv False show ?thesis by (simp add: stage_end_def)
qed

text \<open>One round of the loop of the parent: a child more, and the invariant for the next round.\<close>

definition spawned :: "fd_table \<Rightarrow> nat \<Rightarrow> nat \<Rightarrow> parsed_command option \<Rightarrow> nat \<Rightarrow> int \<Rightarrow> runner_world \<Rightarrow> child_end \<Rightarrow> int \<Rightarrow> runner_world \<Rightarrow> bool" where
  "spawned T0 p0 n cmd i prev w e prev' w' \<longleftrightarrow>
     (\<forall>k c. spawn_stages (Suc k) (int i) cmd (int n) prev c w = spawn_stages k (int (Suc i)) cmd (int n) prev' (Suc c) w') \<and>
     stage_end T0 p0 n cmd i e \<and> children w' = children w @ [e] \<and> unreaped w' = unreaped w @ [length (children w)] \<and>
     same_oracles w w' \<and> (Suc i < n \<longrightarrow> loop_inv T0 p0 (Suc i) prev' w')"

lemma loop_invE:
  assumes "loop_inv T0 p0 i prev w"
  obtains p where "std_open T0" and "all_calls_ok w" and "next_pipe w = p0 + i"
    and "prev = (if 0 < i then int p else - 1)"
    and "0 < i \<longrightarrow> 3 \<le> p \<and> fd_get (fds w) p = Some (Pipe_read (p0 + i - 1)) \<and> fd_get T0 p = None"
    and "\<forall>m. \<not> (0 < i \<and> m = p) \<longrightarrow> fd_get (fds w) m = fd_get T0 m"
  using assms unfolding loop_inv_def by blast

lemma spawn_last:
  assumes inv: "loop_inv T0 p0 i prev w" and i: "Suc i = n" and argv: "parser_get_stage_argv cmd (int i) = Some b"
  shows "\<exists>e prev' w'. spawned T0 p0 n cmd i prev w e prev' w'"
proof -
  obtain p where std: "std_open T0" and ok: "all_calls_ok w" and np: "next_pipe w = p0 + i"
    and pr: "prev = (if 0 < i then int p else - 1)"
      "0 < i \<longrightarrow> 3 \<le> p \<and> fd_get (fds w) p = Some (Pipe_read (p0 + i - 1)) \<and> fd_get T0 p = None"
    and T: "\<forall>m. \<not> (0 < i \<and> m = p) \<longrightarrow> fd_get (fds w) m = fd_get T0 m" by (rule loop_invE [OF inv])
  have cok: "calls_ok (child_out w c)" for c using ok by (simp add: all_calls_ok_def)
  let ?code = "\<lambda>T out. child_main cmd (int i) (int n) prev (- 1, - 1) out T"
  let ?e = "?code (fds w) (child_out w (length (children w)))"
  let ?w2 = "w\<lparr>tick := Suc (tick w), children := children w @ [?e], unreaped := unreaped w @ [length (children w)]\<rparr>"
  from sys_fork_ok [OF ok, of ?code] obtain pid where f: "sys_fork ?code w = (pid, ?w2)" "\<not> pid < 0" by blast
  have "spawn_stages (Suc k) (int i) cmd (int n) prev c w =
      spawn_stages k (int (Suc i)) cmd (int n) (- 1) (Suc c) (close_if_open prev ?w2)" for k c
    using i f by (auto simp: add.commute)
  moreover have "stage_end T0 p0 n cmd i ?e"
    by (rule stage_end_ok [OF std cok _ argv pr, where x = 0 and y = 0]) (use i T in auto)
  ultimately show ?thesis using i unfolding spawned_def
    by (intro exI [of _ ?e] exI [of _ "- 1"] exI [of _ "close_if_open prev ?w2"]) (simp add: close_if_open_eq same_oracles_def)
qed

lemma spawn_more:
  assumes inv: "loop_inv T0 p0 i prev w" and i: "Suc i < n" and argv: "parser_get_stage_argv cmd (int i) = Some b"
  shows "\<exists>e prev' w'. spawned T0 p0 n cmd i prev w e prev' w'"
proof -
  obtain p where std: "std_open T0" and ok: "all_calls_ok w" and np: "next_pipe w = p0 + i"
    and pr: "prev = (if 0 < i then int p else - 1)"
      "0 < i \<longrightarrow> 3 \<le> p \<and> fd_get (fds w) p = Some (Pipe_read (p0 + i - 1)) \<and> fd_get T0 p = None"
    and T: "\<forall>m. \<not> (0 < i \<and> m = p) \<longrightarrow> fd_get (fds w) m = fd_get T0 m" by (rule loop_invE [OF inv])
  have lt: "int i < int n - 1" and cok: "calls_ok (child_out w c)" for c using i ok by (simp_all add: all_calls_ok_def)
  have "0 \<le> sys_out w (tick w)" using ok by (simp add: all_calls_ok_def)
  then show ?thesis
  proof (cases rule: sys_pipe_cases [of w])
    case (2 x y w1)
    have T1: "fd_get (fds w1) m = (if m = y then Some (Pipe_write (p0 + i)) else if m = x then Some (Pipe_read (p0 + i)) else fd_get (fds w) m)" for m
      using 2(5) np by simp
    have free: "fd_get T0 m = None" if "fd_get (fds w) m = None" for m
      using T that pr(2) by (cases "0 < i \<and> m = p") auto
    have x: "fd_get T0 x = None" "3 \<le> x" and y: "fd_get T0 y = None" "3 \<le> y"
      using free [OF 2(2)] free [OF 2(3)] std_open_free [OF std] by simp_all
    have px: "0 < i \<longrightarrow> p \<noteq> x \<and> p \<noteq> y" using pr(2) 2(2,3) by auto
    have ok1: "all_calls_ok w1" by (subst 2(6)) (use ok in \<open>simp add: all_calls_ok_def\<close>)
    have w1: "children w1 = children w" "unreaped w1 = unreaped w" "same_oracles w w1" "next_pipe w1 = Suc (next_pipe w)"
      by (subst 2(6), simp add: same_oracles_def)+
    let ?code = "\<lambda>T out. child_main cmd (int i) (int n) prev (int x, int y) out T"
    let ?e = "?code (fds w1) (child_out w (length (children w1)))"
    let ?w2 = "w1\<lparr>tick := Suc (tick w1), children := children w1 @ [?e], unreaped := unreaped w1 @ [length (children w1)]\<rparr>"
    have co: "child_out w1 = child_out w" using w1(3) by (simp add: same_oracles_def)
    from sys_fork_ok [OF ok1, of ?code] obtain pid where f: "sys_fork ?code w1 = (pid, ?w2)" "\<not> pid < 0" unfolding co by blast
    let ?w4 = "close_fd (int y) (close_if_open prev ?w2)"
    have "spawn_stages (Suc k) (int i) cmd (int n) prev c w = spawn_stages k (int (Suc i)) cmd (int n) (int x) (Suc c) ?w4" for k c
      using lt 2(1) f by (simp add: add.commute)
    moreover have "stage_end T0 p0 n cmd i ?e"
      by (rule stage_end_ok [OF std cok _ argv pr(1), where x = x and y = y]) (use i x y T1 T px pr(2) in auto)
    moreover have "loop_inv T0 p0 (Suc i) (int x) ?w4"
      unfolding loop_inv_def
    proof (intro conjI exI [of _ x])
      show "all_calls_ok ?w4" using ok1 by (simp add: all_calls_ok_def close_fd_eq close_if_open_eq)
      show "next_pipe ?w4 = p0 + Suc i" using w1(4) np by (simp add: close_fd_eq close_if_open_eq)
      have "fd_get (fds ?w4) x = Some (Pipe_read (p0 + Suc i - 1))"
        using T1 2(4) px pr(1) by (auto simp: close_fd_eq close_if_open_eq)
      then show "0 < Suc i \<longrightarrow> 3 \<le> x \<and> fd_get (fds ?w4) x = Some (Pipe_read (p0 + Suc i - 1)) \<and> fd_get T0 x = None" using x by simp
      show "\<forall>m. \<not> (0 < Suc i \<and> m = x) \<longrightarrow> fd_get (fds ?w4) m = fd_get T0 m"
        using T1 y(1) pr T by (auto simp: close_fd_eq close_if_open_eq)
    qed (use std in simp_all)
    ultimately show ?thesis unfolding spawned_def using w1
      by (intro exI [of _ ?e] exI [of _ "int x"] exI [of _ ?w4]) (simp add: close_fd_eq close_if_open_eq same_oracles_def)
  qed simp
qed

lemma spawn_step:
  assumes inv: "loop_inv T0 p0 i prev w" and i: "i < n" and argv: "parser_get_stage_argv cmd (int i) = Some b"
  obtains e prev' w' where "\<And>k c. spawn_stages (Suc k) (int i) cmd (int n) prev c w =
      spawn_stages k (int (Suc i)) cmd (int n) prev' (Suc c) w'"
    and "stage_end T0 p0 n cmd i e" and "children w' = children w @ [e]"
    and "unreaped w' = unreaped w @ [length (children w)]" and "same_oracles w w'"
    and "Suc i < n \<longrightarrow> loop_inv T0 p0 (Suc i) prev' w'"
proof -
  have "\<exists>e prev' w'. spawned T0 p0 n cmd i prev w e prev' w'"
    using spawn_last [OF inv _ argv] spawn_more [OF inv _ argv] i by (cases "Suc i = n") auto
  then show thesis using that unfolding spawned_def by blast
qed

lemma spawn_stages_ok:
  assumes "loop_inv T0 p0 i prev w" and "i + k = n" and "\<forall>j. i \<le> j \<and> j < n \<longrightarrow> parser_get_stage_argv cmd (int j) \<noteq> None"
  shows "\<exists>w' cs. spawn_stages k (int i) cmd (int n) prev c w = (True, c + k, w') \<and> children w' = children w @ cs \<and>
    length cs = k \<and> (\<forall>j<k. stage_end T0 p0 n cmd (i + j) (cs ! j)) \<and>
    unreaped w' = unreaped w @ [length (children w)..<length (children w) + k] \<and> same_oracles w w'"
  using assms
proof (induction k arbitrary: i prev c w)
  case 0
  then show ?case by (auto intro!: exI [of _ w] exI [of _ "[]"])
next
  case (Suc k)
  have i: "i < n" using Suc.prems(2) by simp
  obtain b where b: "parser_get_stage_argv cmd (int i) = Some b" using Suc.prems(3) i by fastforce
  obtain e prev' w1 where 1: "\<And>k c. spawn_stages (Suc k) (int i) cmd (int n) prev c w =
      spawn_stages k (int (Suc i)) cmd (int n) prev' (Suc c) w1" "stage_end T0 p0 n cmd i e"
      "children w1 = children w @ [e]" "unreaped w1 = unreaped w @ [length (children w)]" "same_oracles w w1"
      "Suc i < n \<longrightarrow> loop_inv T0 p0 (Suc i) prev' w1"
    using spawn_step [OF Suc.prems(1) i b] by metis
  show ?case
  proof (cases "k = 0")
    case True
    then show ?thesis using 1 by (intro exI [of _ w1] exI [of _ "[e]"]) simp
  next
    case False
    then have "loop_inv T0 p0 (Suc i) prev' w1" using 1(6) Suc.prems(2) by simp
    from Suc.IH [OF this, of "Suc c"] Suc.prems(2,3) obtain w' cs where
      2: "spawn_stages k (int (Suc i)) cmd (int n) prev' (Suc c) w1 = (True, Suc c + k, w')" "children w' = children w1 @ cs"
        "length cs = k" "\<forall>j<k. stage_end T0 p0 n cmd (Suc i + j) (cs ! j)"
        "unreaped w' = unreaped w1 @ [length (children w1)..<length (children w1) + k]" "same_oracles w1 w'" by auto
    have "\<forall>j<Suc k. stage_end T0 p0 n cmd (i + j) ((e # cs) ! j)"
      using 1(2) 2(4) by (auto simp: less_Suc_eq_0_disj)
    moreover have "[length (children w)..<length (children w) + Suc k] =
        length (children w) # [Suc (length (children w))..<Suc (length (children w)) + k]"
      by (simp add: upt_conv_Cons)
    ultimately show ?thesis
      by (intro exI [of _ w'] exI [of _ "e # cs"])
        (use 1(1,3,4,5) 2 same_oracles_trans in \<open>auto simp del: upt_Suc spawn_stages.simps\<close>)
  qed
qed

text \<open>\<open>wait\<close> takes the children in any order; the result depends on all of them.\<close>

lemma wait_loop_ok:
  assumes "\<And>t. 0 \<le> sys_out w t" and "length (unreaped w) = k"
  shows "\<exists>w'. wait_loop k failed w = (if failed \<or> (\<exists>c\<in>set (unreaped w). status_of c w \<noteq> Exited 0) then - 1 else 0, w') \<and>
    unreaped w' = [] \<and> children w' = children w"
  using assms
proof (induction k arbitrary: failed w)
  case 0
  then show ?case by simp
next
  case (Suc k)
  let ?w1 = "w\<lparr>tick := Suc (tick w)\<rparr>"
  define j where "j = wait_pick w (Suc (tick w)) mod length (unreaped w)"
  have j: "j < length (unreaped w)" using Suc.prems(2) by (simp add: j_def)
  let ?c = "unreaped w ! j" and ?rest = "take j (unreaped w) @ drop (Suc j) (unreaped w)"
  let ?w2 = "?w1\<lparr>unreaped := ?rest\<rparr>"
  have st: "status_of c ?w2 = status_of c w" "status_of c ?w1 = status_of c w" for c
    by (simp_all add: status_of_def split: child_end.split)
  have ne: "unreaped w \<noteq> []" using Suc.prems(2) by auto
  have w: "sys_wait w = (Some (status_of ?c w), ?w2)"
    using Suc.prems(1) [of "tick w"] ne by (simp add: sys_wait_def sys_call_def Let_def st j_def)
  have split: "unreaped w = take j (unreaped w) @ ?c # drop (Suc j) (unreaped w)" using j by (rule id_take_nth_drop)
  have set: "set (unreaped w) = insert ?c (set ?rest)" by (subst split) simp
  have len: "length (unreaped ?w2) = k" using j Suc.prems(2) by simp
  have "0 \<le> sys_out ?w2 t" for t using Suc.prems(1) by simp
  from Suc.IH [OF this len, of "failed \<or> status_of ?c w \<noteq> Exited 0"] obtain w' where
    1: "wait_loop k (failed \<or> status_of ?c w \<noteq> Exited 0) ?w2 =
      (if (failed \<or> status_of ?c w \<noteq> Exited 0) \<or> (\<exists>c\<in>set (unreaped ?w2). status_of c ?w2 \<noteq> Exited 0) then - 1 else 0, w')"
      "unreaped w' = []" "children w' = children ?w2" by blast
  have "wait_loop (Suc k) failed w = wait_loop k (failed \<or> status_of ?c w \<noteq> Exited 0) ?w2" using w by simp
  also note 1(1)
  finally have "wait_loop (Suc k) failed w =
      (if failed \<or> (\<exists>c\<in>set (unreaped w). status_of c w \<noteq> Exited 0) then - 1 else 0, w')"
    unfolding set st by auto
  then show ?case using 1(2,3) by auto
qed

end
