(* ===== verification/Executor_Effects.thy ===== *)
theory Executor_Effects
  imports Executor_Correct Effects
begin

text \<open>
  What the parser and the executor add to the record of effects (nothing that is sent), the result of a
  whole pipeline when no call fails, and what its children run in terms of the text of the command.
\<close>

definition trace :: "runner_world \<Rightarrow> event list \<Rightarrow> runner_world \<Rightarrow> bool" where
  "trace w es w' \<longleftrightarrow> same_oracles w w' \<and> malloc_ok w' = malloc_ok w \<and> self_pid w' = self_pid w \<and>
     open_fds w' = open_fds w \<and> events w' = events w @ es"

lemma trace_refl [simp]: "trace w [] w"
  by (simp add: trace_def)

lemma trace_trans: "trace w es w1 \<Longrightarrow> trace w1 es' w2 \<Longrightarrow> trace w (es @ es') w2"
  by (auto simp: trace_def same_oracles_def)

lemma trace_emit: "trace w es w' \<Longrightarrow> trace w (es @ [e]) (emit e w')"
  by (simp add: trace_def emit_def same_oracles_def)

lemma outputs_trace: "outputs w es w' \<Longrightarrow> trace w es w'"
  by (auto simp: outputs_def trace_def same_oracles_def)

lemma allocates_trace: "allocates w w' \<Longrightarrow> trace w [] w'"
  by (auto simp: allocates_def trace_def same_oracles_def)

text \<open>An operation that sends nothing and leaves the memory alone.\<close>

definition quiet :: "runner_world \<Rightarrow> runner_world \<Rightarrow> bool" where
  "quiet w w' \<longleftrightarrow> blocks w' = blocks w \<and> (\<exists>es. trace w es w' \<and> silent es)"

lemma blocks_emit [simp]: "blocks (emit e w) = blocks w"
  by (simp add: emit_def)

lemma quiet_refl [simp]: "quiet w w"
  by (auto simp: quiet_def intro!: exI [of _ "[]"])

lemma quiet_trans: "quiet w w1 \<Longrightarrow> quiet w1 w2 \<Longrightarrow> quiet w w2"
  unfolding quiet_def by (metis silent_simps(2) trace_trans)

lemma quiet_emit: "quiet w w' \<Longrightarrow> quiet w (emit (Err s) w')"
  unfolding quiet_def using trace_emit [of w _ w' "Err s"] by (metis blocks_emit silent_simps(2,4))

lemma quietI:
  assumes "sys_out w' = sys_out w" "child_out w' = child_out w" "program_status w' = program_status w" "wait_pick w' = wait_pick w"
    "malloc_ok w' = malloc_ok w" "self_pid w' = self_pid w" "open_fds w' = open_fds w" "events w' = events w" "blocks w' = blocks w"
  shows "quiet w w'"
  using assms by (auto simp: quiet_def trace_def same_oracles_def intro!: exI [of _ "[]"])

lemma quiet_close_fd [simp]: "quiet w (close_fd d w)" "quiet w (close_if_open d w)"
  by (rule quietI; simp add: close_if_open_def close_fd_def sys_call_def Let_def)+

lemma quiet_sys_wait: "quiet w (snd (sys_wait w))"
  by (rule quietI; simp add: sys_wait_def sys_call_def Let_def)

lemma quiet_sys_pipe: "quiet w (snd (snd (sys_pipe w)))"
  by (rule quietI; simp add: sys_pipe_def sys_call_def Let_def)

lemma quiet_sys_fork: "quiet w (snd (sys_fork code w))"
  by (rule quietI; simp add: sys_fork_def sys_call_def Let_def)

lemma quiet_wait_each: "quiet w (wait_each k w)"
proof (induction k arbitrary: w)
  case (Suc k)
  show ?case using quiet_trans [OF quiet_sys_wait Suc] by (simp add: case_prod_beta)
qed simp

lemma quiet_wait_loop: "quiet w (snd (wait_loop k b w))"
proof (induction k arbitrary: b w)
  case (Suc k)
  obtain s w1 where s: "sys_wait w = (s, w1)" by (cases "sys_wait w")
  then have q: "quiet w w1" using quiet_sys_wait [of w] by simp
  show ?case using s q quiet_emit [OF q] quiet_trans [OF q Suc] by (simp split: option.split)
qed simp

lemma quiet_spawn_stages: "spawn_stages k i cmd num prev c w = (ok, cc, w') \<Longrightarrow> quiet w w'"
proof (induction k arbitrary: i prev c w)
  case (Suc k)
  obtain p pfd w1 where 1: "(if i < num - 1 then sys_pipe w else (0, (- 1, - 1), w)) = (p, pfd, w1)"
    by (metis prod_cases3)
  then have q1: "quiet w w1" using quiet_sys_pipe [of w] by (auto split: if_splits)
  let ?code = "\<lambda>T out. child_main cmd i num prev pfd out T"
  obtain pid w2 where 2: "sys_fork ?code w1 = (pid, w2)" by (cases "sys_fork ?code w1")
  have q2: "quiet w w2" using quiet_trans [OF q1] quiet_sys_fork [of w1 ?code] 2 by simp
  have fail: "quiet w (wait_each j (close_if_open a (close_if_open b (close_if_open d (emit (Err s) v)))))" if "quiet w v" for j a b d s v
    by (intro quiet_trans [OF _ quiet_wait_each] quiet_trans [OF _ quiet_close_fd(2)] quiet_emit that)
  have fail1: "quiet w (wait_each j (close_if_open a (emit (Err s) v)))" if "quiet w v" for j a s v
    by (intro quiet_trans [OF _ quiet_wait_each] quiet_trans [OF _ quiet_close_fd(2)] quiet_emit that)
  have q3: "quiet w (close_if_open prev w2)" by (rule quiet_trans [OF q2 quiet_close_fd(2)])
  have q4: "quiet w (close_fd d (close_if_open prev w2))" for d by (rule quiet_trans [OF q3 quiet_close_fd(1)])
  show ?case
    using Suc.prems 1 2 fail [OF q2] fail1 [OF q1] quiet_trans [OF q3 Suc.IH] quiet_trans [OF q4 Suc.IH]
    by (auto simp: Let_def split: if_splits)
qed simp

lemma execute_pipeline_quiet: "quiet w (snd (execute_pipeline cmd w))"
proof -
  let ?n = "parser_get_stage_count cmd"
  obtain ok cc w1 where 1: "spawn_stages (nat ?n) 0 cmd ?n (- 1) 0 w = (ok, cc, w1)"
    by (cases "spawn_stages (nat ?n) 0 cmd ?n (- 1) 0 w")
  then show ?thesis
    using quiet_spawn_stages [OF 1] quiet_trans [OF quiet_spawn_stages [OF 1] quiet_wait_loop]
    by (simp add: execute_pipeline_def Let_def)
qed

text \<open>The result of the pipeline when no call fails.\<close>

lemma execute_pipeline_ok:
  assumes ok: "all_calls_ok w" and std: "std_open (fds w)" and n: "parser_get_stage_count cmd = int n" "0 < n"
    and un: "unreaped w = []"
  obtains r cs w' where "execute_pipeline cmd w = (r, w')" and "children w' = children w @ cs" and "length cs = n"
    and "\<forall>j<n. stage_end (fds w) (next_pipe w) n cmd j (cs ! j)" and "unreaped w' = []"
    and "r = (if \<forall>j<n. status_of (length (children w) + j) w' = Exited 0 then 0 else - 1)"
proof -
  have argv: "\<forall>j. 0 \<le> j \<and> j < n \<longrightarrow> parser_get_stage_argv cmd (int j) \<noteq> None"
    using n by (auto simp: parser_get_stage_argv_def valid_stage_def parser_get_stage_count_def split: option.splits)
  have inv: "loop_inv (fds w) (next_pipe w) 0 (- 1) w" using ok std by (simp add: loop_inv_def)
  from spawn_stages_ok [OF inv _ argv, of n 0] obtain w1 cs where
    1: "spawn_stages n 0 cmd (int n) (- 1) 0 w = (True, n, w1)" "children w1 = children w @ cs" "length cs = n"
      "\<forall>j<n. stage_end (fds w) (next_pipe w) n cmd j (cs ! j)"
      "unreaped w1 = [length (children w)..<length (children w) + n]" "same_oracles w w1"
    using un by auto
  have so: "0 \<le> sys_out w1 t" for t using ok 1(6) by (simp add: all_calls_ok_def same_oracles_def)
  have "length (unreaped w1) = n" using 1(5) by simp
  from wait_loop_ok [OF so this, of False] obtain w' where
    2: "wait_loop n False w1 = (if \<exists>c\<in>set (unreaped w1). status_of c w1 \<noteq> Exited 0 then - 1 else 0, w')"
      "unreaped w' = []" "children w' = children w1" by auto
  have "program_status w' = program_status w1"
    using quiet_wait_loop [of w1 n False] 2(1) by (auto simp: quiet_def trace_def same_oracles_def)
  then have st: "status_of c w' = status_of c w1" for c using 2(3) by (simp add: status_of_def split: child_end.split)
  have set: "(\<exists>c\<in>set (unreaped w1). status_of c w1 \<noteq> Exited 0) = (\<not> (\<forall>j<n. status_of (length (children w) + j) w' = Exited 0))"
    (is "?L = ?R")
  proof
    assume ?L
    then obtain c where c: "length (children w) \<le> c" "c < length (children w) + n" "status_of c w1 \<noteq> Exited 0" unfolding 1(5) by auto
    then show ?R using st by (auto intro!: exI [of _ "c - length (children w)"])
  next
    assume ?R
    then show ?L unfolding 1(5) using st by auto
  qed
  have "execute_pipeline cmd w = (if \<forall>j<n. status_of (length (children w) + j) w' = Exited 0 then 0 else - 1, w')"
    using n 1(1) 2(1) unfolding set by (simp add: execute_pipeline_def parser_get_stage_count_def split: option.splits)
  then show thesis by (rule that) (use 1 2 in auto)
qed

text \<open>The same for a parsed text: \<open>vs\<close> are its stages, \<open>p0\<close> is the number of the first pipe.\<close>

definition stage_run :: "fd_table \<Rightarrow> nat \<Rightarrow> stage_view list \<Rightarrow> nat \<Rightarrow> child_end \<Rightarrow> bool" where
  "stage_run T p0 vs i e \<longleftrightarrow>
     (let (args, redir) = vs ! i
      in if args = [] then e = Child_exit 1
         else \<exists>T'. e = Child_exec args T' \<and>
           fd_get T' 0 = (case redir Input_file of Some f \<Rightarrow> Some (Opened f Read_only)
             | None \<Rightarrow> if 0 < i then Some (Pipe_read (p0 + i - 1)) else fd_get T 0) \<and>
           fd_get T' 1 = (case redir Output_file of Some f \<Rightarrow> Some (Opened f Write_truncate)
             | None \<Rightarrow> if Suc i < length vs then Some (Pipe_write (p0 + i)) else fd_get T 1) \<and>
           fd_get T' 2 = (case redir Error_file of Some f \<Rightarrow> Some (Opened f Write_truncate) | None \<Rightarrow> fd_get T 2) \<and>
           (\<forall>m\<ge>3. fd_get T' m = fd_get T m))"

lemma exec_args_rep: "stage_rep st args rf \<Longrightarrow> exec_args (argv st) = args"
proof -
  assume rep: "stage_rep st args rf"
  then obtain k where "PARSER_MAX_ARGS - length args = Suc k" by (cases "PARSER_MAX_ARGS - length args") (auto simp: stage_rep_def)
  then have "argv st = map (Some \<circ> Some) args @ Some None # replicate k (Some None)" using rep by (simp add: stage_rep_def)
  then show ?thesis by (simp add: exec_args_def takeWhile_append comp_def)
qed

lemma stage_rep_rd0: "stage_rep st args rf \<Longrightarrow> (rd (argv st) 0 = Some None) = (args = [])"
  by (cases args) (auto simp: stage_rep_def rd_def PARSER_MAX_ARGS_def)

lemma stage_end_run:
  assumes rep: "command_rep c vs" and i: "i < length vs" and e: "stage_end T p0 (length vs) (Some c) i e"
  shows "stage_run T p0 vs i e"
proof -
  obtain sts where s: "stages c = sts @ replicate (PARSER_MAX_STAGES - length vs) zero_stage"
    "list_all2 (\<lambda>st v. stage_rep st (fst v) (snd v)) sts vs" "length sts = length vs"
    "stage_count c = int (length vs)" "length vs \<le> PARSER_MAX_STAGES" by (rule command_rep_stages [OF rep])
  obtain args rf where v: "vs ! i = (args, rf)" by (cases "vs ! i")
  have r: "stage_rep (sts ! i) args rf" using list_all2_nthD2 [OF s(2), of i] i v by simp
  have st: "stages c ! i = sts ! i" using s(1,3) i by (simp add: nth_append)
  have valid: "valid_stage (Some c) (int i)" using s(4) i by (simp add: valid_stage_def parser_get_stage_count_def)
  have files: "error_file (sts ! i) = rf Error_file" "input_file (sts ! i) = rf Input_file" "output_file (sts ! i) = rf Output_file"
    using r by (simp_all add: stage_rep_def)
  show ?thesis
    using e valid st stage_rep_rd0 [OF r] exec_args_rep [OF r] files
    by (simp add: stage_end_def stage_run_def v wired_def parser_get_stage_argv_def parser_get_input_file_def
        parser_get_output_file_def parser_get_error_file_def split: if_splits)
qed

end
