(* ===== verification/Runner_Correct.thy ===== *)
theory Runner_Correct
  imports Runner Executor_Effects
begin

text \<open>
  The runner: whatever the system calls do, a run ends, restores the descriptors and the memory it used
  and sends what the protocol lets it send; a command is started only after its authorisation.
\<close>

subsection \<open>The private pipe\<close>

lemma create_runner_fifo_outputs:
  obtains c es w' where "create_runner_fifo w = (c, runner_fifo_path w, w')" and "outputs w es w'" and "silent es"
    and "c = - 1 \<longrightarrow> \<not> sys_ok w" and "c = - 1 \<or> c = 0" and "printed es = []"
proof (rule ipc_create_fifo_effect [of "runner_fifo_path w" w])
  fix c es t
  assume e: "ipc_create_fifo (runner_fifo_path w) w = (c, w\<lparr>tick := t, events := events w @ es\<rparr>)" "tick w \<le> t"
    "delivered es = []" "logged es = []" "c = - 1 \<longrightarrow> \<not> sys_ok w" "printed es = []"
  let ?w1 = "w\<lparr>tick := t, events := events w @ es\<rparr>"
  have o1: "outputs w es ?w1" using e(2) by (auto simp: outputs_def)
  have s: "silent es" using e(3,4) by (simp add: silent_def)
  show thesis
  proof (cases "c = - 1")
    case True
    show thesis by (rule that [of "- 1", OF _ outputs_emit [OF o1, of "Err ''ipc_create_fifo''"]]) (use True e s in \<open>simp_all add: create_runner_fifo_def\<close>)
  next
    case False
    show thesis by (rule that [of 0, OF _ o1]) (use False e s in \<open>simp_all add: create_runner_fifo_def\<close>)
  qed
qed

text \<open>The process with one more descriptor open.\<close>

definition one_more :: "'a os_scheme \<Rightarrow> 'a os_scheme" where
  "one_more w = w\<lparr>open_fds := Suc (open_fds w)\<rparr>"

lemma sys_open_outputs:
  obtains (failed) d w' where "sys_open p w = (d, w')" and "fd_num d = - 1" and "outputs w [] w'" and "\<not> sys_ok w"
  | (opened) d w' where "sys_open p w = (d, w')" and "fd_num d \<noteq> - 1" and "outputs (one_more w) [] w'"
proof (cases "sys_out w (tick w) < 0")
  case True
  then have "\<not> sys_ok w" using sys_okD [of w "tick w"] by auto
  moreover have "outputs w [] (w\<lparr>tick := Suc (tick w)\<rparr>)" by (auto simp: outputs_def intro!: exI [of _ "Suc (tick w)"])
  ultimately show thesis using True by (intro failed [of "Fd (- 1) p"]) (simp_all add: sys_open_eq)
next
  case False
  have "outputs (one_more w) [] (w\<lparr>tick := Suc (tick w), open_fds := Suc (open_fds w)\<rparr>)"
    by (auto simp: outputs_def one_more_def intro!: exI [of _ "Suc (tick w)"])
  then show thesis using False by (intro opened [of "Fd (sys_out w (tick w)) p"]) (simp_all add: sys_open_eq)
qed

lemma destroy_fifo_outputs:
  obtains r es w' where "ipc_destroy_fifo p w = (r, w')" and "outputs w es w'" and "silent es" and "printed es = []"
proof (rule sys_unlink_effect [of p w])
  fix r es t
  assume e: "sys_unlink p w = (r, w\<lparr>tick := t, events := events w @ es\<rparr>)" "tick w \<le> t" "delivered es = []" "logged es = []"
    "printed es = []"
  show thesis
    by (rule that [of r "w\<lparr>tick := t, events := events w @ es\<rparr>" es]) (use e in \<open>auto simp: ipc_destroy_fifo_def outputs_def silent_def\<close>)
qed

lemma close_runner_fifo_outputs:
  obtains es where "outputs (w\<lparr>open_fds := open_fds w - 1\<rparr>) es (close_runner_fifo d p w)" and "silent es" and "printed es = []"
proof -
  obtain c w1 where c: "sys_close d w = (c, w1)" "w1 = w\<lparr>tick := Suc (tick w), open_fds := open_fds w - 1\<rparr>"
    by (simp add: sys_close_eq)
  have o: "outputs (w\<lparr>open_fds := open_fds w - 1\<rparr>) [] w1"
    unfolding c(2) outputs_def by (rule exI [of _ "Suc (tick w)"]) simp
  obtain r es w' where "ipc_destroy_fifo p w1 = (r, w')" "outputs w1 es w'" "silent es" "printed es = []" by (rule destroy_fifo_outputs)
  with c that [of es] outputs_trans [OF o] show thesis by (simp add: close_runner_fifo_def)
qed

subsection \<open>Between the authorisation and the report\<close>

text \<open>The report that ends a command: the ids are those of the authorisation.\<close>

definition done_of :: "int \<Rightarrow> RpcMessage \<Rightarrow> RpcMessage" where
  "done_of pid m = \<lparr>msg_type = DONE, sender_pid = pid, msg_user_id = msg_user_id m,
     msg_command_id = msg_command_id m, payload = []\<rparr>"

lemma sends_trace: "trace w es w' \<Longrightarrow> sends w' = sends w"
  by (auto simp: trace_def same_oracles_def sends_def sys_ok_def fun_eq_iff)

lemma trace_sys_ok: "trace w es w' \<Longrightarrow> sys_ok w' = sys_ok w"
  by (auto simp: trace_def same_oracles_def sys_ok_def)

lemma trace_silent: "trace w es w1 \<Longrightarrow> silent es \<Longrightarrow> trace w1 es' w2 \<Longrightarrow> sends w1 es' out logs \<Longrightarrow>
    \<exists>es. trace w es w2 \<and> sends w es out logs"
  using trace_trans [of w es w1 es' w2] sends_trace [of w es w1] by (auto intro: exI [of _ "es @ es'"])

lemma silent_quiet: "trace w es w' \<Longrightarrow> silent es \<Longrightarrow> blocks w' = blocks w \<Longrightarrow> quiet w w'"
  by (auto simp: quiet_def)

lemma send_trace:
  obtains r es w' where "ipc_send_atomic p m w = (r, w')" and "trace w es w'" and "sends w es [(p, m)] []"
    and "fds w' = fds w" and "blocks w' = blocks w" and "children w' = children w" and "sys_ok w \<longrightarrow> r \<noteq> - 1"
    and "unreaped w' = unreaped w" and "next_pipe w' = next_pipe w"
proof (rule ipc_send_atomic_outputs [of p m w])
  fix r es w'
  assume s: "ipc_send_atomic p m w = (r, w')" "outputs w es w'" "sends w es [(p, m)] []"
  have "sys_ok w \<longrightarrow> r \<noteq> - 1" using s(1) ipc_send_atomic_full [of w p m] by (auto simp: sys_ok_def)
  then show thesis by (intro that [OF s(1) outputs_trace [OF s(2)] s(3)]) (use s(2) in \<open>auto simp: outputs_def\<close>)
qed

text \<open>What the runner does between the authorisation and the report.\<close>

lemma run_authorised_ok:
  obtains r es w' where "run_authorised sub m w = Some (r, w')" and "trace w es w'"
    and "sends w es [(SERVER_FIFO_PATH, done_of (self_pid w) m)] []" and "same_fds (fds w) (fds w')"
    and "blocks w \<le> blocks w'" and "mem_ok w \<and> command_view (payload sub) \<noteq> None \<longrightarrow> blocks w' = blocks w"
    and "sys_ok w \<longrightarrow> r \<noteq> - 1"
proof -
  let ?w1 = "emit (Out (''[runner] executing command '' @ fmt_d (msg_command_id m) @ ''...'' @ LF)) w"
  have t1: "trace w [Out (''[runner] executing command '' @ fmt_d (msg_command_id m) @ ''...'' @ LF)] ?w1"
    using trace_emit [OF trace_refl] by force
  have q1: "quiet w ?w1" by (rule silent_quiet [OF t1]) simp_all
  have fd1: "fds ?w1 = fds w" by simp
  have mem: "mem_ok ?w1 = mem_ok w" by (simp add: mem_ok_def emit_def)
  obtain p w2 where p: "parser_parse (Some (payload sub)) ?w1 = Some (p, w2)" "allocates ?w1 w2"
    "mem_ok ?w1 \<longrightarrow> (p = None \<longleftrightarrow> command_view (payload sub) = None)"
    "\<forall>c. p = Some c \<longrightarrow> (\<exists>vs. command_view (payload sub) = Some vs \<and> command_rep c vs \<and> blocks w2 = blocks ?w1 + Suc (view_blocks vs))"
    "p = None \<longrightarrow> (\<exists>args rf. blocks w2 = blocks ?w1 + stage_blocks args rf)"
    by (rule parser_parse_ok)
  have fd2: "fds w2 = fds w" using p(2) fd1 by (auto simp: allocates_def)
  have t2: "trace ?w1 [] w2" by (rule allocates_trace [OF p(2)])
  obtain w4 where 4: "(if p = None then Some (emit (Out (''parser_parse failed'' @ LF)) w2)
       else do { let (_, w3) = execute_pipeline p w2; parser_destroy p w3 }) = Some w4"
    "\<exists>es. trace ?w1 es w4 \<and> silent es" "same_fds (fds w) (fds w4)" "blocks w \<le> blocks w4"
    "mem_ok w \<and> command_view (payload sub) \<noteq> None \<longrightarrow> blocks w4 = blocks w"
  proof (cases p)
    case None
    show thesis
    proof (rule that)
      show "\<exists>es. trace ?w1 es (emit (Out (''parser_parse failed'' @ LF)) w2) \<and> silent es"
        by (rule exI, rule conjI, rule trace_emit [OF t2]) simp
    qed (use None p(3,5) fd2 mem in auto)
  next
    case (Some c)
    then obtain vs where vs: "command_rep c vs" "blocks w2 = blocks ?w1 + Suc (view_blocks vs)" using p(4) by auto
    obtain r w3 where e: "execute_pipeline p w2 = (r, w3)" by (cases "execute_pipeline p w2")
    have q: "quiet w2 w3" and f: "same_fds (fds w2) (fds w3)"
      using execute_pipeline_quiet [of w2 p] execute_pipeline_fds [of w2 p] e by simp_all
    have b3: "blocks w3 = blocks w2" using q by (simp add: quiet_def)
    have d: "parser_destroy p w3 = Some (w3\<lparr>blocks := blocks w\<rparr>)"
      using parser_destroy_ok [OF vs(1), of w3] vs(2) b3 Some by simp
    obtain es where es: "trace w2 es w3" "silent es" using q by (auto simp: quiet_def)
    have "trace w2 es (w3\<lparr>blocks := blocks w\<rparr>)" using es(1) by (simp add: trace_def same_oracles_def)
    then have "trace ?w1 es (w3\<lparr>blocks := blocks w\<rparr>)" using trace_trans [OF t2] by fastforce
    then show thesis by (intro that [of "w3\<lparr>blocks := blocks w\<rparr>"]) (use Some e d es(2) f fd2 in auto)
  qed
  obtain e4 where e4: "trace ?w1 e4 w4" "silent e4" using 4(2) by blast
  have pid: "self_pid w4 = self_pid w" using e4(1) t1 by (simp add: trace_def)
  obtain r es w' where s: "ipc_send_atomic SERVER_FIFO_PATH (done_of (self_pid w) m) w4 = (r, w')" "trace w4 es w'"
    "sends w4 es [(SERVER_FIFO_PATH, done_of (self_pid w) m)] []" "fds w' = fds w4" "blocks w' = blocks w4"
    "sys_ok w4 \<longrightarrow> r \<noteq> - 1" by (rule send_trace)
  have "run_authorised sub m w = Some (r, w')"
    using p(1) 4(1) s(1) pid by (simp add: run_authorised_def Let_def done_of_def zero_msg_def)
  moreover obtain es2 where "trace ?w1 es2 w'" "sends ?w1 es2 [(SERVER_FIFO_PATH, done_of (self_pid w) m)] []"
    using trace_silent [OF e4 s(2,3)] by blast
  then obtain es3 where "trace w es3 w'" "sends w es3 [(SERVER_FIFO_PATH, done_of (self_pid w) m)] []"
    using trace_silent [OF t1 silent_simps(3)] by blast
  moreover have "sys_ok w \<longrightarrow> r \<noteq> - 1" using s(6) trace_sys_ok [OF e4(1)] trace_sys_ok [OF t1] by simp
  ultimately show thesis using that 4(3-5) s(4,5) by simp
qed

text \<open>The authorisation: a whole message of the kind \<open>ACK\<close> comes first.\<close>

definition granted :: "read_result list \<Rightarrow> bool" where
  "granted inp \<longleftrightarrow> (case inp of [] \<Rightarrow> False | (n, m) # _ \<Rightarrow> n = int sizeof_RpcMessage \<and> msg_type m = ACK)"

lemma granted_read:
  "granted inp \<longleftrightarrow> fst (fst (ipc_read_blocking inp)) = int sizeof_RpcMessage \<and> msg_type (snd (fst (ipc_read_blocking inp))) = ACK"
  by (cases inp) (auto simp: granted_def ipc_read_blocking_def)

lemma granted_hd: "granted inp \<Longrightarrow> snd (fst (ipc_read_blocking inp)) = snd (hd inp)"
  by (cases inp) (auto simp: granted_def ipc_read_blocking_def)

text \<open>What a run of the runner may do to its process and what it sends, in order.\<close>

definition runner_result :: "runner_world \<Rightarrow> sent list \<Rightarrow> runner_world \<Rightarrow> bool" where
  "runner_result w out w' \<longleftrightarrow> (\<exists>es. trace w es w' \<and> sends w es out []) \<and> same_fds (fds w) (fds w') \<and> blocks w \<le> blocks w'"

text \<open>A run that starts nothing, with what it prints.\<close>

definition runner_idle :: "runner_world \<Rightarrow> sent list \<Rightarrow> string list \<Rightarrow> runner_world \<Rightarrow> bool" where
  "runner_idle w out prt w' \<longleftrightarrow> (\<exists>es. outputs w es w' \<and> sends w es out [] \<and> printed es = prt)"

lemma outputs_frame: "outputs w es w' \<Longrightarrow> fds w' = fds w \<and> blocks w' = blocks w \<and> children w' = children w"
  by (auto simp: outputs_def)

lemma runner_idle_result: "runner_idle w out prt w' \<Longrightarrow> runner_result w out w' \<and> blocks w' = blocks w \<and> children w' = children w"
  unfolding runner_idle_def runner_result_def using outputs_trace outputs_frame by fastforce

lemma outputs_sends: "outputs w es w' \<Longrightarrow> sends w' = sends w"
  using effect_cong(4) [OF outputs_effect] .

lemma outputs_sys_ok: "outputs w es w' \<Longrightarrow> sys_ok w' = sys_ok w"
  using effect_cong(1) [OF outputs_effect] .

lemma idle_refl: "runner_idle w [] [] w"
  unfolding runner_idle_def by (rule exI [of _ "[]"]) simp

lemma idle_silent: "runner_idle w out prt w' \<Longrightarrow> outputs w' es w'' \<Longrightarrow> silent es \<Longrightarrow> runner_idle w out (prt @ printed es) w''"
  unfolding runner_idle_def by (metis outputs_trans printed_append sends_silent(1))

lemma idle_out: "runner_idle w out prt w' \<Longrightarrow> runner_idle w out (prt @ [s]) (emit (Out s) w')"
  using idle_silent [of w out prt w' "[Out s]" "emit (Out s) w'"] outputs_emit [OF outputs_refl, of w' "Out s"] by simp

lemma idle_err: "runner_idle w out prt w' \<Longrightarrow> runner_idle w out prt (emit (Err s) w')"
  using idle_silent [of w out prt w' "[Err s]" "emit (Err s) w'"] outputs_emit [OF outputs_refl, of w' "Err s"] by simp

lemma idle_sys_ok: "runner_idle w out prt w' \<Longrightarrow> sys_ok w' = sys_ok w"
  unfolding runner_idle_def using outputs_sys_ok by blast

lemma idle_pid: "runner_idle w out prt w' \<Longrightarrow> self_pid w' = self_pid w"
  by (auto simp: runner_idle_def outputs_def)

text \<open>The steps before and after the answer of the controller, common to the three modes.\<close>

lemma idle_send:
  assumes "runner_idle w [] prt w1"
  obtains r w2 where "ipc_send_atomic p m w1 = (r, w2)" and "runner_idle w [(p, m)] prt w2" and "sys_ok w \<longrightarrow> r \<noteq> - 1"
proof (rule ipc_send_atomic_outputs [of p m w1])
  fix r es w2
  assume s: "ipc_send_atomic p m w1 = (r, w2)" "outputs w1 es w2" "sends w1 es [(p, m)] []" "printed es = []"
  obtain es0 where 0: "outputs w es0 w1" "sends w es0 [] []" "printed es0 = prt" using assms by (auto simp: runner_idle_def)
  have r: "sys_ok w1 \<longrightarrow> r \<noteq> - 1" using s(1) ipc_send_atomic_full [of w1 p m] by (auto simp: sys_ok_def)
  have "sends w (es0 @ es) ([] @ [(p, m)]) ([] @ [])"
    using s(3) outputs_sends [OF 0(1)] by (intro sends_append [OF 0(2)]) simp
  then have "runner_idle w [(p, m)] prt w2" using outputs_trans [OF 0(1) s(2)] 0(3) s(4)
    unfolding runner_idle_def by (intro exI [of _ "es0 @ es"]) simp
  then show thesis using that s(1) r idle_sys_ok [OF assms] by simp
qed

lemma idle_destroy:
  assumes "runner_idle w out prt w1"
  obtains r w2 where "ipc_destroy_fifo p w1 = (r, w2)" and "runner_idle w out prt w2"
  using destroy_fifo_outputs [of p w1] idle_silent [OF assms] by (metis append_Nil2)

lemma idle_create:
  obtains c w1 where "create_runner_fifo w = (c, runner_fifo_path w, w1)" and "runner_idle w [] [] w1"
    and "sys_ok w \<longrightarrow> c \<noteq> - 1" and "self_pid w1 = self_pid w"
proof (rule create_runner_fifo_outputs [of w])
  fix c es w1
  assume c: "create_runner_fifo w = (c, runner_fifo_path w, w1)" "outputs w es w1" "silent es" "c = - 1 \<longrightarrow> \<not> sys_ok w" "printed es = []"
  have "runner_idle w [] [] w1" using idle_silent [OF idle_refl c(2,3)] c(5) by simp
  then show thesis using that c(1,4) idle_pid by blast
qed

lemma idle_open:
  assumes "runner_idle w out prt w1"
  obtains (failed) d w2 where "sys_open p w1 = (d, w2)" and "fd_num d = - 1" and "runner_idle w out prt w2" and "\<not> sys_ok w"
  | (opened) d w2 where "sys_open p w1 = (d, w2)" and "fd_num d \<noteq> - 1" and "outputs (one_more w1) [] w2"
proof (cases rule: sys_open_outputs [of p w1])
  case (failed d w')
  then show thesis using that(1) idle_silent [OF assms, of "[]"] idle_sys_ok [OF assms] by simp
next
  case (opened d w')
  then show thesis by (rule that(2))
qed

text \<open>A session on the private pipe that only prints.\<close>

lemma idle_close:
  assumes idle: "runner_idle w out prt w1" and "outputs (one_more w1) es w2" and "silent es"
  shows "runner_idle w out (prt @ printed es) (close_runner_fifo d p w2)"
proof -
  obtain es' where c: "outputs (w2\<lparr>open_fds := open_fds w2 - 1\<rparr>) es' (close_runner_fifo d p w2)" "silent es'" "printed es' = []"
    by (rule close_runner_fifo_outputs)
  obtain t where t: "tick w1 \<le> t" "w2 = (one_more w1)\<lparr>tick := t, events := events w1 @ es\<rparr>"
    using assms(2) by (auto simp: outputs_def one_more_def)
  have "outputs w1 es (w2\<lparr>open_fds := open_fds w2 - 1\<rparr>)" using t by (auto simp: outputs_def one_more_def)
  from outputs_trans [OF this c(1)] have "runner_idle w out (prt @ printed (es @ es')) (close_runner_fifo d p w2)"
    by (rule idle_silent [OF idle]) (use assms(3) c(2) in simp)
  then show ?thesis using c(3) by simp
qed

subsection \<open>Status and shutdown\<close>

text \<open>The texts of an answer: up to its end, the payloads of the messages that carry one.\<close>

definition status_shown :: "read_result list \<Rightarrow> string list" where
  "status_shown inp = map payload (filter (\<lambda>m. msg_type m = STATUS_RESP)
     (takeWhile (\<lambda>m. msg_type m \<noteq> STATUS_END) (map snd (takeWhile (\<lambda>r. fst r = int sizeof_RpcMessage) inp))))"

lemma printed_map_Out [simp]: "printed (map Out ss) = ss" "silent (map Out ss)"
  by (induction ss) (auto simp: silent_def)

lemma status_loop_outputs: "outputs w (map Out (status_shown inp)) (status_loop inp w)"
proof (induction inp w rule: status_loop.induct)
  case (1 w)
  then show ?case by (simp add: status_shown_def)
next
  case (2 n m inp w)
  let ?w1 = "emit (Out (payload m)) w"
  have o: "outputs w [Out (payload m)] ?w1" using outputs_emit [OF outputs_refl, of w] by simp
  from 2 outputs_trans [OF o, of "map Out (status_shown inp)" "status_loop inp ?w1"] show ?case
    by (auto simp: status_shown_def Let_def)
qed

lemma idle_more: "runner_idle w [] prt w' \<Longrightarrow> \<not> sys_ok w \<Longrightarrow> runner_idle w out prt w'"
  unfolding runner_idle_def using sends_more [of w _ "[]" "[]" out] by auto

text \<open>The two ways the setup of the pipe can end before the answer is read: the code returns 1.\<close>

lemma idle_fail:
  assumes "runner_idle w out prt w1"
  obtains r w2 where "ipc_destroy_fifo p (emit (Err s) w1) = (r, w2)" and "runner_idle w out prt w2"
  by (rule idle_destroy [OF idle_err [OF assms]])

lemma runner_run_status_ok:
  obtains r prt w' where "runner_run_status inp w = (r, w')"
    and "runner_idle w [(SERVER_FIFO_PATH, zero_msg\<lparr>msg_type := STATUS_REQ, sender_pid := self_pid w\<rparr>)] prt w'"
    and "r = 0 \<or> r = 1" and "prt = (if r = 0 then status_shown inp else [])" and "sys_ok w \<longrightarrow> r = 0"
proof -
  let ?m = "zero_msg\<lparr>msg_type := STATUS_REQ, sender_pid := self_pid w\<rparr>"
  let ?p = "runner_fifo_path w"
  obtain c w1 where 1: "create_runner_fifo w = (c, ?p, w1)" "runner_idle w [] [] w1" "sys_ok w \<longrightarrow> c \<noteq> - 1" "self_pid w1 = self_pid w"
    by (rule idle_create)
  show thesis
  proof (cases "c = - 1")
    case True
    then show thesis using 1 idle_more [OF 1(2)] by (intro that [of 1 w1 "[]"]) (auto simp: runner_run_status_def)
  next
    case c: False
    obtain r w2 where 2: "ipc_send_atomic SERVER_FIFO_PATH ?m w1 = (r, w2)" "runner_idle w [(SERVER_FIFO_PATH, ?m)] [] w2"
      "sys_ok w \<longrightarrow> r \<noteq> - 1" by (rule idle_send [OF 1(2)])
    show thesis
    proof (cases "r = - 1")
      case True
      obtain q w3 where "ipc_destroy_fifo ?p (emit (Err ''ipc_send_atomic'') w2) = (q, w3)" "runner_idle w [(SERVER_FIFO_PATH, ?m)] [] w3"
        by (rule idle_fail [OF 2(2)])
      then show thesis using True 1(1,4) 2(1,3) c by (intro that [of 1 w3 "[]"]) (auto simp: runner_run_status_def)
    next
      case r: False
      show thesis
      proof (cases rule: idle_open [OF 2(2), of ?p])
        case (1 d w3)
        obtain q w4 where "ipc_destroy_fifo ?p (emit (Err ''open runner fifo'') w3) = (q, w4)" "runner_idle w [(SERVER_FIFO_PATH, ?m)] [] w4"
          by (rule idle_fail [OF 1(3)])
        then show thesis using \<open>create_runner_fifo w = _\<close> \<open>self_pid w1 = _\<close> 1 2(1) c r
          by (intro that [of 1 w4 "[]"]) (auto simp: runner_run_status_def)
      next
        case (2 d w3)
        have o: "outputs (one_more w2) (map Out (status_shown inp)) (status_loop inp w3)"
          using outputs_trans [OF 2(3) status_loop_outputs] by simp
        have "runner_idle w [(SERVER_FIFO_PATH, ?m)] (status_shown inp) (close_runner_fifo d ?p (status_loop inp w3))"
          using idle_close [OF \<open>runner_idle w [_] [] w2\<close> o] by simp
        then show thesis using \<open>create_runner_fifo w = _\<close> \<open>self_pid w1 = _\<close> \<open>ipc_send_atomic _ _ w1 = _\<close> 2 c r
          by (intro that [of 0]) (auto simp: runner_run_status_def close_runner_fifo_def case_prod_beta)
      qed
    qed
  qed
qed

text \<open>The shutdown request waits for its answer and ignores every other message.\<close>

definition shutdown_shown :: "int \<Rightarrow> string list \<Rightarrow> bool" where
  "shutdown_shown r prt \<longleftrightarrow>
     (let sent = ''[runner] sent shutdown notification'' @ LF; waits = ''[runner] waiting for controller to shutdown...'' @ LF;
          over = ''[runner] controller exited.'' @ LF
      in if r = 0 then prt = [sent, waits, over] else prt = [] \<or> prt = [sent, waits])"

lemma runner_run_shutdown_ok:
  obtains r prt w' where "runner_run_shutdown inp w = (r, w')"
    and "runner_idle w [(SERVER_FIFO_PATH, zero_msg\<lparr>msg_type := SHUTDOWN_REQ, sender_pid := self_pid w\<rparr>)] prt w'"
    and "r = 0 \<or> r = 1" and "shutdown_shown r prt" and "sys_ok w \<longrightarrow> r = 0"
proof -
  let ?m = "zero_msg\<lparr>msg_type := SHUTDOWN_REQ, sender_pid := self_pid w\<rparr>"
  let ?p = "runner_fifo_path w"
  let ?s1 = "''[runner] sent shutdown notification'' @ LF" and ?s2 = "''[runner] waiting for controller to shutdown...'' @ LF"
  let ?s3 = "''[runner] controller exited.'' @ LF"
  obtain c w1 where 1: "create_runner_fifo w = (c, ?p, w1)" "runner_idle w [] [] w1" "sys_ok w \<longrightarrow> c \<noteq> - 1" "self_pid w1 = self_pid w"
    by (rule idle_create)
  show thesis
  proof (cases "c = - 1")
    case True
    then show thesis using 1 idle_more [OF 1(2)]
      by (intro that [of 1 w1 "[]"]) (auto simp: runner_run_shutdown_def shutdown_shown_def)
  next
    case c: False
    obtain r w2 where 2: "ipc_send_atomic SERVER_FIFO_PATH ?m w1 = (r, w2)" "runner_idle w [(SERVER_FIFO_PATH, ?m)] [] w2"
      "sys_ok w \<longrightarrow> r \<noteq> - 1" by (rule idle_send [OF 1(2)])
    show thesis
    proof (cases "r = - 1")
      case True
      obtain q w3 where "ipc_destroy_fifo ?p (emit (Err ''ipc_send_atomic'') w2) = (q, w3)" "runner_idle w [(SERVER_FIFO_PATH, ?m)] [] w3"
        by (rule idle_fail [OF 2(2)])
      then show thesis using True 1(1,4) 2(1,3) c
        by (intro that [of 1 w3 "[]"]) (auto simp: runner_run_shutdown_def shutdown_shown_def)
    next
      case r: False
      let ?w3 = "emit (Out ?s2) (emit (Out ?s1) w2)"
      have 3: "runner_idle w [(SERVER_FIFO_PATH, ?m)] [?s1, ?s2] ?w3"
        using idle_out [OF idle_out [OF 2(2)]] by simp
      show thesis
      proof (cases rule: idle_open [OF 3, of ?p])
        case (1 d w4)
        obtain q w5 where "ipc_destroy_fifo ?p (emit (Err ''open runner fifo'') w4) = (q, w5)"
          "runner_idle w [(SERVER_FIFO_PATH, ?m)] [?s1, ?s2] w5"
          by (rule idle_fail [OF 1(3)])
        then show thesis using \<open>create_runner_fifo w = _\<close> \<open>self_pid w1 = _\<close> 1 2(1) c r
          by (intro that [of 1 w5 "[?s1, ?s2]"]) (auto simp: runner_run_shutdown_def shutdown_shown_def Let_def)
      next
        case (2 d w4)
        have o: "outputs (one_more ?w3) [Out ?s3] (emit (Out ?s3) w4)"
          using outputs_emit [OF 2(3), of "Out ?s3"] by simp
        have "runner_idle w [(SERVER_FIFO_PATH, ?m)] [?s1, ?s2, ?s3] (close_runner_fifo d ?p (emit (Out ?s3) w4))"
          using idle_close [OF 3 o] by simp
        then show thesis using \<open>create_runner_fifo w = _\<close> \<open>self_pid w1 = _\<close> \<open>ipc_send_atomic _ _ w1 = _\<close> 2 c r
          by (intro that [of 0]) (auto simp: runner_run_shutdown_def close_runner_fifo_def case_prod_beta shutdown_shown_def Let_def)
      qed
    qed
  qed
qed

subsection \<open>Execution\<close>

text \<open>
  The messages of an execution: the submission, then the report if the command was authorised.
\<close>

definition execute_msgs :: "int \<Rightarrow> int \<Rightarrow> string \<Rightarrow> read_result list \<Rightarrow> sent list" where
  "execute_msgs pid uid cmd inp = (SERVER_FIFO_PATH, submit_of pid uid cmd) #
     (if granted inp then [(SERVER_FIFO_PATH, done_of pid (snd (hd inp)))] else [])"

lemma idle_execute: "runner_idle w out prt w' \<Longrightarrow> \<not> sys_ok w \<or> out = out' \<Longrightarrow> \<exists>extra. out' = out @ extra \<Longrightarrow> runner_idle w out' prt w'"
  unfolding runner_idle_def using sends_more [of w] by metis

lemma trace_one_more: "trace (one_more w) es w' \<Longrightarrow> trace w es (w'\<lparr>open_fds := open_fds w' - 1\<rparr>)"
  by (simp add: trace_def one_more_def same_oracles_def)

text \<open>The step from the submission to the end, when the authorisation has come.\<close>

lemma execute_granted:
  assumes idle: "runner_idle w out prt w1" and op: "outputs (one_more w1) [] w2"
    and run: "run_authorised sub m w2 = Some (s, w3)" and t: "trace w2 es w3"
    and snd: "sends w2 es [(SERVER_FIFO_PATH, done_of (self_pid w) m)] []" and f: "same_fds (fds w2) (fds w3)"
    and b: "blocks w2 \<le> blocks w3" and line: "silent [e]"
  shows "runner_result w (out @ [(SERVER_FIFO_PATH, done_of (self_pid w) m)]) (close_runner_fifo d p (emit e w3))"
    and "blocks (close_runner_fifo d p (emit e w3)) = blocks w3"
proof -
  let ?w4 = "emit e w3" and ?w5 = "close_runner_fifo d p (emit e w3)"
  obtain es0 where 0: "outputs w es0 w1" "sends w es0 out []" using idle by (auto simp: runner_idle_def)
  have t2: "trace (one_more w1) (es @ [e]) ?w4" using trace_trans [OF outputs_trace [OF op] trace_emit [OF t]] by simp
  obtain es' where c: "outputs (?w4\<lparr>open_fds := open_fds ?w4 - 1\<rparr>) es' ?w5" "silent es'"
    by (rule close_runner_fifo_outputs)
  have "trace w1 ((es @ [e]) @ es') ?w5"
    by (rule trace_trans [OF trace_one_more [OF t2] outputs_trace [OF c(1)]])
  from trace_trans [OF outputs_trace [OF 0(1)] this] have tr: "trace w (es0 @ (es @ [e]) @ es') ?w5" .
  have same: "sends w2 = sends w" using outputs_sends [OF op] outputs_sends [OF 0(1)]
    by (simp add: one_more_def sends_def sys_ok_def fun_eq_iff)
  have "sends w (es0 @ es) (out @ [(SERVER_FIFO_PATH, done_of (self_pid w) m)]) ([] @ [])"
    using snd same by (intro sends_append [OF 0(2)]) simp
  then have "sends w ((es0 @ es) @ ([e] @ es')) (out @ [(SERVER_FIFO_PATH, done_of (self_pid w) m)]) []"
    using c(2) line by (subst sends_silent) (simp_all only: silent_simps append_Nil)
  moreover have fr: "fds w2 = fds w" "blocks w2 = blocks w" "fds ?w5 = fds w3" "blocks ?w5 = blocks w3"
    using op 0(1) c(1) by (auto simp: outputs_def one_more_def emit_def)
  ultimately show "runner_result w (out @ [(SERVER_FIFO_PATH, done_of (self_pid w) m)]) ?w5"
    using tr f b unfolding runner_result_def by auto
  show "blocks ?w5 = blocks w3" by (rule fr(4))
qed

lemma outputs_mem: "outputs w es w' \<Longrightarrow> mem_ok w' = mem_ok w"
  by (auto simp: outputs_def mem_ok_def)

text \<open>Up to the answer of the controller: the run ends with a failed call, or the pipe is open.\<close>

lemma execute_session:
  obtains (early) w' prt out where "runner_run_execute uid cmd inp w = Some (1, w')" and "runner_idle w out prt w'"
      and "\<not> sys_ok w" and "out = [] \<or> out = [(SERVER_FIFO_PATH, submit_of (self_pid w) uid cmd)]"
  | (session) d w1 w2 prt where "runner_idle w [(SERVER_FIFO_PATH, submit_of (self_pid w) uid cmd)] prt w1"
      and "outputs (one_more w1) [] w2"
      and "runner_run_execute uid cmd inp w =
        (let m = snd (fst (ipc_read_blocking inp))
         in if granted inp then do {
              (s, w5) \<leftarrow> run_authorised (submit_of (self_pid w) uid cmd) m w2;
              Some (if s = - 1 then 1 else 0, close_runner_fifo d (runner_fifo_path w)
                (emit (if s = - 1 then Err ''ipc_send_atomic''
                   else Out (''[runner] command '' @ fmt_d (msg_command_id m) @ '' finished'' @ LF)) w5)) }
            else Some (1, close_runner_fifo d (runner_fifo_path w) (emit (Out (''runner did not receive ACK'' @ LF)) w2)))"
proof -
  let ?sub = "submit_of (self_pid w) uid cmd"
  let ?p = "runner_fifo_path w"
  let ?prt = "[''[runner] command '' @ fmt_d (self_pid w) @ '' submitted'' @ LF]"
  have ids: "msg_command_id ?sub = self_pid w" by (simp add: submit_of_def)
  obtain c w1 where 1: "create_runner_fifo w = (c, ?p, w1)" "runner_idle w [] [] w1" "sys_ok w \<longrightarrow> c \<noteq> - 1" "self_pid w1 = self_pid w"
    by (rule idle_create)
  show thesis
  proof (cases "c = - 1")
    case True
    then show thesis using 1 by (intro early [of w1 "[]" "[]"]) (auto simp: runner_run_execute_def)
  next
    case c: False
    let ?w2 = "emit (Out (''[runner] command '' @ fmt_d (self_pid w) @ '' submitted'' @ LF)) w1"
    have i2: "runner_idle w [] ?prt ?w2" using idle_out [OF 1(2)] by simp
    obtain r w3 where 3: "ipc_send_atomic SERVER_FIFO_PATH ?sub ?w2 = (r, w3)"
      "runner_idle w [(SERVER_FIFO_PATH, ?sub)] ?prt w3" "sys_ok w \<longrightarrow> r \<noteq> - 1" by (rule idle_send [OF i2])
    show thesis
    proof (cases "r = - 1")
      case True
      obtain q w4 where "ipc_destroy_fifo ?p (emit (Err ''ipc_send_atomic'') w3) = (q, w4)"
        "runner_idle w [(SERVER_FIFO_PATH, ?sub)] ?prt w4" by (rule idle_fail [OF 3(2)])
      then show thesis using True 1(1,4) 3(1,3) c ids
        by (intro early [of w4]) (auto simp: runner_run_execute_def Let_def)
    next
      case r: False
      show thesis
      proof (cases rule: idle_open [OF 3(2), of ?p])
        case (1 d w4)
        obtain q w5 where "ipc_destroy_fifo ?p (emit (Err ''open runner fifo'') w4) = (q, w5)"
          "runner_idle w [(SERVER_FIFO_PATH, ?sub)] ?prt w5" by (rule idle_fail [OF 1(3)])
        then show thesis using \<open>create_runner_fifo w = _\<close> \<open>self_pid w1 = _\<close> 1 3(1) c r ids
          by (intro early [of w5]) (auto simp: runner_run_execute_def Let_def)
      next
        case (2 d w4)
        obtain n m rest where rd: "ipc_read_blocking inp = ((n, m), rest)" by (cases "ipc_read_blocking inp") auto
        show thesis
          by (rule session [OF 3(2) 2(3)], unfold runner_run_execute_def granted_read rd)
            (use \<open>create_runner_fifo w = _\<close> \<open>self_pid w1 = _\<close> 3(1) 2(1,2) c r ids rd in
              \<open>auto simp: Let_def intro!: Option.bind_cong [OF refl]\<close>)
      qed
    qed
  qed
qed

lemma runner_run_execute_ok:
  obtains r w' where "runner_run_execute uid cmd inp w = Some (r, w')"
    and "runner_result w (execute_msgs (self_pid w) uid cmd inp) w'"
    and "r = 0 \<or> r = 1" and "sys_ok w \<longrightarrow> r = (if granted inp then 0 else 1)"
    and "\<not> granted inp \<longrightarrow> r = 1 \<and> (\<exists>prt. runner_idle w (execute_msgs (self_pid w) uid cmd inp) prt w')"
    and "mem_ok w \<and> command_view (fit_buffer RPC_PAYLOAD_SIZE cmd) \<noteq> None \<longrightarrow> blocks w' = blocks w"
proof (cases rule: execute_session [of uid cmd inp w])
  case (early w' prt out)
  have i: "runner_idle w (execute_msgs (self_pid w) uid cmd inp) prt w'"
    by (rule idle_execute [OF early(2)]) (use early(3,4) in \<open>auto simp: execute_msgs_def\<close>)
  then show thesis
    using early(1,3) runner_idle_result [OF i] by (intro that [of 1 w']) auto
next
  case (session d w1 w2 prt)
  let ?sub = "submit_of (self_pid w) uid cmd"
  let ?m = "snd (fst (ipc_read_blocking inp))"
  let ?p = "runner_fifo_path w"
  show thesis
  proof (cases "granted inp")
    case False
    let ?e = "Out (''runner did not receive ACK'' @ LF)"
    have "outputs (one_more w1) [?e] (emit ?e w2)" using outputs_emit [OF session(2), of ?e] by simp
    from idle_close [OF session(1) this, of d ?p] have
      i: "runner_idle w (execute_msgs (self_pid w) uid cmd inp) (prt @ [''runner did not receive ACK'' @ LF]) (close_runner_fifo d ?p (emit ?e w2))"
      using False by (simp add: execute_msgs_def)
    show thesis using False session(3) i runner_idle_result [OF i]
      by (intro that [of 1 "close_runner_fifo d ?p (emit ?e w2)"]) auto
  next
    case True
    obtain s es w5 where a: "run_authorised ?sub ?m w2 = Some (s, w5)" "trace w2 es w5"
      "sends w2 es [(SERVER_FIFO_PATH, done_of (self_pid w2) ?m)] []" "same_fds (fds w2) (fds w5)" "blocks w2 \<le> blocks w5"
      "mem_ok w2 \<and> command_view (payload ?sub) \<noteq> None \<longrightarrow> blocks w5 = blocks w2" "sys_ok w2 \<longrightarrow> s \<noteq> - 1"
      by (rule run_authorised_ok)
    have same: "self_pid w2 = self_pid w" "sys_ok w2 = sys_ok w" "mem_ok w2 = mem_ok w" "blocks w2 = blocks w"
      using session(1,2) by (auto simp: runner_idle_def outputs_def one_more_def sys_ok_def mem_ok_def)
    let ?e = "if s = - 1 then Err ''ipc_send_atomic''
      else Out (''[runner] command '' @ fmt_d (msg_command_id ?m) @ '' finished'' @ LF)"
    note g = execute_granted [OF session(1,2) a(1,2) a(3) [unfolded same(1)] a(4,5), of ?e d ?p]
    have msgs: "execute_msgs (self_pid w) uid cmd inp = [(SERVER_FIFO_PATH, ?sub)] @ [(SERVER_FIFO_PATH, done_of (self_pid w) ?m)]"
      using True granted_hd [OF True] by (simp add: execute_msgs_def)
    have pl: "payload ?sub = fit_buffer RPC_PAYLOAD_SIZE cmd" by (simp add: submit_of_def)
    show thesis
    proof (rule that)
      show "runner_run_execute uid cmd inp w = Some (if s = - 1 then 1 else 0, close_runner_fifo d ?p (emit ?e w5))"
        using session(3) True a(1) by simp
      show "runner_result w (execute_msgs (self_pid w) uid cmd inp) (close_runner_fifo d ?p (emit ?e w5))"
        unfolding msgs by (rule g(1)) simp
      show "mem_ok w \<and> command_view (fit_buffer RPC_PAYLOAD_SIZE cmd) \<noteq> None \<longrightarrow>
          blocks (close_runner_fifo d ?p (emit ?e w5)) = blocks w"
        using g(2) a(6) same(3,4) pl by simp
    qed (use True a(7) same(2) in auto)
  qed
qed

text \<open>When no call fails, an authorised command is run: one child per stage, wired as its text says.\<close>

definition runs :: "runner_world \<Rightarrow> stage_view list \<Rightarrow> runner_world \<Rightarrow> bool" where
  "runs w vs w' \<longleftrightarrow> (\<exists>cs. children w' = children w @ cs \<and> length cs = length vs \<and>
     (\<forall>j<length vs. stage_run (fds w) (next_pipe w) vs j (cs ! j))) \<and> unreaped w' = []"

lemma run_authorised_runs:
  assumes ok: "sys_ok w" "\<forall>c. calls_ok (child_out w c)" "mem_ok w" and std: "std_open (fds w)" and un: "unreaped w = []"
    and view: "command_view (payload sub) = Some vs" "vs \<noteq> []" and run: "run_authorised sub m w = Some (r, w')"
  shows "runs w vs w'"
proof -
  let ?w1 = "emit (Out (''[runner] executing command '' @ fmt_d (msg_command_id m) @ ''...'' @ LF)) w"
  have mem: "mem_ok ?w1" using ok(3) by (simp add: mem_ok_def emit_def)
  obtain p w2 where p: "parser_parse (Some (payload sub)) ?w1 = Some (p, w2)" "allocates ?w1 w2"
    "mem_ok ?w1 \<longrightarrow> (p = None \<longleftrightarrow> command_view (payload sub) = None)"
    "\<forall>c. p = Some c \<longrightarrow> (\<exists>vs. command_view (payload sub) = Some vs \<and> command_rep c vs \<and> blocks w2 = blocks ?w1 + Suc (view_blocks vs))"
    by (rule parser_parse_ok)
  obtain c where c: "p = Some c" "command_rep c vs" using p(3,4) mem view(1) by (cases p) auto
  have same: "fds w2 = fds w" "next_pipe w2 = next_pipe w" "children w2 = children w" "unreaped w2 = []"
    "sys_out w2 = sys_out w" "child_out w2 = child_out w"
    using p(2) un by (auto simp: allocates_def emit_def)
  have nn: "\<forall>t. 0 \<le> sys_out w t" using sys_okD [OF ok(1)] by (meson dual_order.trans zero_le_numeral)
  have all: "all_calls_ok w2" using same(5,6) ok(2) nn by (simp add: all_calls_ok_def)
  have n: "parser_get_stage_count p = int (length vs)" "0 < length vs"
    using c view(2) by (simp_all add: command_rep_def parser_get_stage_count_def)
  have std2: "std_open (fds w2)" using std same(1) by simp
  obtain e cs w3 where x: "execute_pipeline p w2 = (e, w3)" "children w3 = children w2 @ cs" "length cs = length vs"
    "\<forall>j<length vs. stage_end (fds w2) (next_pipe w2) (length vs) p j (cs ! j)" "unreaped w3 = []"
    by (rule execute_pipeline_ok [OF all std2 n same(4)])
  have st: "\<forall>j<length vs. stage_run (fds w) (next_pipe w) vs j (cs ! j)"
    using x(4) stage_end_run [OF c(2)] c(1) same(1,2) by simp
  have b3: "blocks w3 = blocks w2" using execute_pipeline_quiet [of w2 p] x(1) by (simp add: quiet_def)
  have b2: "blocks w2 = blocks ?w1 + Suc (view_blocks vs)" using p(4) c(1) view(1) by auto
  have d: "parser_destroy p w3 = Some (w3\<lparr>blocks := blocks w3 - Suc (view_blocks vs)\<rparr>)"
    using parser_destroy_ok [OF c(2), of w3] b2 b3 c(1) by simp
  let ?w4 = "w3\<lparr>blocks := blocks w3 - Suc (view_blocks vs)\<rparr>"
  obtain r' es w5 where s: "ipc_send_atomic SERVER_FIFO_PATH (zero_msg\<lparr>msg_type := DONE, sender_pid := self_pid ?w4,
      msg_user_id := msg_user_id m, msg_command_id := msg_command_id m\<rparr>) ?w4 = (r', w5)" "trace ?w4 es w5"
    "children w5 = children ?w4" "unreaped w5 = unreaped ?w4" by (rule send_trace)
  have "run_authorised sub m w = Some (r', w5)"
    using p(1) c(1) x(1) d s(1) by (simp add: run_authorised_def Let_def)
  then have "w' = w5" using run by simp
  then show ?thesis using s(3,4) x(2,3,5) same(3) st by (auto simp: runs_def)
qed

text \<open>Where a pipeline may leave its children: the same for the whole execution.\<close>

lemma runner_executes:
  assumes ok: "sys_ok w" "\<forall>c. calls_ok (child_out w c)" "mem_ok w" and std: "std_open (fds w)" and un: "unreaped w = []"
    and gr: "granted inp" and view: "command_view (fit_buffer RPC_PAYLOAD_SIZE cmd) = Some vs" "vs \<noteq> []"
  obtains w' where "runner_run_execute uid cmd inp w = Some (0, w')" and "runs w vs w'"
proof (cases rule: execute_session [of uid cmd inp w])
  case early
  with ok(1) show thesis by simp
next
  case (session d w1 w2 prt)
  let ?sub = "submit_of (self_pid w) uid cmd"
  let ?m = "snd (fst (ipc_read_blocking inp))"
  have same: "fds w2 = fds w" "next_pipe w2 = next_pipe w" "children w2 = children w" "unreaped w2 = unreaped w"
    "sys_ok w2 = sys_ok w" "child_out w2 = child_out w" "mem_ok w2 = mem_ok w"
    using session(1,2) by (auto simp: runner_idle_def outputs_def one_more_def sys_ok_def mem_ok_def)
  obtain s es w5 where a: "run_authorised ?sub ?m w2 = Some (s, w5)" "sys_ok w2 \<longrightarrow> s \<noteq> - 1"
    by (rule run_authorised_ok)
  have pl: "payload ?sub = fit_buffer RPC_PAYLOAD_SIZE cmd" by (simp add: submit_of_def)
  have "runs w2 vs w5"
    by (rule run_authorised_runs [OF _ _ _ _ _ _ view(2) a(1)]) (use ok std un view(1) same pl in simp_all)
  then have r: "runs w vs w5" using same by (simp add: runs_def)
  let ?e = "Out (''[runner] command '' @ fmt_d (msg_command_id ?m) @ '' finished'' @ LF)"
  let ?w6 = "close_runner_fifo d (runner_fifo_path w) (emit ?e w5)"
  obtain es' where c: "outputs ((emit ?e w5)\<lparr>open_fds := open_fds (emit ?e w5) - 1\<rparr>) es' ?w6"
    by (rule close_runner_fifo_outputs)
  have "children ?w6 = children w5" "unreaped ?w6 = unreaped w5" using c by (auto simp: outputs_def emit_def)
  then have "runs w vs ?w6" using r by (simp add: runs_def)
  moreover have "runner_run_execute uid cmd inp w = Some (0, ?w6)"
    using session(3) gr a ok(1) same(5) by simp
  ultimately show thesis by (rule that [rotated])
qed

end
