(* ===== verification/Runner_Theorems.thy ===== *)
theory Runner_Theorems
  imports Runner_Correct
begin

text \<open>
  The properties of the runner program: the parser, the executor, the three modes, each with an instance
  at a concrete process and input.
\<close>

subsection \<open>A concrete process\<close>

definition demo_runner :: runner_world where
  "demo_runner = \<lparr>tick = 0, malloc_ok = (\<lambda>_. True), rand_out = (\<lambda>t. t), clock_out = (\<lambda>_. \<lparr>tv_sec = 1000, tv_usec = 0\<rparr>),
     sys_out = (\<lambda>_. 504), self_pid = 201, blocks = 0, open_fds = 3, events = [],
     fds = [Some (Inherited 0), Some (Inherited 1), Some (Inherited 2)], next_pipe = 0, children = [], unreaped = [],
     child_out = (\<lambda>_ _. 0), program_status = (\<lambda>_. Exited 0), wait_pick = (\<lambda>_. 0)\<rparr>"

lemma demo_runner_ok [simp]:
  "sys_ok demo_runner" "mem_ok demo_runner" "calls_ok (child_out demo_runner c)" "all_calls_ok demo_runner"
  "std_open (fds demo_runner)" "unreaped demo_runner = []" "children demo_runner = []" "self_pid demo_runner = 201" "blocks demo_runner = 0"
  by (simp_all add: demo_runner_def sys_ok_def mem_ok_def calls_ok_def all_calls_ok_def std_open_def fd_get_def)

definition demo_pipeline :: "item list list" where
  "demo_pipeline = [[Arg ''cat'', Redir Input_file ''in.txt''], [Arg ''sort'', Arg ''-r''], [Arg ''wc'', Redir Output_file ''out.txt'', Redir Error_file ''err.txt'']]"

lemma demo_pipeline_plain: "\<forall>its\<in>set demo_pipeline. its \<noteq> [] \<and> length (args_of its) < PARSER_MAX_ARGS \<and> (\<forall>it\<in>set its. plain_item it)"
  by code_simp

lemma length_demo_pipeline [simp]: "length demo_pipeline = 3"
  by (simp add: demo_pipeline_def)

lemma demo_pipeline_text: "pipeline_text demo_pipeline = ''cat < in.txt |sort -r |wc > out.txt 2> err.txt ''"
  by (simp add: demo_pipeline_def stage_text_def)

lemma demo_pipeline_bounds: "length demo_pipeline \<le> PARSER_MAX_STAGES" "length (pipeline_text demo_pipeline) < PARSER_INPUT_BUFFER"
  by (simp_all only: demo_pipeline_text) (simp_all add: demo_pipeline_def PARSER_MAX_STAGES_def PARSER_INPUT_BUFFER_def)

lemma demo_views [simp]:
  "view_of (demo_pipeline ! 0) = ([''cat''], \<lambda>k. redir_of k None [Arg ''cat'', Redir Input_file ''in.txt''])"
  "view_of (demo_pipeline ! Suc 0) = ([''sort'', ''-r''], \<lambda>k. None)"
  by (simp_all add: demo_pipeline_def view_of_def)

subsection \<open>The parser\<close>

text \<open>What the functions of \<^verbatim>\<open>parser.h\<close> report of a parsed command.\<close>

definition reported :: "parsed_command option \<Rightarrow> nat \<Rightarrow> stage_view \<Rightarrow> bool" where
  "reported p i v \<longleftrightarrow> map_option exec_args (parser_get_stage_argv p (int i)) = Some (fst v) \<and>
     parser_get_input_file p (int i) = snd v Input_file \<and> parser_get_output_file p (int i) = snd v Output_file \<and>
     parser_get_error_file p (int i) = snd v Error_file"

lemma command_rep_reported:
  assumes rep: "command_rep c vs"
  shows "parser_get_stage_count (Some c) = int (length vs)" and "i < length vs \<Longrightarrow> reported (Some c) i (vs ! i)"
proof -
  obtain sts where s: "stages c = sts @ replicate (PARSER_MAX_STAGES - length vs) zero_stage"
    "list_all2 (\<lambda>st v. stage_rep st (fst v) (snd v)) sts vs" "length sts = length vs"
    "stage_count c = int (length vs)" by (rule command_rep_stages [OF rep])
  show "parser_get_stage_count (Some c) = int (length vs)" using s(4) by (simp add: parser_get_stage_count_def)
  assume i: "i < length vs"
  have r: "stage_rep (sts ! i) (fst (vs ! i)) (snd (vs ! i))" using list_all2_nthD2 [OF s(2) i] .
  have st: "stages c ! i = sts ! i" using s(1,3) i by (simp add: nth_append)
  have valid: "valid_stage (Some c) (int i)" using s(4) i by (simp add: valid_stage_def parser_get_stage_count_def)
  have files: "error_file (sts ! i) = snd (vs ! i) Error_file" "input_file (sts ! i) = snd (vs ! i) Input_file"
    "output_file (sts ! i) = snd (vs ! i) Output_file" using r by (simp_all add: stage_rep_def)
  show "reported (Some c) i (vs ! i)"
    using valid st exec_args_rep [OF r] files
    by (simp add: reported_def parser_get_stage_argv_def parser_get_input_file_def parser_get_output_file_def parser_get_error_file_def)
qed

text \<open>
  C17. The parser against a reference. \<open>parser_parse\<close> returns for every input and every outcome of
  \<open>malloc\<close>, without undefined behaviour. Whatever it returns agrees with the reference definition, which
  cuts the text at \<open>|\<close> and reads each stage on its own as a list of items: the number of stages, the
  argument vector and the three redirections of each, the last redirection of a kind counting. With
  memory it fails exactly on the texts that the reference rejects.
\<close>

theorem parser_equivalence:
  "\<exists>p w'. parser_parse (Some s) w = Some (p, w') \<and>
    (mem_ok w \<longrightarrow> (p = None \<longleftrightarrow> command_view s = None)) \<and>
    (p \<noteq> None \<longrightarrow> (\<exists>vs. command_view s = Some vs \<and> parser_get_stage_count p = int (length vs) \<and>
       (\<forall>i<length vs. reported p i (vs ! i))))"
proof -
  obtain p w' where p: "parser_parse (Some s) w = Some (p, w')"
    "mem_ok w \<longrightarrow> (p = None \<longleftrightarrow> command_view s = None)"
    "\<forall>c. p = Some c \<longrightarrow> (\<exists>vs. command_view s = Some vs \<and> command_rep c vs \<and> blocks w' = blocks w + Suc (view_blocks vs))"
    by (rule parser_parse_ok)
  then show ?thesis using command_rep_reported by (cases p) fastforce+
qed

theorem parser_equivalence_witness:
  "\<exists>p w'. parser_parse (Some ''ls -l | wc'') demo_runner = Some (p, w') \<and> (p = None \<longleftrightarrow> command_view ''ls -l | wc'' = None)"
  using parser_equivalence [of "''ls -l | wc''" demo_runner] by auto

text \<open>
  C29. Parsing inverts printing. The text of a pipeline, with blanks after every word, is parsed to that
  pipeline, whatever the words are (no blanks and no operator characters in them), as long as it keeps
  to the limits of the parser: 16 stages, 31 arguments a stage, 1023 characters.
\<close>

theorem parser_roundtrip:
  assumes "\<forall>its\<in>set ps. its \<noteq> [] \<and> length (args_of its) < PARSER_MAX_ARGS \<and> (\<forall>it\<in>set its. plain_item it)"
    and "length ps \<le> PARSER_MAX_STAGES" and "length (pipeline_text ps) < PARSER_INPUT_BUFFER" and "mem_ok w"
  shows "\<exists>c w'. parser_parse (Some (pipeline_text ps)) w = Some (Some c, w') \<and>
    parser_get_stage_count (Some c) = int (length ps) \<and>
    (\<forall>i<length ps. reported (Some c) i (args_of (ps ! i), \<lambda>k. redir_of k None (ps ! i)))"
proof -
  have v: "command_view (pipeline_text ps) = Some (map view_of ps)" by (rule command_view_text [OF assms(1-3)])
  obtain p w' where p: "parser_parse (Some (pipeline_text ps)) w = Some (p, w')"
    "mem_ok w \<longrightarrow> (p = None \<longleftrightarrow> command_view (pipeline_text ps) = None)"
    "\<forall>c. p = Some c \<longrightarrow> (\<exists>vs. command_view (pipeline_text ps) = Some vs \<and> command_rep c vs \<and> blocks w' = blocks w + Suc (view_blocks vs))"
    by (rule parser_parse_ok)
  obtain c where c: "p = Some c" "command_rep c (map view_of ps)" using p(2,3) v assms(4) by (cases p) auto
  show ?thesis using p(1) c command_rep_reported(1) [OF c(2)] command_rep_reported(2) [OF c(2)] by (auto simp: view_of_def)
qed

theorem parser_roundtrip_witness:
  "\<exists>c w'. parser_parse (Some ''cat < in.txt |sort -r |wc > out.txt 2> err.txt '') demo_runner = Some (Some c, w') \<and>
    parser_get_stage_count (Some c) = 3"
  using parser_roundtrip [OF demo_pipeline_plain demo_pipeline_bounds demo_runner_ok(2), unfolded demo_pipeline_text]
  by (auto simp: demo_pipeline_def)

text \<open>
  C30. Parsing and destroying. \<open>parser_destroy\<close> frees exactly the blocks that a successful \<open>parser_parse\<close>
  allocated: the memory is as before, and nothing is freed twice.
\<close>

theorem parse_destroy_balanced:
  assumes "parser_parse (Some s) w = Some (Some c, w1)"
  shows "\<exists>w2. parser_destroy (Some c) w1 = Some w2 \<and> blocks w2 = blocks w"
proof -
  obtain p w' where p: "parser_parse (Some s) w = Some (p, w')"
    "\<forall>c. p = Some c \<longrightarrow> (\<exists>vs. command_view s = Some vs \<and> command_rep c vs \<and> blocks w' = blocks w + Suc (view_blocks vs))"
    by (rule parser_parse_ok)
  then obtain vs where "command_rep c vs" "blocks w1 = blocks w + Suc (view_blocks vs)" using assms by auto
  then show ?thesis using parser_destroy_ok [of c vs w1] by simp
qed

theorem parse_destroy_balanced_witness:
  "\<exists>c w1 w2. parser_parse (Some (pipeline_text demo_pipeline)) demo_runner = Some (Some c, w1) \<and>
    parser_destroy (Some c) w1 = Some w2 \<and> blocks w2 = 0"
proof -
  have "command_view (pipeline_text demo_pipeline) = Some (map view_of demo_pipeline)"
    by (rule command_view_text [OF demo_pipeline_plain demo_pipeline_bounds])
  then obtain c w1 where c: "parser_parse (Some (pipeline_text demo_pipeline)) demo_runner = Some (Some c, w1)"
    by (rule_tac parser_parse_ok [of "pipeline_text demo_pipeline" demo_runner]) auto
  from parse_destroy_balanced [OF this] c show ?thesis by (auto simp: demo_runner_def)
qed

lemma segments_chars: "t \<in> set (segments s) \<Longrightarrow> set t \<subseteq> set s - {CHR ''|''}"
proof (induction s rule: segments.induct)
  case (1 s)
  show ?case
  proof (cases "strtok s")
    case None
    with 1(2) show ?thesis by (subst (asm) segments.simps) simp
  next
    case (Some q)
    obtain u r where q: "q = (u, r)" by (cases q)
    let ?s1 = "dropWhile (\<lambda>c. c = CHR ''|'') s"
    have u: "u = takeWhile (\<lambda>c. c \<noteq> CHR ''|'') ?s1" and r: "r = drop 1 (dropWhile (\<lambda>c. c \<noteq> CHR ''|'') ?s1)"
      using Some q by (auto simp: strtok_def Let_def split: if_splits)
    have "set u \<subseteq> set s - {CHR ''|''}" unfolding u by (auto dest: set_takeWhileD set_dropWhileD)
    moreover have "set r \<subseteq> set s" unfolding r by (auto dest!: in_set_dropD set_dropWhileD)
    moreover have "t = u \<or> t \<in> set (segments r)" using 1(2) Some q by (subst (asm) segments.simps) simp
    ultimately show ?thesis using 1(1) [OF Some q [symmetric]] q by auto
  qed
qed

lemma redir_of_item: "redir_of k t its = Some a \<Longrightarrow> t = Some a \<or> Redir k a \<in> set its"
  by (induction k t its rule: redir_of.induct) (auto split: if_splits)

lemma args_of_item: "a \<in> set (args_of its) \<Longrightarrow> Arg a \<in> set its"
  by (induction its) (auto simp: args_of_def List.map_filter_def split: item.splits)

lemma stage_views_length: "stage_views ss = Some vs \<Longrightarrow> length vs = length ss \<and> (\<forall>i<length ss. stage_view (ss ! i) = Some (vs ! i))"
proof (induction ss arbitrary: vs)
  case (Cons s ss)
  from Cons.prems obtain v vs' where "stage_view s = Some v" "stage_views ss = Some vs'" "vs = v # vs'"
    by (auto split: option.splits)
  with Cons.IH show ?case by (auto simp: less_Suc_eq_0_disj)
qed simp

lemma command_view_bounds:
  assumes "command_view s = Some vs"
  shows "length vs \<le> 16"
    and "i < length vs \<Longrightarrow> length (fst (vs ! i)) \<le> 31"
    and "i < length vs \<Longrightarrow> a \<in> set (fst (vs ! i)) \<or> (\<exists>k. snd (vs ! i) k = Some a) \<Longrightarrow>
      a \<noteq> [] \<and> (\<forall>x\<in>set a. is_word x \<and> x \<noteq> CHR ''|'' \<and> x \<in> set s)"
proof -
  let ?ss = "take PARSER_MAX_STAGES (segments (fit_buffer PARSER_INPUT_BUFFER s))"
  have sv: "length vs = length ?ss" "\<And>i. i < length ?ss \<Longrightarrow> stage_view (?ss ! i) = Some (vs ! i)"
    using stage_views_length [OF assms [unfolded command_view_def]] by auto
  show "length vs \<le> 16" using sv(1) by (simp add: PARSER_MAX_STAGES_def)
  assume i: "i < length vs"
  then obtain its where its: "stage_items (?ss ! i) = Some its" "vs ! i = (take (PARSER_MAX_ARGS - 1) (args_of its), \<lambda>k. redir_of k None its)"
    using sv by (fastforce simp: stage_view_def)
  show "length (fst (vs ! i)) \<le> 31" using its(2) by (simp add: PARSER_MAX_ARGS_def)
  assume a: "a \<in> set (fst (vs ! i)) \<or> (\<exists>k. snd (vs ! i) k = Some a)"
  then have "Arg a \<in> set its \<or> (\<exists>k. Redir k a \<in> set its)"
    using its(2) args_of_item redir_of_item by (force dest: in_set_takeD)
  then obtain it where it: "it \<in> set its" "item_word it = a" by force
  have "?ss ! i \<in> set (segments (fit_buffer PARSER_INPUT_BUFFER s))" using i sv(1) by (metis in_set_takeD nth_mem)
  from segments_chars [OF this] have "set (?ss ! i) \<subseteq> set s - {CHR ''|''}" by (auto simp: fit_buffer_def dest: in_set_takeD)
  from stage_items_words [OF its(1) it(1) this] it(2) show "a \<noteq> [] \<and> (\<forall>x\<in>set a. is_word x \<and> x \<noteq> CHR ''|'' \<and> x \<in> set s)" by auto
qed

text \<open>
  C31. Bounds of a parsed command. At most 16 stages, at most 31 arguments in each, so every argument
  vector ends with \<open>NULL\<close> inside its array; every argument and every file name is a non-empty word of
  the input without white space, \<open><\<close>, \<open>>\<close> or \<open>|\<close>.
\<close>

theorem parsed_within_bounds:
  assumes "parser_parse (Some s) w = Some (Some c, w')"
  shows "0 \<le> parser_get_stage_count (Some c) \<and> parser_get_stage_count (Some c) \<le> 16 \<and>
    (\<forall>i. int i < parser_get_stage_count (Some c) \<longrightarrow> (\<exists>args rf. reported (Some c) i (args, rf) \<and> length args \<le> 31 \<and>
      (\<forall>a. a \<in> set args \<or> (\<exists>k. rf k = Some a) \<longrightarrow>
         a \<noteq> [] \<and> (\<forall>x\<in>set a. \<not> is_space x \<and> x \<noteq> CHR ''<'' \<and> x \<noteq> CHR ''>'' \<and> x \<noteq> CHR ''|'' \<and> x \<in> set s))))"
proof -
  obtain p w' where p: "parser_parse (Some s) w = Some (p, w')"
    "\<forall>c. p = Some c \<longrightarrow> (\<exists>vs. command_view s = Some vs \<and> command_rep c vs \<and> blocks w' = blocks w + Suc (view_blocks vs))"
    by (rule parser_parse_ok)
  then obtain vs where vs: "command_view s = Some vs" "command_rep c vs" using assms by auto
  note b = command_view_bounds [OF vs(1)] and r = command_rep_reported [OF vs(2)]
  have "\<exists>args rf. reported (Some c) i (args, rf) \<and> length args \<le> 31 \<and>
      (\<forall>a. a \<in> set args \<or> (\<exists>k. rf k = Some a) \<longrightarrow>
         a \<noteq> [] \<and> (\<forall>x\<in>set a. \<not> is_space x \<and> x \<noteq> CHR ''<'' \<and> x \<noteq> CHR ''>'' \<and> x \<noteq> CHR ''|'' \<and> x \<in> set s))"
    if "i < length vs" for i
    using r(2) [OF that] b(2) [OF that] b(3) [OF that]
    by (intro exI [of _ "fst (vs ! i)"] exI [of _ "snd (vs ! i)"]) auto
  then show ?thesis using r(1) b(1) by simp
qed

theorem parsed_within_bounds_witness:
  "\<exists>c w'. parser_parse (Some (pipeline_text demo_pipeline)) demo_runner = Some (Some c, w') \<and> parser_get_stage_count (Some c) \<le> 16"
proof -
  have "command_view (pipeline_text demo_pipeline) = Some (map view_of demo_pipeline)"
    by (rule command_view_text [OF demo_pipeline_plain demo_pipeline_bounds])
  then obtain c w1 where c: "parser_parse (Some (pipeline_text demo_pipeline)) demo_runner = Some (Some c, w1)"
    by (rule_tac parser_parse_ok [of "pipeline_text demo_pipeline" demo_runner]) auto
  from parsed_within_bounds [OF this] c show ?thesis by auto
qed



subsection \<open>The executor\<close>

text \<open>
  C18. A pipeline runs as its text says. When no system call fails, \<open>execute_pipeline\<close> starts one child per
  stage; a child without arguments exits with status 1, every other one executes its argument vector with
  standard input, output and error as the redirections of its stage say, else connected to the
  neighbouring stages, else inherited, and with no other descriptor than those the runner had. All
  children are waited for, in whatever order they end; the result is 0 when all ended with status 0 and
  -1 otherwise.
\<close>

theorem pipeline_runs:
  assumes "command_rep c vs" and "vs \<noteq> []" and "all_calls_ok w" and "std_open (fds w)" and "unreaped w = []"
  shows "\<exists>cs w'. execute_pipeline (Some c) w =
      (if \<forall>j<length vs. status_of (length (children w) + j) w' = Exited 0 then 0 else - 1, w') \<and>
    children w' = children w @ cs \<and> length cs = length vs \<and>
    (\<forall>j<length vs. stage_run (fds w) (next_pipe w) vs j (cs ! j)) \<and> unreaped w' = []"
proof -
  have n: "parser_get_stage_count (Some c) = int (length vs)" "0 < length vs"
    using command_rep_reported(1) [OF assms(1)] assms(2) by simp_all
  show ?thesis
    by (rule execute_pipeline_ok [OF assms(3,4) n assms(5)]) (use stage_end_run [OF assms(1)] in blast)
qed

lemma demo_command:
  obtains c w1 where "parser_parse (Some (pipeline_text demo_pipeline)) demo_runner = Some (Some c, w1)"
    and "command_rep c (map view_of demo_pipeline)"
proof -
  have v: "command_view (pipeline_text demo_pipeline) = Some (map view_of demo_pipeline)"
    by (rule command_view_text [OF demo_pipeline_plain demo_pipeline_bounds])
  show thesis
    by (rule parser_parse_ok [of "pipeline_text demo_pipeline" demo_runner]) (use v that in fastforce)
qed

theorem pipeline_runs_witness:
  "\<exists>c cs r w'. execute_pipeline (Some c) demo_runner = (r, w') \<and> children w' = cs \<and> length cs = 3 \<and>
    (\<exists>T. cs ! 1 = Child_exec [''sort'', ''-r''] T \<and> fd_get T 0 = Some (Pipe_read 0) \<and> fd_get T 1 = Some (Pipe_write 1))"
proof -
  obtain c where c: "command_rep c (map view_of demo_pipeline)" by (rule demo_command)
  have "map view_of demo_pipeline \<noteq> []" by (simp add: demo_pipeline_def)
  from pipeline_runs [OF c this demo_runner_ok(4-6)] obtain r cs w' where
    1: "execute_pipeline (Some c) demo_runner = (r, w')" "children w' = cs" "length cs = 3"
      "stage_run (fds demo_runner) (next_pipe demo_runner) (map view_of demo_pipeline) 1 (cs ! 1)"
    by (auto simp: demo_pipeline_def)
  from 1(4) have "\<exists>T. cs ! 1 = Child_exec [''sort'', ''-r''] T \<and> fd_get T 0 = Some (Pipe_read 0) \<and> fd_get T 1 = Some (Pipe_write 1)"
    by (auto simp: stage_run_def demo_pipeline_def view_of_def demo_runner_def)
  with 1(1-3) show ?thesis by blast
qed

definition holds_end :: "file_ref \<Rightarrow> child_end \<Rightarrow> bool" where
  "holds_end r e \<longleftrightarrow> (case e of Child_exit n \<Rightarrow> False | Child_exec args T \<Rightarrow> \<exists>m. fd_get T m = Some r)"

definition no_pipes :: "fd_table \<Rightarrow> bool" where
  "no_pipes T \<longleftrightarrow> (\<forall>m p. fd_get T m \<noteq> Some (Pipe_read p) \<and> fd_get T m \<noteq> Some (Pipe_write p))"

lemma fd_3: "(3::nat) \<le> m \<or> m = 0 \<or> m = 1 \<or> m = 2"
  by linarith

lemma stage_run_ends:
  assumes "stage_run T p0 vs i e" and "no_pipes T" and "i < length vs"
  shows "holds_end (Pipe_read p) e \<longleftrightarrow> fst (vs ! i) \<noteq> [] \<and> snd (vs ! i) Input_file = None \<and> 0 < i \<and> p = p0 + i - 1"
    and "holds_end (Pipe_write p) e \<longleftrightarrow> fst (vs ! i) \<noteq> [] \<and> snd (vs ! i) Output_file = None \<and> Suc i < length vs \<and> p = p0 + i"
proof -
  obtain args rf where v: "vs ! i = (args, rf)" by (cases "vs ! i")
  have T: "fd_get T m \<noteq> Some (Pipe_read q)" "fd_get T m \<noteq> Some (Pipe_write q)" for m q using assms(2) by (auto simp: no_pipes_def)
  show "holds_end (Pipe_read p) e \<longleftrightarrow> fst (vs ! i) \<noteq> [] \<and> snd (vs ! i) Input_file = None \<and> 0 < i \<and> p = p0 + i - 1"
  proof (cases "args = []")
    case False
    then obtain T' where e: "e = Child_exec args T'" and
      g: "fd_get T' 0 = (case rf Input_file of Some f \<Rightarrow> Some (Opened f Read_only) | None \<Rightarrow> if 0 < i then Some (Pipe_read (p0 + i - 1)) else fd_get T 0)"
        "fd_get T' 1 = (case rf Output_file of Some f \<Rightarrow> Some (Opened f Write_truncate) | None \<Rightarrow> if Suc i < length vs then Some (Pipe_write (p0 + i)) else fd_get T 1)"
        "fd_get T' 2 = (case rf Error_file of Some f \<Rightarrow> Some (Opened f Write_truncate) | None \<Rightarrow> fd_get T 2)"
        "\<forall>m\<ge>3. fd_get T' m = fd_get T m" using assms(1) v by (auto simp: stage_run_def)
    have at0: "fd_get T' 0 = Some (Pipe_read p) \<longleftrightarrow> rf Input_file = None \<and> 0 < i \<and> p = p0 + i - 1" by (cases "rf Input_file") (use g(1) T in \<open>auto\<close>)
    have at1: "fd_get T' 1 = Some (Pipe_read p) \<longleftrightarrow> False" by (cases "rf Output_file") (use g(2) T in \<open>auto\<close>)
    have at2: "fd_get T' 2 \<noteq> Some (Pipe_read p)" by (cases "rf Error_file") (use g(3) T in \<open>auto\<close>)
    have at3: "fd_get T' m \<noteq> Some (Pipe_read p)" if "3 \<le> m" for m using g(4) that T by simp
    have "(\<exists>m. fd_get T' m = Some (Pipe_read p)) \<longleftrightarrow> fd_get T' 0 = Some (Pipe_read p)" using at0 at1 at2 at3 fd_3 by metis
    then show ?thesis using e v False at0 by (simp add: holds_end_def)
  qed (use assms(1) v in \<open>simp add: stage_run_def holds_end_def\<close>)
  show "holds_end (Pipe_write p) e \<longleftrightarrow> fst (vs ! i) \<noteq> [] \<and> snd (vs ! i) Output_file = None \<and> Suc i < length vs \<and> p = p0 + i"
  proof (cases "args = []")
    case False
    then obtain T' where e: "e = Child_exec args T'" and
      g: "fd_get T' 0 = (case rf Input_file of Some f \<Rightarrow> Some (Opened f Read_only) | None \<Rightarrow> if 0 < i then Some (Pipe_read (p0 + i - 1)) else fd_get T 0)"
        "fd_get T' 1 = (case rf Output_file of Some f \<Rightarrow> Some (Opened f Write_truncate) | None \<Rightarrow> if Suc i < length vs then Some (Pipe_write (p0 + i)) else fd_get T 1)"
        "fd_get T' 2 = (case rf Error_file of Some f \<Rightarrow> Some (Opened f Write_truncate) | None \<Rightarrow> fd_get T 2)"
        "\<forall>m\<ge>3. fd_get T' m = fd_get T m" using assms(1) v by (auto simp: stage_run_def)
    have at0: "fd_get T' 0 = Some (Pipe_write p) \<longleftrightarrow> False" by (cases "rf Input_file") (use g(1) T in \<open>auto\<close>)
    have at1: "fd_get T' 1 = Some (Pipe_write p) \<longleftrightarrow> rf Output_file = None \<and> Suc i < length vs \<and> p = p0 + i" by (cases "rf Output_file") (use g(2) T in \<open>auto\<close>)
    have at2: "fd_get T' 2 \<noteq> Some (Pipe_write p)" by (cases "rf Error_file") (use g(3) T in \<open>auto\<close>)
    have at3: "fd_get T' m \<noteq> Some (Pipe_write p)" if "3 \<le> m" for m using g(4) that T by simp
    have "(\<exists>m. fd_get T' m = Some (Pipe_write p)) \<longleftrightarrow> fd_get T' 1 = Some (Pipe_write p)" using at0 at1 at2 at3 fd_3 by metis
    then show ?thesis using e v False at1 by (simp add: holds_end_def)
  qed (use assms(1) v in \<open>simp add: stage_run_def holds_end_def\<close>)
qed

text \<open>
  C27. Neighbouring stages share a pipe and nobody else holds it. If stage \<open>i\<close> does not redirect its
  output and the next one does not redirect its input, the standard output of the one is the write end
  of the pipe whose read end is the standard input of the other; no other child holds either end, so the
  reader sees the end of its input when the writer ends.
\<close>

theorem pipe_ends_exclusive:
  assumes "command_rep c vs" and "all_calls_ok w" and "std_open (fds w)" and "unreaped w = []" and "no_pipes (fds w)"
    and "Suc i < length vs" and "fst (vs ! i) \<noteq> []" and "fst (vs ! Suc i) \<noteq> []"
    and "snd (vs ! i) Output_file = None" and "snd (vs ! Suc i) Input_file = None"
  shows "\<exists>r cs w' p. execute_pipeline (Some c) w = (r, w') \<and> children w' = children w @ cs \<and> length cs = length vs \<and>
    (\<forall>k<length vs. (holds_end (Pipe_write p) (cs ! k) \<longleftrightarrow> k = i) \<and> (holds_end (Pipe_read p) (cs ! k) \<longleftrightarrow> k = Suc i))"
proof -
  have n: "parser_get_stage_count (Some c) = int (length vs)" "0 < length vs"
    using command_rep_reported(1) [OF assms(1)] assms(6) by auto
  obtain r cs w' where 1: "execute_pipeline (Some c) w = (r, w')" "children w' = children w @ cs" "length cs = length vs"
    "\<forall>j<length vs. stage_end (fds w) (next_pipe w) (length vs) (Some c) j (cs ! j)"
    by (rule execute_pipeline_ok [OF assms(2,3) n assms(4)])
  have "(holds_end (Pipe_write (next_pipe w + i)) (cs ! k) \<longleftrightarrow> k = i) \<and> (holds_end (Pipe_read (next_pipe w + i)) (cs ! k) \<longleftrightarrow> k = Suc i)"
    if k: "k < length vs" for k
  proof -
    have "stage_run (fds w) (next_pipe w) vs k (cs ! k)" using stage_end_run [OF assms(1) k] 1(4) k by blast
    from stage_run_ends [OF this assms(5) k] show ?thesis using assms(6-10) by auto
  qed
  with 1(1-3) show ?thesis by blast
qed

theorem pipe_ends_exclusive_witness:
  "\<exists>c r cs w' p. execute_pipeline (Some c) demo_runner = (r, w') \<and> children w' = cs \<and> length cs = 3 \<and>
    holds_end (Pipe_write p) (cs ! 0) \<and> holds_end (Pipe_read p) (cs ! 1) \<and> \<not> holds_end (Pipe_read p) (cs ! 2)"
proof -
  obtain c where c: "command_rep c (map view_of demo_pipeline)" by (rule demo_command)
  have np: "no_pipes (fds demo_runner)" by (auto simp: no_pipes_def demo_runner_def fd_get_def nth_Cons' split: if_splits)
  from pipe_ends_exclusive [OF c demo_runner_ok(4-6) np, of 0] obtain r cs w' p where
    "execute_pipeline (Some c) demo_runner = (r, w')" "children w' = cs" "length cs = 3"
    "\<forall>k<3. (holds_end (Pipe_write p) (cs ! k) \<longleftrightarrow> k = 0) \<and> (holds_end (Pipe_read p) (cs ! k) \<longleftrightarrow> k = Suc 0)"
    by (auto simp: demo_views)
  then show ?thesis by force
qed

text \<open>
  C28. Whatever fails, the runner keeps no pipe end. For every command and every outcome of every system
  call, \<open>execute_pipeline\<close> leaves the descriptor table and the memory of the runner as they were and sends
  no message.
\<close>

theorem pipeline_leaks_nothing:
  "\<exists>r w' es. execute_pipeline cmd w = (r, w') \<and> (\<forall>m. fd_get (fds w') m = fd_get (fds w) m) \<and>
    blocks w' = blocks w \<and> open_fds w' = open_fds w \<and> events w' = events w @ es \<and> delivered es = []"
proof -
  obtain r w' where e: "execute_pipeline cmd w = (r, w')" by (cases "execute_pipeline cmd w")
  then show ?thesis using execute_pipeline_fds [of w cmd] execute_pipeline_quiet [of w cmd]
    by (auto simp: same_fds_def quiet_def trace_def silent_def)
qed

subsection \<open>The modes of the runner\<close>

text \<open>
  C19. The protocol of an execution. For every command, every answer and every outcome of allocations and
  system calls, \<open>runner -e\<close> returns, and restores its descriptors. It sends at most the submission and,
  if the first thing it reads is a whole \<open>ACK\<close>, the report with the ids of that \<open>ACK\<close>, in this order.
  Without an \<open>ACK\<close> it starts no program, allocates nothing that remains, and returns 1. When no system
  call fails it sends exactly these messages and returns 0 exactly if the \<open>ACK\<close> came, whatever the
  status of the command itself.
\<close>

theorem runner_execute_protocol:
  "\<exists>r w' es. runner_run_execute uid cmd inp w = Some (r, w') \<and> events w' = events w @ es \<and>
    open_fds w' = open_fds w \<and> same_fds (fds w) (fds w') \<and>
    subseq (delivered es) (execute_msgs (self_pid w) uid cmd inp) \<and>
    (\<not> granted inp \<longrightarrow> r = 1 \<and> children w' = children w \<and> blocks w' = blocks w) \<and>
    (sys_ok w \<longrightarrow> delivered es = execute_msgs (self_pid w) uid cmd inp \<and> r = (if granted inp then 0 else 1)) \<and>
    (mem_ok w \<and> command_view (fit_buffer RPC_PAYLOAD_SIZE cmd) \<noteq> None \<longrightarrow> blocks w' = blocks w)"
proof (rule runner_run_execute_ok [of uid cmd inp w])
  fix r w'
  assume 1: "runner_run_execute uid cmd inp w = Some (r, w')" "runner_result w (execute_msgs (self_pid w) uid cmd inp) w'"
    "sys_ok w \<longrightarrow> r = (if granted inp then 0 else 1)"
    "\<not> granted inp \<longrightarrow> r = 1 \<and> (\<exists>prt. runner_idle w (execute_msgs (self_pid w) uid cmd inp) prt w')"
    "mem_ok w \<and> command_view (fit_buffer RPC_PAYLOAD_SIZE cmd) \<noteq> None \<longrightarrow> blocks w' = blocks w"
  obtain es where es: "trace w es w'" "sends w es (execute_msgs (self_pid w) uid cmd inp) []"
    using 1(2) by (auto simp: runner_result_def)
  have "\<not> granted inp \<longrightarrow> children w' = children w \<and> blocks w' = blocks w" using 1(4) runner_idle_result by blast
  then show ?thesis using 1 es
    by (intro exI [of _ r] exI [of _ w'] exI [of _ es]) (auto simp: trace_def sends_def runner_result_def)
qed

definition demo_ack :: RpcMessage where
  "demo_ack = \<lparr>msg_type = ACK, sender_pid = 100, msg_user_id = 7, msg_command_id = 201, payload = []\<rparr>"

lemma demo_granted [simp]: "granted [(504, demo_ack)]" "\<not> granted [(0, zero_msg)]"
  by (simp_all add: granted_def demo_ack_def zero_msg_def)

theorem runner_execute_protocol_witness:
  "\<exists>r w' es. runner_run_execute 7 ''ls'' [(504, demo_ack)] demo_runner = Some (r, w') \<and> events w' = es \<and> r = 0 \<and>
    delivered es = [(SERVER_FIFO_PATH, submit_of 201 7 ''ls''), (SERVER_FIFO_PATH, done_of 201 demo_ack)]"
  using runner_execute_protocol [of 7 "''ls''" "[(504, demo_ack)]" demo_runner]
  by (auto simp: execute_msgs_def) (simp_all add: demo_runner_def)





text \<open>
  The status mode prints the answer. \<open>runner -c\<close> sends one \<open>STATUS_REQ\<close> and prints the payloads of the
  \<open>STATUS_RESP\<close> messages, in order, up to the first \<open>STATUS_END\<close> or the first read that is not a whole
  message; it starts no program. If it cannot send or open, it prints nothing and returns 1.
\<close>

theorem status_prints_answer:
  fixes w :: runner_world
  shows "\<exists>r w' es. runner_run_status inp w = (r, w') \<and> events w' = events w @ es \<and> (r = 0 \<or> r = 1) \<and> (sys_ok w \<longrightarrow> r = 0) \<and>
    printed es = (if r = 0 then status_shown inp else []) \<and>
    subseq (delivered es) [(SERVER_FIFO_PATH, zero_msg\<lparr>msg_type := STATUS_REQ, sender_pid := self_pid w\<rparr>)] \<and>
    fds w' = fds w \<and> open_fds w' = open_fds w \<and> blocks w' = blocks w \<and> children w' = children w"
proof (rule runner_run_status_ok [of inp w])
  fix r prt w'
  assume 1: "runner_run_status inp w = (r, w')" "runner_idle w [(SERVER_FIFO_PATH, zero_msg\<lparr>msg_type := STATUS_REQ, sender_pid := self_pid w\<rparr>)] prt w'"
    "r = 0 \<or> r = 1" "prt = (if r = 0 then status_shown inp else [])" "sys_ok w \<longrightarrow> r = 0"
  obtain es where "outputs w es w'" "sends w es [(SERVER_FIFO_PATH, zero_msg\<lparr>msg_type := STATUS_REQ, sender_pid := self_pid w\<rparr>)] []"
    "printed es = prt" using 1(2) by (auto simp: runner_idle_def)
  then show ?thesis using 1 by (intro exI [of _ r] exI [of _ w'] exI [of _ es]) (auto simp: outputs_def sends_def)
qed

theorem status_prints_answer_witness:
  "\<exists>w' es. runner_run_status [(504, zero_msg\<lparr>msg_type := STATUS_RESP, payload := ''Executing''\<rparr>), (504, zero_msg\<lparr>msg_type := STATUS_END\<rparr>),
      (504, zero_msg\<lparr>msg_type := STATUS_RESP, payload := ''late''\<rparr>)] demo_runner = (0, w') \<and> events w' = es \<and> printed es = [''Executing'']"
  using status_prints_answer [of "[(504, zero_msg\<lparr>msg_type := STATUS_RESP, payload := ''Executing''\<rparr>), (504, zero_msg\<lparr>msg_type := STATUS_END\<rparr>),
      (504, zero_msg\<lparr>msg_type := STATUS_RESP, payload := ''late''\<rparr>)]" demo_runner]
  by (auto simp: status_shown_def zero_msg_def) (simp_all add: demo_runner_def)



subsection \<open>The program\<close>

text \<open>
  The command line. \<open>runner -e\<close> with the decimal text of any 32-bit user id and any command is read
  back as exactly that request; every other form is refused with the usage line and code 1, except \<open>-c\<close>
  and \<open>-s\<close> without further arguments.
\<close>

theorem parse_args_roundtrip:
  assumes "- (2 ^ 31) \<le> uid" and "uid < 2 ^ 31"
  shows "runner_parse_args [prog, ''-e'', fmt_d uid, cmd] (Some r) w =
      Some (0, Some \<lparr>mode = RUNNER_MODE_EXECUTE, req_user_id = uid, command = Some cmd\<rparr>, w) \<and>
    (\<forall>args. length args \<notin> {2, 4} \<longrightarrow> runner_parse_args args (Some r) w = Some (1, Some zero_request, emit (Out usage) w))"
  using atoi_fmt_d [of uid] assms by (auto simp: runner_parse_args_def zero_request_def)

theorem parse_args_roundtrip_witness:
  "runner_parse_args [''runner'', ''-e'', fmt_d (- 12), ''ls''] (Some zero_request) demo_runner =
    Some (0, Some \<lparr>mode = RUNNER_MODE_EXECUTE, req_user_id = - 12, command = Some ''ls''\<rparr>, demo_runner)"
  using parse_args_roundtrip [of "- 12" "''runner''" "''ls''" zero_request demo_runner] by simp

text \<open>The messages each form of the command line may send.\<close>

definition main_msgs :: "int \<Rightarrow> string list \<Rightarrow> read_result list \<Rightarrow> sent list" where
  "main_msgs pid args inp =
     (if length args = 2 \<and> args ! 1 = ''-c'' then [(SERVER_FIFO_PATH, zero_msg\<lparr>msg_type := STATUS_REQ, sender_pid := pid\<rparr>)]
      else if length args = 2 \<and> args ! 1 = ''-s'' then [(SERVER_FIFO_PATH, zero_msg\<lparr>msg_type := SHUTDOWN_REQ, sender_pid := pid\<rparr>)]
      else if length args = 4 \<and> args ! 1 = ''-e'' then execute_msgs pid (the (atoi (args ! 2))) (args ! 3) inp
      else [])"

lemma runner_result_usage: "runner_result w [] (emit (Out usage) w)"
proof -
  have "runner_idle w [] [usage] (emit (Out usage) w)" using idle_out [OF idle_refl [of w], of usage] by simp
  then show ?thesis using runner_idle_result by blast
qed

text \<open>
  C32. The runner as a whole. For every command line whose user id, if it has one, fits an \<open>int\<close>, every
  answer and every outcome of the calls, the program ends with 0 or 1, with no descriptor more than it
  started with, and has sent an initial part of the messages of its mode.
\<close>

theorem runner_main_total:
  assumes "length args = 4 \<and> args ! 1 = ''-e'' \<longrightarrow> atoi (args ! 2) \<noteq> None"
  shows "\<exists>r w' es. runner_main args inp w = Some (r, w') \<and> (r = 0 \<or> r = 1) \<and> events w' = events w @ es \<and>
    subseq (delivered es) (main_msgs (self_pid w) args inp) \<and>
    (sys_ok w \<longrightarrow> delivered es = main_msgs (self_pid w) args inp) \<and>
    open_fds w' = open_fds w \<and> same_fds (fds w) (fds w')"
proof -
  have "\<exists>r w'. runner_main args inp w = Some (r, w') \<and> (r = 0 \<or> r = 1) \<and> runner_result w (main_msgs (self_pid w) args inp) w'"
  proof -
    consider (status) "length args = 2" "args ! 1 = ''-c''" | (shutdown) "length args = 2" "args ! 1 = ''-s''"
      | (execute) uid where "length args = 4" "args ! 1 = ''-e''" "atoi (args ! 2) = Some uid"
      | (usage) "\<not> (length args = 2 \<and> (args ! 1 = ''-c'' \<or> args ! 1 = ''-s''))" "\<not> (length args = 4 \<and> args ! 1 = ''-e'')"
      using assms by fastforce
    then show ?thesis
    proof cases
      case status
      then have "runner_main args inp w = Some (runner_run_status inp w)"
        by (simp add: runner_main_def runner_parse_args_def zero_request_def)
      then show ?thesis using status runner_idle_result
        by (rule_tac runner_run_status_ok [of inp w]) (auto simp: main_msgs_def)
    next
      case shutdown
      then have "runner_main args inp w = Some (runner_run_shutdown inp w)"
        by (simp add: runner_main_def runner_parse_args_def zero_request_def)
      then show ?thesis using shutdown runner_idle_result
        by (rule_tac runner_run_shutdown_ok [of inp w]) (auto simp: main_msgs_def)
    next
      case execute
      then have "runner_main args inp w = runner_run_execute uid (args ! 3) inp w"
        by (simp add: runner_main_def runner_parse_args_def zero_request_def)
      then show ?thesis using execute
        by (rule_tac runner_run_execute_ok [of uid "args ! 3" inp w]) (auto simp: main_msgs_def)
    next
      case usage
      then have "runner_main args inp w = Some (1, emit (Out Runner.usage) w)"
        by (auto simp: runner_main_def runner_parse_args_def)
      then show ?thesis using usage runner_result_usage by (auto simp: main_msgs_def)
    qed
  qed
  then show ?thesis by (fastforce simp: runner_result_def trace_def sends_def)
qed

theorem runner_main_total_witness:
  "\<exists>r w' es. runner_main [''runner'', ''-e'', fmt_d 7, ''ls''] [(504, demo_ack)] demo_runner = Some (r, w') \<and>
    events w' = es \<and> length (delivered es) = 2"
proof -
  have "atoi (fmt_d 7) \<noteq> None" using atoi_fmt_d [of 7] by simp
  then show ?thesis
    using runner_main_total [of "[''runner'', ''-e'', fmt_d 7, ''ls'']" "[(504, demo_ack)]" demo_runner]
    by (auto simp: main_msgs_def execute_msgs_def) (simp_all add: demo_runner_def)
qed

end
