(* ===== verification/Handler_Theorems.thy ===== *)
theory Handler_Theorems
  imports Controller_Theorems Runner_Theorems
begin

text \<open>
  Single exchanges between the controller and a runner: a submission that is refused, a submission that
  is lost, and a status query, each from the handler of the controller to what the runner does with the
  answer.
\<close>

subsection \<open>A controller that has started\<close>

text \<open>The state after a successful start with one slot, for the instances below.\<close>

lemma started_controller:
  obtains st w where "ctl_rep st w (initial 1 ''fair'')" and "effect demo_world [] w"
proof -
  obtain st0 where c: "controller_configure demo_argv = Some st0" "parallel_limit st0 = 1" "policy st0 = ''fair''"
    using demo_configure by simp
  have fr: "fresh_process demo_world" by simp
  show thesis
  proof (cases rule: controller_init_queues_ok [OF fr, of st0])
    case (1 a b w)
    have "blocks w = 0" using env_eq_blocks [OF 1(4)] by (simp add: demo_world_def)
    from ctl_rep_initial [OF 1(3,2) this c(1)] show ?thesis using that effect_env [OF 1(4)] c(2,3) by simp
  qed simp
qed

subsection \<open>Refused submissions\<close>

text \<open>
  C34. While it shuts down the controller accepts no command. A \<open>SUBMIT\<close> then changes nothing in its
  state and is answered by \<open>SHUTDOWN_ACK\<close>; a runner that reads this answer starts no program, reports
  nothing and returns 1.
\<close>

theorem refused_submission_not_executed:
  fixes rw :: runner_world
  assumes "ctl_rep st w s" and "sp_shut s" and "msg_type m = SUBMIT"
  shows "\<exists>w' es rw' es'. controller_handle_message st m w = Some (0, st, w') \<and> ctl_rep st w' s \<and> events w' = events w @ es \<and>
    subseq (delivered es) [refusal (self_pid w) m] \<and> (sys_ok w \<longrightarrow> delivered es = [refusal (self_pid w) m]) \<and>
    runner_run_execute uid cmd [(int sizeof_RpcMessage, snd (refusal (self_pid w) m))] rw = Some (1, rw') \<and>
    children rw' = children rw \<and> events rw' = events rw @ es' \<and>
    subseq (delivered es') [(SERVER_FIFO_PATH, submit_of (self_pid rw) uid cmd)]"
proof -
  obtain es where e: "outputs w es (send_shutdown_ack_to_runner m w)" "sends w es [refusal (self_pid w) m] []"
    using send_shutdown_ack_outputs by blast
  have h: "controller_handle_message st m w = Some (0, st, send_shutdown_ack_to_runner m w)"
    using assms ctl_repD(8) [OF assms(1)] by (simp add: controller_handle_message_def)
  have ng: "\<not> granted [(int sizeof_RpcMessage, snd (refusal (self_pid w) m))]" by (simp add: granted_def refusal_def)
  obtain r rw' where r: "runner_run_execute uid cmd [(int sizeof_RpcMessage, snd (refusal (self_pid w) m))] rw = Some (r, rw')"
    "r = 1" "\<exists>prt. runner_idle rw [(SERVER_FIFO_PATH, submit_of (self_pid rw) uid cmd)] prt rw'"
    using ng by (rule_tac runner_run_execute_ok [of uid cmd "[(int sizeof_RpcMessage, snd (refusal (self_pid w) m))]" rw])
      (auto simp: execute_msgs_def)
  then obtain es' where "outputs rw es' rw'" "sends rw es' [(SERVER_FIFO_PATH, submit_of (self_pid rw) uid cmd)] []"
    by (auto simp: runner_idle_def)
  then show ?thesis using h e r(1,2) ctl_rep_outputs [OF e(1), of st s] assms(1) outputs_frame
    by (intro exI [of _ "send_shutdown_ack_to_runner m w"] exI [of _ es] exI [of _ rw'] exI [of _ es'])
      (auto simp: sends_def outputs_def)
qed

theorem refused_submission_not_executed_witness:
  "\<exists>st w s es. ctl_rep st w s \<and> sp_shut s \<and> (\<exists>w'. controller_handle_message st (submit_of 201 7 ''ls'') w = Some (0, st, w') \<and>
     events w' = events w @ es) \<and> delivered es = [refusal 100 (submit_of 201 7 ''ls'')]"
proof -
  let ?s = "(initial 1 ''fair'')\<lparr>sp_shut := True, sp_req := 300\<rparr>"
  obtain st w where w: "ctl_rep st w (initial 1 ''fair'')" "effect demo_world [] w" by (rule started_controller)
  have rep: "ctl_rep (st\<lparr>is_shutting_down := True, shutdown_requester_pid := 300\<rparr>) w ?s"
    using ctl_repD [OF w(1)] by (intro ctl_repI) (simp_all add: queues_rep_def users_rep_def)
  have env: "sys_ok w" "self_pid w = 100" using effect_cong [OF w(2)] by simp_all
  have "msg_type (submit_of 201 7 ''ls'') = SUBMIT" by (simp add: submit_of_def zero_msg_def)
  from refused_submission_not_executed [OF rep _ this, of 7 "''ls''" demo_runner] env rep show ?thesis by fastforce
qed

subsection \<open>Lost submissions\<close>

lemma nothing_delivered: "sends w es [] [] \<Longrightarrow> delivered es = []"
  by (auto simp: sends_def list_emb_Nil2)

text \<open>
  C35. A submission is lost when no memory is left. The handler then keeps both queues as they are and
  sends nothing at all: it only writes to its own error output, and the runner waits for an answer that
  nobody will send.
\<close>

theorem submission_without_memory_lost:
  assumes "ctl_rep st w s" and "msg_type m = SUBMIT" and "\<forall>t. \<not> malloc_ok w t" and "3 * (int (length (sp_users s)) + 1) < 2 ^ 31"
  shows "\<exists>st' w' us es. handle_submit st m w = Some (st', w') \<and> ctl_rep st' w' (s\<lparr>sp_users := us\<rparr>) \<and>
    events w' = events w @ es \<and> delivered es = [] \<and> (\<exists>t. last es = Err t)"
proof -
  let ?w1 = "w\<lparr>tick := Suc (tick w)\<rparr>"
  have o1: "outputs w [] ?w1" by (auto simp: outputs_def intro!: exI [of _ "Suc (tick w)"])
  have rep1: "ctl_rep st ?w1 s" using assms(1) by (simp add: ctl_rep_outputs [OF o1])
  note d1 = ctl_repD [OF rep1]
  obtain st2 w2 us where rem: "remember_fair_user st (msg_user_id m) ?w1 = Some (st2, w2)"
    and r: "remembers st ?w1 (sp_users s) (msg_user_id m) st2 w2 us"
    using remember_fair_user_ok [OF d1(2,3) assms(4)] by blast
  note rr = remembers_rep [OF rep1 r]
  from rr(3) obtain e2 where e2: "effect ?w1 e2 w2" "sends ?w1 e2 [] []" by blast
  note d2 = ctl_repD [OF rr(1)]
  obtain a b where q: "waiting_queue st2 = At a" "running_queue st2 = At b" using d2(1) by (rule queues_repE)
  let ?w3 = "w2\<lparr>tick := Suc (tick w2)\<rparr>"
  have "\<not> malloc_ok w2 (tick w2)" using assms(3) e2(1) by (simp add: effect_def)
  note nm = queue_enqueue_nomem [OF this]
  have rep3: "ctl_rep st2 (emit e ?w3) (s\<lparr>sp_users := us\<rparr>)" for e
  proof -
    have "outputs w2 ([] @ [e]) (emit e ?w3)" by (auto simp: outputs_def emit_def intro!: exI [of _ "Suc (tick w2)"])
    then show ?thesis using rr(1) by (simp add: ctl_rep_outputs)
  qed
  have ev: "events (emit e ?w3) = events w @ (e2 @ [e])" for e using e2(1) by (simp add: effect_def emit_def)
  have dl: "delivered (e2 @ [Err t]) = []" for t using nothing_delivered [OF e2(2)] by simp
  have "\<exists>t. handle_submit st m w = Some (st2, emit (Err t) ?w3)"
    using rem unfolding handle_submit_def gettimeofday_def Let_def by (auto simp: q nm)
  then show ?thesis using rep3 ev dl by (metis last_snoc)
qed

theorem submission_without_memory_lost_witness:
  "\<exists>st w st' w' us es. (\<forall>t. \<not> malloc_ok w t) \<and> handle_submit st (submit_of 201 7 ''ls'') w = Some (st', w') \<and>
     ctl_rep st' w' ((initial 1 ''fair'')\<lparr>sp_users := us\<rparr>) \<and> events w' = es \<and> delivered es = []"
proof -
  obtain st w where w: "ctl_rep st w (initial 1 ''fair'')" "effect demo_world [] w" by (rule started_controller)
  let ?w = "w\<lparr>malloc_ok := \<lambda>_. False\<rparr>"
  have "ctl_rep st ?w (initial 1 ''fair'')"
    using ctl_repD [OF w(1)] by (intro ctl_repI) (simp_all add: queues_rep_def store_def store_at_def)
  moreover have "msg_type (submit_of 201 7 ''ls'') = SUBMIT" by (simp add: submit_of_def zero_msg_def)
  moreover have "events ?w = []" using w(2) by (simp add: effect_def demo_world_def)
  moreover have nm: "\<forall>t. \<not> malloc_ok ?w t" by simp
  ultimately show ?thesis using submission_without_memory_lost [of st ?w "initial 1 ''fair''" "submit_of 201 7 ''ls''"] nm
    by (fastforce simp: initial_def)
qed

subsection \<open>Status queries\<close>

definition in_range :: "int \<Rightarrow> bool" where
  "in_range i \<longleftrightarrow> - (2 ^ 31) \<le> i \<and> i < 2 ^ 31"

lemma status_line_fits:
  assumes "in_range (user_id j)" and "in_range (command_id j)"
  shows "fit_buffer RPC_PAYLOAD_SIZE (status_line j) = status_line j"
  using assms length_fmt_d [of "user_id j"] length_fmt_d [of "command_id j"]
  by (simp add: in_range_def fit_buffer_def RPC_PAYLOAD_SIZE_def status_line_def)

lemma headers_fit: "fit_buffer RPC_PAYLOAD_SIZE executing_header = executing_header"
    "fit_buffer RPC_PAYLOAD_SIZE scheduled_header = scheduled_header"
  by (simp_all add: fit_buffer_def RPC_PAYLOAD_SIZE_def executing_header_def scheduled_header_def LF_def)

lemma status_shown_whole: "status_shown (map (\<lambda>x. (int sizeof_RpcMessage, snd x)) out) =
    map payload (filter (\<lambda>m. msg_type m = STATUS_RESP) (takeWhile (\<lambda>m. msg_type m \<noteq> STATUS_END) (map snd out)))"
proof -
  have tw: "takeWhile (\<lambda>r. fst r = int sizeof_RpcMessage) (map (\<lambda>x. (int sizeof_RpcMessage, snd x)) out) =
      map (\<lambda>x. (int sizeof_RpcMessage, snd x)) out"
    by (rule takeWhile_eq_all_conv [THEN iffD2]) auto
  show ?thesis unfolding status_shown_def tw by (simp add: comp_def)
qed

lemma status_shown_msgs:
  assumes "\<forall>j\<in>set rs \<union> set wl. in_range (user_id j) \<and> in_range (command_id j)"
  shows "status_shown (map (\<lambda>x. (int sizeof_RpcMessage, snd x)) (status_msgs pid m rs wl)) =
    [executing_header] @ map status_line rs @ [scheduled_header] @ map status_line wl"
proof -
  let ?n = "int sizeof_RpcMessage" and ?out = "status_msgs pid m rs wl"
  let ?ts = "[executing_header] @ map status_line rs @ [scheduled_header] @ map status_line wl"
  let ?fin = "zero_msg\<lparr>msg_type := STATUS_END, sender_pid := pid\<rparr>"
  have "status_shown (map (\<lambda>x. (?n, snd x)) ?out) =
      map payload (filter (\<lambda>m. msg_type m = STATUS_RESP) (takeWhile (\<lambda>m. msg_type m \<noteq> STATUS_END) (map (status_text pid) ?ts @ [?fin])))"
    unfolding status_shown_whole by (simp add: status_msgs_def comp_def)
  also have "takeWhile (\<lambda>m. msg_type m \<noteq> STATUS_END) (map (status_text pid) ?ts @ [?fin]) = map (status_text pid) ?ts"
    by (subst takeWhile_append2) (auto simp: status_text_def)
  also have "filter (\<lambda>m. msg_type m = STATUS_RESP) (map (status_text pid) ?ts) = map (status_text pid) ?ts"
    by (rule filter_True) (auto simp: status_text_def)
  also have "map payload (map (status_text pid) ?ts) = map (fit_buffer RPC_PAYLOAD_SIZE) ?ts"
    by (simp add: status_text_def comp_def)
  also have "\<dots> = ?ts" using assms by (simp add: headers_fit status_line_fits)
  finally show ?thesis .
qed

text \<open>
  C23. A status query shows the queues. When nothing fails, the controller answers a \<open>STATUS_REQ\<close> on the
  pipe of its sender only and keeps its state; \<open>runner -c\<close> reading this answer prints the header
  of the executing commands, one line for each of them in the order in which they started, the header of the
  scheduled ones and one line for each waiting job, in the order of submission, or for the fair policy in
  the order in which the users will be served.
\<close>

theorem status_query_shown:
  fixes rw :: runner_world
  assumes "ctl_rep st w s" and "msg_type m = STATUS_REQ" and "3 * int (length (sp_users s)) < 2 ^ 31"
    and "sys_ok w" and "\<not> may_fail w" and "sys_ok rw"
    and "\<forall>j\<in>set (sp_running s) \<union> set (sp_waiting s). in_range (user_id j) \<and> in_range (command_id j)"
    and "sp_policy s = ''fair'' \<longrightarrow> - 1 \<notin> user_id ` set (sp_waiting s)"
  shows "\<exists>w' es rw' es'. handle_status_req st m w = Some w' \<and> ctl_rep st w' s \<and> events w' = events w @ es \<and>
    (\<forall>x\<in>set (delivered es). fst x = runner_fifo (sender_pid m)) \<and>
    runner_run_status (map (\<lambda>x. (int sizeof_RpcMessage, snd x)) (delivered es)) rw = (0, rw') \<and> events rw' = events rw @ es' \<and>
    printed es' = [executing_header] @ map status_line (sp_running s) @ [scheduled_header] @
      map status_line (if sp_policy s = ''fair'' then fair_order (sp_users s) (sp_last s) (sp_waiting s) else sp_waiting s)"
proof -
  let ?wl = "if sp_policy s = ''fair'' then fair_order (sp_users s) (sp_last s) (sp_waiting s) else sp_waiting s"
  from handle_status_req_ok [OF assms(1-3)] obtain w' s' es out logs where
    1: "handle_status_req st m w = Some w'" "spec_msg False (self_pid w) s m out logs s'" "ctl_rep st w' s'"
      "effect w es w'" "sends w es out logs"
    using assms(5) by (cases "handle_status_req st m w") (auto simp: handler_ok_def)
  have "s' = s \<and> out = status_msgs (self_pid w) m (sp_running s) ?wl"
    using 1(2) assms(2,8) by (cases rule: spec_msg.cases) (auto simp: status_order_def split: if_splits)
  then have s': "s' = s" and out: "out = status_msgs (self_pid w) m (sp_running s) ?wl" by blast+
  have dl: "delivered es = out" using 1(5) assms(4) by (simp add: sends_def)
  have ev: "events w' = events w @ es" using 1(4) by (simp add: effect_def)
  have "set ?wl \<subseteq> set (sp_waiting s)" using arg_cong [OF mset_fair_order, of set_mset] by simp
  then have rng: "\<forall>j\<in>set (sp_running s) \<union> set ?wl. in_range (user_id j) \<and> in_range (command_id j)" using assms(7) by blast
  obtain r rw' es' where 2: "runner_run_status (map (\<lambda>x. (int sizeof_RpcMessage, snd x)) out) rw = (0, rw')"
    "outputs rw es' rw'" "printed es' = status_shown (map (\<lambda>x. (int sizeof_RpcMessage, snd x)) out)"
    using assms(6) by (rule_tac runner_run_status_ok [of "map (\<lambda>x. (int sizeof_RpcMessage, snd x)) out" rw]) (auto simp: runner_idle_def)
  have "\<forall>x\<in>set out. fst x = runner_fifo (sender_pid m)" unfolding out status_msgs_def by auto
  moreover have "events rw' = events rw @ es'" using 2(2) by (auto simp: outputs_def)
  moreover have "printed es' = [executing_header] @ map status_line (sp_running s) @ [scheduled_header] @ map status_line ?wl"
    unfolding 2(3) out by (rule status_shown_msgs [OF rng])
  ultimately show ?thesis using 1(1,3) 2(1) ev unfolding s' dl [symmetric] by blast
qed

text \<open>The controller with one command started and one waiting.\<close>

lemma submitting_controller:
  assumes rep: "ctl_rep st w s" and eff: "effect demo_world es w" and s: "length (sp_users s) < 9" "length (sp_waiting s) < 9" "sp_limit s = 1"
  obtains st' w' s' es' t where "ctl_rep st' w' s'" and "effect demo_world es' w'"
    and "s' = (if sp_running s = [] then s\<lparr>sp_users := add_user uid (sp_users s), sp_running := [started (job_of (submit_of pid uid cmd) t)], sp_last := uid\<rparr>
      else s\<lparr>sp_users := add_user uid (sp_users s), sp_waiting := sp_waiting s @ [job_of (submit_of pid uid cmd) t]\<rparr>)"
proof -
  let ?m = "submit_of pid uid cmd"
  have m: "msg_type ?m = SUBMIT" "msg_user_id ?m = uid" by (simp_all add: submit_of_def zero_msg_def)
  have env: "clock_ok w" "\<not> may_fail w" using eff demo_world_ok(2,4) effect_clock [OF eff] effect_cong [OF eff] by simp_all
  have "handler_ok w s ?m (handle_submit st ?m w)"
    by (rule handle_submit_ok [OF rep m(1) env(1)]) (use s in simp_all)
  then obtain st' w' s' es' out logs where h: "spec_msg False (self_pid w) s ?m out logs s'" "ctl_rep st' w' s'" "effect w es' w'"
    using env(2) by (auto simp: handler_ok_def)
  have ex: "\<exists>t. s' = (if sp_running s = [] then s\<lparr>sp_users := add_user uid (sp_users s), sp_running := [started (job_of ?m t)], sp_last := uid\<rparr>
      else s\<lparr>sp_users := add_user uid (sp_users s), sp_waiting := sp_waiting s @ [job_of ?m t]\<rparr>)"
  proof (cases "sp_running s")
    case Nil
    with h(1) show ?thesis by (cases rule: spec_msg.cases) (auto simp: users_after_def m s(3))
  next
    case (Cons j js)
    with h(1) show ?thesis by (cases rule: spec_msg.cases) (auto simp: users_after_def m s(3))
  qed
  from ex show thesis using that [OF h(2) effect_trans [OF eff h(3)]] by blast
qed

theorem status_query_shown_witness:
  "\<exists>st w w' es es' rw'. handle_status_req st (zero_msg\<lparr>msg_type := STATUS_REQ, sender_pid := 300\<rparr>) w = Some w' \<and> events w' = events w @ es \<and>
    runner_run_status (map (\<lambda>x. (int sizeof_RpcMessage, snd x)) (delivered es)) demo_runner = (0, rw') \<and> events rw' = es' \<and>
    printed es' = [executing_header, ''user-id 7 - command-id 201'' @ LF, scheduled_header, ''user-id 8 - command-id 202'' @ LF]"
proof -
  let ?m = "zero_msg\<lparr>msg_type := STATUS_REQ, sender_pid := 300\<rparr>" and ?s0 = "initial 1 ''fair''"
  obtain st0 w0 where 0: "ctl_rep st0 w0 ?s0" "effect demo_world [] w0" by (rule started_controller)
  obtain st1 w1 s1 e1 t1 where 1: "ctl_rep st1 w1 s1" "effect demo_world e1 w1"
    "s1 = ?s0\<lparr>sp_users := [7], sp_running := [started (job_of (submit_of 201 7 ''ls'') t1)], sp_last := 7\<rparr>"
    by (rule submitting_controller [OF 0, where uid = 7 and pid = 201 and cmd = "''ls''"]) (simp_all add: initial_def add_user_def)
  obtain st2 w2 s2 e2 t2 where 2: "ctl_rep st2 w2 s2" "effect demo_world e2 w2"
    "s2 = s1\<lparr>sp_users := [7, 8], sp_waiting := [job_of (submit_of 202 8 ''wc'') t2]\<rparr>"
    by (rule submitting_controller [OF 1(1,2), where uid = 8 and pid = 202 and cmd = "''wc''"]) (simp_all add: initial_def add_user_def 1(3))
  have env: "sys_ok w2" "\<not> may_fail w2" using effect_cong [OF 2(2)] by simp_all
  have r: "sp_running s2 = [started (job_of (submit_of 201 7 ''ls'') t1)]" "sp_waiting s2 = [job_of (submit_of 202 8 ''wc'') t2]"
    "sp_users s2 = [7, 8]" "sp_policy s2 = ''fair''" by (simp_all add: 1(3) 2(3) initial_def)
  have ids: "user_id (job_of (submit_of p u cmd) t) = u" "command_id (job_of (submit_of p u cmd) t) = p" for p u cmd t
    by (simp_all add: job_of_def submit_of_def zero_msg_def)
  have "mset (fair_order [7, 8] (sp_last s2) (sp_waiting s2)) = {#job_of (submit_of 202 8 ''wc'') t2#}" using mset_fair_order r(2) by simp
  then have fo: "fair_order [7, 8] (sp_last s2) (sp_waiting s2) = [job_of (submit_of 202 8 ''wc'') t2]" by simp
  have num: "fmt_d 7 = ''7''" "fmt_d 8 = ''8''" "fmt_d 201 = ''201''" "fmt_d 202 = ''202''" by code_simp+
  have ln: "status_line (started (job_of (submit_of 201 7 ''ls'') t1)) = ''user-id 7 - command-id 201'' @ LF"
    "status_line (job_of (submit_of 202 8 ''wc'') t2) = ''user-id 8 - command-id 202'' @ LF"
    unfolding status_line_def by (simp_all add: ids LF_def num)
  from status_query_shown [OF 2(1) _ _ env demo_runner_ok(1), of ?m, unfolded r if_P [OF refl] fo [unfolded r]]
  show ?thesis by (simp add: ids in_range_def ln demo_runner_def) blast
qed

end
