(* ===== verification/Queue_Theorems.thy ===== *)
theory Queue_Theorems
  imports Fair_Policy
begin

text \<open>
  The properties of the queue and of the fair policy, with instances at a concrete heap of one queue
  with three jobs.
\<close>

subsection \<open>A concrete heap\<close>

definition demo_job :: "int \<Rightarrow> int \<Rightarrow> job_info" where
  "demo_job uid cid = \<lparr>command_id = cid, user_id = uid, job_state = JOB_QUEUED, runner_pid = cid,
     start_time = \<lparr>tv_sec = 1000, tv_usec = 0\<rparr>\<rparr>"

definition queue_world :: world where
  "queue_world = \<lparr>tick = 0, malloc_ok = (\<lambda>_. True), rand_out = (\<lambda>_. 4), clock_out = (\<lambda>_. \<lparr>tv_sec = 1000, tv_usec = 0\<rparr>),
     sys_out = (\<lambda>_. 504), self_pid = 100, blocks = 0, open_fds = 3, events = [], fresh = 4,
     nodes = [1 \<mapsto> \<lparr>node_job = demo_job 1 11, node_next = At 2\<rparr>, 2 \<mapsto> \<lparr>node_job = demo_job 1 12, node_next = At 3\<rparr>,
       3 \<mapsto> \<lparr>node_job = demo_job 2 13, node_next = NULL\<rparr>],
     queues = [0 \<mapsto> \<lparr>q_head = At 1, q_tail = At 3, q_size = 3\<rparr>]\<rparr>"

definition demo_jobs :: "job_info list" where
  "demo_jobs = [demo_job 1 11, demo_job 1 12, demo_job 2 13]"

lemma length_demo_jobs [simp]: "length demo_jobs = 3"
  by (simp add: demo_jobs_def)

lemma queue_world_store [simp]: "store queue_world [0 \<mapsto> demo_jobs]"
proof -
  have "store_at queue_world (\<lambda>_. [(1, demo_job 1 11), (2, demo_job 1 12), (3, demo_job 2 13)]) [0 \<mapsto> demo_jobs]"
    by (rule store_atI) (auto simp: queue_world_def demo_jobs_def queue_rep_def tail_ptr_def)
  then show ?thesis by (auto simp: store_def)
qed

lemma queue_world_simps [simp]:
  "malloc_ok queue_world t" "tick queue_world = 0" "rand_out queue_world t = 4"
  by (simp_all add: queue_world_def)

subsection \<open>One operation\<close>

text \<open>
  Insertion. On a heap that represents queues, \<open>queue_enqueue\<close> succeeds exactly when \<open>malloc\<close> does;
  then the job stands at the end of its queue, and otherwise nothing has changed. Every other queue and
  everything outside the heap is as before.
\<close>

theorem enqueue_appends:
  assumes "store w m" and "m a = Some js" and "int (length js) + 1 < 2 ^ 31"
  shows "\<exists>w'. queue_enqueue (At a) (Var (Some j)) w = Some (malloc_ok w (tick w), w') \<and>
    store w' (m(a \<mapsto> if malloc_ok w (tick w) then js @ [j] else js)) \<and> env_eq w w'"
proof -
  have "m(a \<mapsto> js) = m" using assms(2) by (rule map_upd_triv)
  then show ?thesis by (cases rule: jq.enq_cases [OF assms, of j]) auto
qed

theorem enqueue_appends_witness:
  "\<exists>w'. queue_enqueue (At 0) (Var (Some (demo_job 3 14))) queue_world = Some (True, w') \<and>
    store w' [0 \<mapsto> demo_jobs @ [demo_job 3 14]]"
  using enqueue_appends [OF queue_world_store, of 0 demo_jobs "demo_job 3 14"] by (auto simp: demo_jobs_def)

text \<open>
  Removal from the front. \<open>queue_dequeue\<close> hands out the first job and leaves the rest in order; on an
  empty queue it answers false and changes nothing.
\<close>

theorem dequeue_takes_first:
  assumes "store w m" and "m a = Some js"
  shows "\<exists>w'. queue_dequeue (At a) (Var v) w =
      Some (js \<noteq> [], if js = [] then Var v else Var (Some (hd js)), w') \<and> store w' (m(a \<mapsto> tl js)) \<and> env_eq w w'"
proof (cases js)
  case Nil
  have "m(a \<mapsto> js) = m" using assms(2) by (rule map_upd_triv)
  then show ?thesis using queue_dequeue_empty [OF assms(1)] assms Nil by auto
next
  case (Cons j rest)
  then show ?thesis using queue_dequeue_ok [OF assms(1), of a j rest "Var v"] assms(2) by auto
qed

theorem dequeue_takes_first_witness:
  "\<exists>w'. queue_dequeue (At 0) (Var None) queue_world = Some (True, Var (Some (demo_job 1 11)), w') \<and>
    store w' [0 \<mapsto> [demo_job 1 12, demo_job 2 13]]"
  using dequeue_takes_first [OF queue_world_store, of 0 demo_jobs None] by (auto simp: demo_jobs_def)

text \<open>
  Random removal. \<open>queue_dequeue_random\<close> takes the job at position \<open>rand() mod n\<close> of the \<open>n\<close> jobs,
  whichever that is (also the first and the last one), and keeps the order of the others.
\<close>

theorem random_takes_drawn:
  assumes "store w m" and "m a = Some js"
  shows "\<exists>w'. let i = rand_out w (tick w) mod length js in
    queue_dequeue_random (At a) (Var v) w =
      Some (js \<noteq> [], if js = [] then Var v else Var (Some (js ! i)), w') \<and>
    store w' (m(a \<mapsto> take i js @ drop (Suc i) js)) \<and> env_eq w w'"
proof (cases "js = []")
  case True
  have "m(a \<mapsto> js) = m" using assms(2) by (rule map_upd_triv)
  then show ?thesis using queue_dequeue_random_empty [OF assms(1)] assms True by auto
next
  case False
  let ?i = "rand_out w (tick w) mod length js"
  have i: "?i < length js" using False by simp
  have js: "js = take ?i js @ js ! ?i # drop (Suc ?i) js" using id_take_nth_drop [OF i] .
  have "length (take ?i js) = rand_out w (tick w) mod length (take ?i js @ js ! ?i # drop (Suc ?i) js)"
    using i js by simp
  then show ?thesis
    using queue_dequeue_random_ok [OF assms(1), of a "take ?i js" "js ! ?i" "drop (Suc ?i) js" "Var v"] assms(2) js False
    by (auto simp: Let_def)
qed

theorem random_takes_drawn_witness:
  "\<exists>w'. queue_dequeue_random (At 0) (Var None) queue_world = Some (True, Var (Some (demo_job 1 12)), w') \<and>
    store w' [0 \<mapsto> [demo_job 1 11, demo_job 2 13]]"
  using random_takes_drawn [OF queue_world_store, of 0 demo_jobs None] by (auto simp: demo_jobs_def numeral_2_eq_2)

text \<open>
  Removal by command id. \<open>queue_remove_by_command_id\<close> takes out the first job with the id and only
  that one; when there is none it answers false and changes nothing.
\<close>

theorem remove_takes_matching:
  assumes "store w m" and "m a = Some js"
  shows "case split_first (\<lambda>j. command_id j = cid) js of
      None \<Rightarrow> queue_remove_by_command_id (At a) cid (Var v) w = Some (False, Var v, w)
    | Some (ys, j, zs) \<Rightarrow> js = ys @ j # zs \<and> command_id j = cid \<and> (\<forall>y\<in>set ys. command_id y \<noteq> cid) \<and>
        (\<exists>w'. queue_remove_by_command_id (At a) cid (Var v) w = Some (True, Var (Some j), w') \<and>
          store w' (m(a \<mapsto> ys @ zs)) \<and> env_eq w w')"
proof (cases "split_first (\<lambda>j. command_id j = cid) js")
  case None
  then show ?thesis using queue_remove_absent [OF assms] by simp
next
  case (Some r)
  obtain ys j zs where r: "r = (ys, j, zs)" by (cases r)
  from queue_remove_ok [OF assms, of "Var v" cid ys j zs] Some r split_first_SomeD [of "\<lambda>j. command_id j = cid" js ys j zs]
  show ?thesis by auto
qed

theorem remove_takes_matching_witness:
  "\<exists>w'. queue_remove_by_command_id (At 0) 13 (Var None) queue_world = Some (True, Var (Some (demo_job 2 13)), w') \<and>
    store w' [0 \<mapsto> [demo_job 1 11, demo_job 1 12]]"
  using remove_takes_matching [OF queue_world_store, of 0 demo_jobs 13 None] by (auto simp: demo_jobs_def demo_job_def)

text \<open>
  Copying. \<open>queue_copy_to_array\<close> writes the first \<open>max_size\<close> jobs, in order, into an array that has
  room for them, returns how many it wrote, and writes nothing beyond.
\<close>

theorem copy_prefix:
  assumes "store w m" and "m a = Some js" and "n \<le> length b"
  shows "\<exists>b'. queue_copy_to_array (At a) (Some b) (int n) w = Some (int (min n (length js)), Some b') \<and>
    take (min n (length js)) b' = map Some (take n js) \<and> length b' = length b"
  using queue_copy_to_array_ok [OF assms] by (auto simp: holds_def min.commute)

theorem copy_prefix_witness:
  "\<exists>b'. queue_copy_to_array (At 0) (Some (uninit 2)) 2 queue_world = Some (2, Some b') \<and>
    take 2 b' = [Some (demo_job 1 11), Some (demo_job 1 12)]"
  using copy_prefix [OF queue_world_store, of 0 demo_jobs 2 "uninit 2"] by (auto simp: demo_jobs_def)

subsection \<open>Sequences of operations\<close>

text \<open>
  The operations a client performs on one queue, in the order it performs them, and what they mean on a
  list: an insertion may be refused, a random removal takes any position.
\<close>

datatype queue_call = Enqueue job_info | Dequeue | Dequeue_random | Remove int

fun queue_op :: "queue_call \<Rightarrow> nat \<Rightarrow> world \<Rightarrow> (job_info option \<times> world) option" where
  "queue_op (Enqueue j) a w = do { (ok, w1) \<leftarrow> queue_enqueue (At a) (Var (Some j)) w; Some (if ok then Some j else None, w1) }"
| "queue_op Dequeue a w = picked (queue_dequeue (At a) (Var None) w)"
| "queue_op Dequeue_random a w = picked (queue_dequeue_random (At a) (Var None) w)"
| "queue_op (Remove cid) a w = picked (queue_remove_by_command_id (At a) cid (Var None) w)"

fun queue_ops :: "queue_call list \<Rightarrow> nat \<Rightarrow> world \<Rightarrow> (job_info option list \<times> world) option" where
  "queue_ops [] a w = Some ([], w)"
| "queue_ops (p # ps) a w = do {
     (r, w1) \<leftarrow> queue_op p a w;
     (rs, w2) \<leftarrow> queue_ops ps a w1;
     Some (r # rs, w2) }"

inductive list_op :: "queue_call \<Rightarrow> job_info list \<Rightarrow> job_info option \<Rightarrow> job_info list \<Rightarrow> bool" where
  enqueued: "list_op (Enqueue j) js (Some j) (js @ [j])"
| refused_full: "list_op (Enqueue j) js None js"
| dequeued: "list_op Dequeue (j # js) (Some j) js"
| drawn: "list_op Dequeue_random (ys @ j # zs) (Some j) (ys @ zs)"
| removed: "command_id j = cid \<Longrightarrow> \<forall>y\<in>set ys. command_id y \<noteq> cid \<Longrightarrow>
    list_op (Remove cid) (ys @ j # zs) (Some j) (ys @ zs)"
| absent: "\<forall>y\<in>set js. command_id y \<noteq> cid \<Longrightarrow> list_op (Remove cid) js None js"
| empty_front: "list_op Dequeue [] None []"
| empty_drawn: "list_op Dequeue_random [] None []"

inductive list_ops :: "queue_call list \<Rightarrow> job_info list \<Rightarrow> job_info option list \<Rightarrow> job_info list \<Rightarrow> bool" where
  ops_nil: "list_ops [] js [] js"
| ops_cons: "list_op p js r js1 \<Longrightarrow> list_ops ps js1 rs js2 \<Longrightarrow> list_ops (p # ps) js (r # rs) js2"

inductive_simps list_ops_simps [simp]: "list_ops [] js rs js'" "list_ops (p # ps) js rs js'"
inductive_cases list_op_cases: "list_op p js r js'"

lemma list_op_length: "list_op p js r js' \<Longrightarrow> length js' \<le> Suc (length js)"
  by (induction rule: list_op.induct) auto

lemma queue_op_refines:
  assumes st: "store w m" "m a = Some js" and len: "int (length js) + 1 < 2 ^ 31"
  obtains r w' js' where "queue_op p a w = Some (r, w')" and "list_op p js r js'" and "store w' (m(a \<mapsto> js'))" and "env_eq w w'"
proof (cases p)
  case (Enqueue j)
  have keep: "m(a \<mapsto> js) = m" using st(2) by (rule map_upd_triv)
  show thesis
  proof (cases rule: jq.enq_cases [OF st len, of j])
    case (1 w')
    then show thesis using that [of "Some j" w' "js @ [j]"] Enqueue by (simp add: list_op.intros)
  next
    case (2 w')
    then show thesis using that [of None w' js] Enqueue unfolding keep by (simp add: list_op.intros)
  qed
next
  case Dequeue
  show thesis
  proof (cases js)
    case Nil
    then show thesis using that [of None w "[]"] Dequeue fcfs.pick_none [OF st(1), of a] st map_upd_triv [of m a js, OF st(2)]
      by (auto simp: picked_def queue_dequeue_empty intro: list_op.intros)
  next
    case (Cons j rest)
    from queue_dequeue_ok [OF st(1), of a j rest "Var None"] st(2) Cons obtain w' where
      "queue_dequeue (At a) (Var None) w = Some (True, Var (Some j), w')" "store w' (m(a \<mapsto> rest))" "env_eq w w'" by auto
    then show thesis using that [of "Some j" w' rest] Dequeue Cons by (auto simp: picked_def intro: list_op.intros)
  qed
next
  case Dequeue_random
  show thesis
  proof (cases "js = []")
    case True
    then show thesis using that [of None w "[]"] Dequeue_random st map_upd_triv [of m a js, OF st(2)]
      by (auto simp: picked_def queue_dequeue_random_empty intro: list_op.intros)
  next
    case False
    from rnd.pick_some [OF st False] that Dequeue_random show thesis by (auto intro: list_op.intros)
  qed
next
  case (Remove cid)
  show thesis
  proof (cases "split_first (\<lambda>j. command_id j = cid) js")
    case None
    from split_first_None [THEN iffD1, OF None] show thesis
      using that [of None w js] Remove queue_remove_absent [OF st None] st(1) map_upd_triv [of m a js, OF st(2)]
      by (auto simp: picked_def intro: list_op.intros)
  next
    case (Some r)
    obtain ys j zs where r: "r = (ys, j, zs)" by (cases r)
    from queue_remove_ok [OF st, of "Var None" cid ys j zs] Some r obtain w' where
      "queue_remove_by_command_id (At a) cid (Var None) w = Some (True, Var (Some j), w')"
      "store w' (m(a \<mapsto> ys @ zs))" "env_eq w w'" by auto
    then show thesis using that [of "Some j" w' "ys @ zs"] Remove split_first_SomeD [of "\<lambda>j. command_id j = cid" js ys j zs] Some r
      by (auto simp: picked_def intro: list_op.intros)
  qed
qed

lemma queue_ops_refine:
  assumes "store w m" "m a = Some js" and "int (length js + length ps) < 2 ^ 31"
  obtains rs w' js' where "queue_ops ps a w = Some (rs, w')" and "list_ops ps js rs js'" and "store w' (m(a \<mapsto> js'))" and "env_eq w w'"
proof -
  have "\<exists>rs w' js'. queue_ops ps a w = Some (rs, w') \<and> list_ops ps js rs js' \<and> store w' (m(a \<mapsto> js')) \<and> env_eq w w'"
    using assms
  proof (induction ps arbitrary: w m js)
    case Nil
    have "m(a \<mapsto> js) = m" using Nil(2) by (rule map_upd_triv)
    then have "store w (m(a \<mapsto> js))" using Nil(1) by (simp only:)
    then show ?case by (blast intro: queue_ops.simps(1) ops_nil env_eq_refl)
  next
    case (Cons p ps)
    have len: "int (length js) + 1 < 2 ^ 31" using Cons.prems(3) by simp
    obtain r w1 js1 where 1: "queue_op p a w = Some (r, w1)" "list_op p js r js1" "store w1 (m(a \<mapsto> js1))" "env_eq w w1"
      by (rule queue_op_refines [OF Cons.prems(1,2) len])
    have "int (length js1 + length ps) < 2 ^ 31" using list_op_length [OF 1(2)] Cons.prems(3) by simp
    from Cons.IH [OF 1(3) fun_upd_same this] obtain rs w2 js2 where
      2: "queue_ops ps a w1 = Some (rs, w2)" "list_ops ps js1 rs js2" "store w2 (m(a \<mapsto> js2))" "env_eq w1 w2"
      unfolding fun_upd_upd by blast
    have "queue_ops (p # ps) a w = Some (r # rs, w2)" using 1(1) 2(1) by simp
    moreover have "list_ops (p # ps) js (r # rs) js2" using 1(2) 2(2) by auto
    ultimately show ?case using 2(3) env_eq_trans [OF 1(4) 2(4)] by blast
  qed
  with that show thesis by blast
qed



subsection \<open>The fair policy\<close>

text \<open>
  C25. Fair removal. When \<open>malloc\<close> succeeds, the job taken is the first one of the user whose turn it is:
  the first user with a waiting job in the circular order that starts after the user served last. When
  it fails, the job at the head is taken. In both cases the user of the job taken is recorded, and the
  order of the other jobs is kept.
\<close>

theorem fair_takes_turn:
  assumes "store w m" and "m a = Some js" and "js \<noteq> []" and "array_rep f fu" and "3 * int (length fu) < 2 ^ 31"
  shows "\<exists>ys j zs w'. js = ys @ j # zs \<and>
    queue_dequeue_fair (At a) f (int (length fu)) (Var (Some l)) (Var v) w =
      Some (True, Var (Some (user_id j)), Var (Some j), w') \<and>
    store w' (m(a \<mapsto> ys @ zs)) \<and> env_eq w w' \<and>
    (if malloc_ok w (tick w) then user_id j = fair_user fu l (users_of js) \<and> (\<forall>y\<in>set ys. user_id y \<noteq> user_id j)
     else ys = [])"
proof (cases "malloc_ok w (tick w)")
  case True
  obtain ys j zs where s: "split_first (\<lambda>j. user_id j = fair_user fu l (users_of js)) js = Some (ys, j, zs)"
    "js = ys @ j # zs" "user_id j = fair_user fu l (users_of js)" by (rule fair_split [OF assms(3)])
  have "\<forall>y\<in>set ys. user_id y \<noteq> user_id j" using split_first_SomeD [OF s(1)] unfolding s(3) by blast
  moreover from queue_dequeue_fair_ok [OF assms(1,2) True _ assms(4,5) s(1), of "Var v"] obtain w' where
    "queue_dequeue_fair (At a) f (int (length fu)) (Var (Some l)) (Var v) w =
      Some (True, Var (Some (user_id j)), Var (Some j), w')" "store w' (m(a \<mapsto> ys @ zs))" "env_eq w w'" by auto
  ultimately show ?thesis using s(2,3) True by (intro exI [of _ ys] exI [of _ j] exI [of _ zs] exI [of _ w'] conjI) simp_all
next
  case False
  obtain j zs where js: "js = j # zs" using assms(3) by (cases js) auto
  from queue_dequeue_fair_nomem [OF assms(1) assms(2) [unfolded js] False, of "Var v" f "int (length fu)" "Some l"]
  obtain w' where "queue_dequeue_fair (At a) f (int (length fu)) (Var (Some l)) (Var v) w =
      Some (True, Var (Some (user_id j)), Var (Some j), w')" "store w' (m(a \<mapsto> zs))" "env_eq w w'" by auto
  then show ?thesis using js False
    by (intro exI [of _ "[]"] exI [of _ j] exI [of _ zs] exI [of _ w'] conjI) simp_all
qed

theorem fair_takes_turn_witness:
  "\<exists>ys j zs w'. demo_jobs = ys @ j # zs \<and>
    queue_dequeue_fair (At 0) (Some [Some 1, Some 2]) 2 (Var (Some 1)) (Var None) queue_world =
      Some (True, Var (Some (user_id j)), Var (Some j), w')"
proof -
  have "array_rep (Some [Some 1, Some 2 :: int option]) [1, 2 :: int]" by (simp add: array_rep_def holds_def)
  from fair_takes_turn [OF queue_world_store, of 0 demo_jobs, OF _ _ this, of 1 None] show ?thesis
    by (auto simp: demo_jobs_def)
qed

text \<open>
  C26. The fair listing tells the truth. With memory, and when no waiting job has the user id -1, the list
  that \<open>queue_copy_fair_to_array\<close> writes is the sequence of jobs that as many calls of \<open>queue_dequeue_fair\<close>
  would take: two loops written separately, one that simulates and one that removes, agree. The copy
  frees its temporary arrays and leaves the queue as it is.
\<close>

theorem fair_listing_is_service_order:
  assumes "store w m" and "m a = Some js" and "\<forall>t. malloc_ok w t" and "- 1 \<notin> user_id ` set js"
    and "array_rep f fu" and "3 * int (length fu) < 2 ^ 31" and "0 < n" and "n \<le> length js" and "n \<le> length b"
  shows "\<exists>b' t served w'. queue_copy_fair_to_array (At a) (Some b) (int n) l f (int (length fu)) w =
      Some (int n, Some b', w\<lparr>tick := t\<rparr>) \<and>
    dequeue_fair_n n (At a) f (int (length fu)) l w = Some (served, w') \<and>
    length served = n \<and> take n b' = map Some served"
proof -
  have ne: "js \<noteq> []" using assms(7,8) by auto
  from queue_copy_fair_to_array_ok [OF assms(1,2,9) ne assms(7,5,6), of l] assms(3,4) obtain out b' t where
    c: "queue_copy_fair_to_array (At a) (Some b) (int n) l f (int (length fu)) w = Some (int (length out), Some b', w\<lparr>tick := t\<rparr>)"
      "holds b' out" "out = take n (fair_order fu l js)" by blast
  from dequeue_fair_n_ok [OF assms(1,2) assms(3) [rule_format] assms(5,6,8), of l] obtain w' where
    d: "dequeue_fair_n n (At a) f (int (length fu)) l w = Some (take n (fair_order fu l js), w')" by blast
  have "length out = n" using c(3) assms(8) by simp
  then show ?thesis using c d by (auto simp: holds_def)
qed

theorem fair_listing_is_service_order_witness:
  "\<exists>b' t served w'. queue_copy_fair_to_array (At 0) (Some (uninit 3)) 3 1 (Some [Some 1, Some 2]) 2 queue_world =
      Some (3, Some b', queue_world\<lparr>tick := t\<rparr>) \<and>
    dequeue_fair_n 3 (At 0) (Some [Some 1, Some 2]) 2 1 queue_world = Some (served, w') \<and> take 3 b' = map Some served"
proof -
  have "array_rep (Some [Some 1, Some 2 :: int option]) [1, 2 :: int]" by (simp add: array_rep_def holds_def)
  from fair_listing_is_service_order [OF queue_world_store, of 0 demo_jobs, OF _ _ _ this, of 3 "uninit 3" 1] show ?thesis
    by (auto simp: demo_jobs_def demo_job_def)
qed

text \<open>
  C39. Users with the id -1 break the fair listing. When it is the turn of a user whose id is -1, the loop
  of \<open>queue_copy_fair_to_array\<close> takes the id for its "no user" value and stops: it lists nothing although
  jobs are waiting, while \<open>queue_dequeue_fair\<close> would serve that user.
\<close>

theorem fair_listing_minus1:
  assumes "store w m" and "m a = Some js" and "js \<noteq> []" and "\<forall>t. malloc_ok w t" and "array_rep f fu"
    and "3 * int (length fu) < 2 ^ 31" and "0 < n" and "fair_user fu l (users_of js) = - 1"
  shows "\<exists>t j w'. queue_copy_fair_to_array (At a) (Some b) (int n) l f (int (length fu)) w = Some (0, Some b, w\<lparr>tick := t\<rparr>) \<and>
    j \<in> set js \<and> user_id j = - 1 \<and>
    queue_dequeue_fair (At a) f (int (length fu)) (Var (Some l)) (Var None) w = Some (True, Var (Some (- 1)), Var (Some j), w')"
proof -
  obtain ys j zs where s: "split_first (\<lambda>j. user_id j = fair_user fu l (users_of js)) js = Some (ys, j, zs)"
    "js = ys @ j # zs" "user_id j = fair_user fu l (users_of js)" by (rule fair_split [OF assms(3)])
  from queue_dequeue_fair_ok [OF assms(1,2) assms(4) [rule_format] _ assms(5,6) s(1), of "Var None"] obtain w' where
    "queue_dequeue_fair (At a) f (int (length fu)) (Var (Some l)) (Var None) w = Some (True, Var (Some (- 1)), Var (Some j), w')"
    using s(3) assms(8) by auto
  moreover obtain t where "queue_copy_fair_to_array (At a) (Some b) (int n) l f (int (length fu)) w = Some (0, Some b, w\<lparr>tick := t\<rparr>)"
    using queue_copy_fair_to_array_minus1 [OF assms(1-3,7,5,6) assms(4) [rule_format] assms(8), of b] by blast
  moreover have "j \<in> set js" "user_id j = - 1" using s(2,3) assms(8) by simp_all
  ultimately show ?thesis by blast
qed

definition minus1_world :: world where
  "minus1_world = queue_world\<lparr>nodes := [1 \<mapsto> \<lparr>node_job = demo_job (- 1) 11, node_next = NULL\<rparr>],
     queues := [0 \<mapsto> \<lparr>q_head = At 1, q_tail = At 1, q_size = 1\<rparr>]\<rparr>"

lemma minus1_world_store: "store minus1_world [0 \<mapsto> [demo_job (- 1) 11]]"
proof -
  have "store_at minus1_world (\<lambda>_. [(1, demo_job (- 1) 11)]) [0 \<mapsto> [demo_job (- 1) 11]]"
    by (rule store_atI) (auto simp: minus1_world_def queue_world_def queue_rep_def tail_ptr_def)
  then show ?thesis by (auto simp: store_def)
qed

theorem fair_listing_minus1_witness:
  "\<exists>t. queue_copy_fair_to_array (At 0) (Some (uninit 1)) 1 7 (Some [Some (- 1)]) 1 minus1_world =
    Some (0, Some (uninit 1), minus1_world\<lparr>tick := t\<rparr>)"
proof -
  have a: "array_rep (Some [Some (- 1 :: int)]) [- 1 :: int]" by (simp add: array_rep_def holds_def)
  have u: "fair_user [- 1] 7 (users_of [demo_job (- 1) 11]) = - 1"
    by (simp add: users_of_def demo_job_def add_user_def fair_user_def after_user_def)
  from fair_listing_minus1 [OF minus1_world_store _ _ _ a _ _ u, of 0 1 "uninit 1"] show ?thesis
    by (auto simp: minus1_world_def)
qed

lemma subseq_set: "subseq xs ys \<Longrightarrow> set xs \<subseteq> set ys"
  by (induction rule: list_emb.induct) auto

lemma distinct_subseq: "subseq xs ys \<Longrightarrow> distinct ys \<Longrightarrow> distinct xs"
  by (induction rule: list_emb.induct) (auto dest: subseq_set)

text \<open>
  C24. Bounded waiting under the fair policy. While no new job arrives, a user with a waiting job is
  served after at most one job of each other known user: no user is served twice before.
\<close>

theorem fair_bounded_waiting:
  assumes "store w m" and "m a = Some js" and "\<forall>t. malloc_ok w t" and "array_rep f fu"
    and "3 * int (length fu) < 2 ^ 31" and "distinct fu" and "u \<in> set fu" and "u \<in> user_id ` set js"
  shows "\<exists>served w' i. dequeue_fair_n (length js) (At a) f (int (length fu)) l w = Some (served, w') \<and>
    mset served = mset js \<and> i < length served \<and> user_id (served ! i) = u \<and>
    i < length fu \<and> distinct (map user_id (take (Suc i) served))"
proof -
  from dequeue_fair_n_ok [OF assms(1,2) assms(3) [rule_format] assms(4,5) order_refl, of l] obtain w' where
    d: "dequeue_fair_n (length js) (At a) f (int (length fu)) l w = Some (fair_order fu l js, w')" by auto
  obtain i where i: "i < length js" "user_id (fair_order fu l js ! i) = u"
    "subseq (map user_id (take i (fair_order fu l js))) (takeWhile (\<lambda>v. v \<noteq> u) (after_user l fu))"
    using fair_order_wait [OF assms(6-8), of l] by blast
  let ?p = "map user_id (take i (fair_order fu l js))" and ?t = "takeWhile (\<lambda>v. v \<noteq> u) (after_user l fu)"
  have dt: "distinct ?t" using assms(6) by (simp add: distinct_takeWhile)
  have ut: "u \<notin> set ?t" by (auto dest: set_takeWhileD)
  have sub: "set ?p \<subseteq> set ?t" "distinct ?p" using subseq_set [OF i(3)] distinct_subseq [OF i(3) dt] by simp_all
  have "card (set ?t) < card (set (after_user l fu))"
    using ut assms(7) by (intro psubset_card_mono) (auto dest: set_takeWhileD)
  moreover have "length ?p \<le> length ?t" using i(3) by (rule list_emb_length)
  moreover have "card (set (after_user l fu)) = length fu" using assms(6) distinct_card by simp
  ultimately have "i < length fu" using i(1) distinct_card [OF dt] by simp
  moreover have "map user_id (take (Suc i) (fair_order fu l js)) = ?p @ [u]" using i(1,2) by (simp add: take_Suc_conv_app_nth)
  then have "distinct (map user_id (take (Suc i) (fair_order fu l js)))" using sub ut by auto
  ultimately show ?thesis using d i(1,2) mset_fair_order [of fu l js] by auto
qed

theorem fair_bounded_waiting_witness:
  "\<exists>served w' i. dequeue_fair_n 3 (At 0) (Some [Some 1, Some 2]) 2 2 queue_world = Some (served, w') \<and>
    i < 2 \<and> user_id (served ! i) = 2"
proof -
  have "array_rep (Some [Some 1, Some 2 :: int option]) [1, 2 :: int]" by (simp add: array_rep_def holds_def)
  from fair_bounded_waiting [OF queue_world_store, of 0 demo_jobs, OF _ _ this, of 2 2] show ?thesis
    by (auto simp del: dequeue_fair_n.simps) (force simp: demo_jobs_def demo_job_def)
qed

end
