(* ===== verification/System.thy ===== *)
theory System
  imports Spec_Properties Runner_Correct
begin

text \<open>
  The controller and any number of runners together. The pipes hold the messages not yet read; a runner
  is in one of the phases of its protocol; the steps are those of the two programs at the granularity
  of their messages, in any interleaving. The number of running programs, the absence of deadlocks and
  the termination of all submissions are properties of the composition only.
\<close>

subsection \<open>States and steps\<close>

text \<open>
  \<open>Submitted\<close>: has written \<open>SUBMIT\<close> and waits for the answer. \<open>Executing m\<close>: runs its command after the
  authorisation \<open>m\<close>. \<open>Stopping\<close>: has written \<open>SHUTDOWN_REQ\<close> and waits.
\<close>

datatype phase = Absent | Submitted | Executing RpcMessage | Stopping | Finished

record system =
  ctl :: spec
  pipes :: "string \<Rightarrow> RpcMessage list"
  phase :: "int \<Rightarrow> phase"

definition deliver :: "sent list \<Rightarrow> (string \<Rightarrow> RpcMessage list) \<Rightarrow> string \<Rightarrow> RpcMessage list" where
  "deliver out P = (\<lambda>path. P path @ map snd (filter (\<lambda>x. fst x = path) out))"

definition pid_ok :: "int \<Rightarrow> bool" where
  "pid_ok p \<longleftrightarrow> 0 < p \<and> p < 2 ^ 31"

definition shutdown_of :: "int \<Rightarrow> RpcMessage" where
  "shutdown_of p = zero_msg\<lparr>msg_type := SHUTDOWN_REQ, sender_pid := p\<rparr>"

text \<open>
  A user starts a runner. One that only queries the status (or is given wrong arguments) takes no part in the
  protocol of the jobs: its messages change nothing in the controller and are not those of the system.
\<close>

inductive user_step :: "system \<Rightarrow> system \<Rightarrow> bool" where
  user_submits: "phase S p = Absent \<Longrightarrow> pid_ok p \<Longrightarrow>
    user_step S (S\<lparr>pipes := deliver [(SERVER_FIFO_PATH, submit_of p uid cmd)] (pipes S), phase := (phase S)(p := Submitted)\<rparr>)"
| user_stops: "phase S p = Absent \<Longrightarrow> pid_ok p \<Longrightarrow>
    user_step S (S\<lparr>pipes := deliver [(SERVER_FIFO_PATH, shutdown_of p)] (pipes S), phase := (phase S)(p := Stopping)\<rparr>)"
| user_looks: "phase S p = Absent \<Longrightarrow> pid_ok p \<Longrightarrow> user_step S (S\<lparr>phase := (phase S)(p := Finished)\<rparr>)"

text \<open>The programs go on: the controller handles a message, a runner reads its answer or reports.\<close>

inductive sys_step :: "int \<Rightarrow> system \<Rightarrow> system \<Rightarrow> bool" for cpid :: int where
  sys_serve: "\<not> sp_stop (ctl S) \<Longrightarrow> pipes S SERVER_FIFO_PATH = m # ms \<Longrightarrow> spec_step False cpid (ctl S) m out logs s' \<Longrightarrow>
    sys_step cpid S (S\<lparr>ctl := s', pipes := deliver out ((pipes S)(SERVER_FIFO_PATH := ms))\<rparr>)"
| sys_start: "phase S p = Submitted \<Longrightarrow> pid_ok p \<Longrightarrow> pipes S (runner_fifo p) = m # ms \<Longrightarrow> msg_type m = ACK \<Longrightarrow>
    sys_step cpid S (S\<lparr>pipes := (pipes S)(runner_fifo p := ms), phase := (phase S)(p := Executing m)\<rparr>)"
| sys_refuse: "phase S p = Submitted \<Longrightarrow> pid_ok p \<Longrightarrow> pipes S (runner_fifo p) = m # ms \<Longrightarrow> msg_type m \<noteq> ACK \<Longrightarrow>
    sys_step cpid S (S\<lparr>pipes := (pipes S)(runner_fifo p := ms), phase := (phase S)(p := Finished)\<rparr>)"
| sys_report: "phase S p = Executing m \<Longrightarrow> pid_ok p \<Longrightarrow>
    sys_step cpid S (S\<lparr>pipes := deliver [(SERVER_FIFO_PATH, done_of p m)] (pipes S), phase := (phase S)(p := Finished)\<rparr>)"
| sys_stopped: "phase S p = Stopping \<Longrightarrow> pid_ok p \<Longrightarrow> pipes S (runner_fifo p) = m # ms \<Longrightarrow> msg_type m = SHUTDOWN_ACK \<Longrightarrow>
    sys_step cpid S (S\<lparr>pipes := (pipes S)(runner_fifo p := ms), phase := (phase S)(p := Finished)\<rparr>)"

definition sys_init :: "int \<Rightarrow> string \<Rightarrow> system" where
  "sys_init lim pol = \<lparr>ctl = initial lim pol, pipes = (\<lambda>_. []), phase = (\<lambda>_. Absent)\<rparr>"

inductive reach :: "int \<Rightarrow> int \<Rightarrow> string \<Rightarrow> system \<Rightarrow> bool" for cpid lim :: int and pol :: string where
  reach_init: "reach cpid lim pol (sys_init lim pol)"
| reach_user: "reach cpid lim pol S \<Longrightarrow> user_step S S' \<Longrightarrow> reach cpid lim pol S'"
| reach_sys: "reach cpid lim pol S \<Longrightarrow> sys_step cpid S S' \<Longrightarrow> reach cpid lim pol S'"

inductive_cases user_step_cases: "user_step S S'"
inductive_cases sys_step_cases: "sys_step cpid S S'"

subsection \<open>The controller can always go on\<close>

lemma promotes_total: "\<exists>js s'. promotes False s js s'"
proof (induction "length (sp_waiting s)" arbitrary: s rule: less_induct)
  case less
  show ?case
  proof (cases "sp_limit s \<le> int (length (sp_running s)) \<or> sp_waiting s = []")
    case True
    then show ?thesis by (blast intro: promote_stop)
  next
    case False
    have "\<exists>ys j zs. may_pick False s ys j zs"
    proof (cases "sp_policy s = ''fair''")
      case True
      obtain ys j zs where f: "split_first (\<lambda>j. user_id j = fair_user (sp_users s) (sp_last s) (users_of (sp_waiting s))) (sp_waiting s) = Some (ys, j, zs)"
        by (rule fair_split [of "sp_waiting s"]) (use False in auto)
      from split_first_SomeD [OF f] have "sp_waiting s = ys @ j # zs" and
        u: "user_id j = fair_user (sp_users s) (sp_last s) (users_of (sp_waiting s))"
           "\<forall>y\<in>set ys. user_id y \<noteq> fair_user (sp_users s) (sp_last s) (users_of (sp_waiting s))" by blast+
      moreover from u have "\<forall>y\<in>set ys. user_id y \<noteq> user_id j" by metis
      ultimately have "may_pick False s ys j zs" unfolding may_pick_def using True by simp
      then show ?thesis by blast
    next
      case fair: False
      obtain j zs where "sp_waiting s = j # zs" using False by (cases "sp_waiting s") auto
      with fair show ?thesis by (intro exI [of _ "[]"] exI [of _ j] exI [of _ zs]) (simp add: may_pick_def)
    qed
    then obtain ys j zs where p: "may_pick False s ys j zs" by blast
    let ?s1 = "s\<lparr>sp_waiting := ys @ zs, sp_running := sp_running s @ [started j], sp_last := user_id j\<rparr>"
    have "length (sp_waiting ?s1) < length (sp_waiting s)" using may_pick_waiting [OF p] by simp
    from less [OF this] obtain js s' where "promotes False ?s1 js s'" by blast
    with p False show ?thesis by (intro exI [of _ "started j # js"] exI [of _ s'] promote_start) auto
  qed
qed

lemma sane_time_0: "sane_time \<lparr>tv_sec = 0, tv_usec = 0\<rparr>"
  by (simp add: sane_time_def)

lemma spec_step_total:
  assumes "spec_inv s"
  shows "\<exists>out logs s'. spec_step False pid s m out logs s'"
proof (cases "msg_type m = SUBMIT \<and> sp_shut s")
  case True
  then show ?thesis by (blast intro: refused)
next
  case False
  have "\<exists>out logs s'. spec_msg False pid s m out logs s'"
  proof -
    have ua: "users_after False s (msg_user_id m) (add_user (msg_user_id m) (sp_users s))" by (simp add: users_after_def)
    consider "msg_type m = SUBMIT" "int (length (sp_running s)) < sp_limit s" | "msg_type m = SUBMIT" "sp_limit s \<le> int (length (sp_running s))"
      | "msg_type m = DONE" "split_first (\<lambda>j. command_id j = msg_command_id m) (sp_running s) = None"
      | ys j zs where "msg_type m = DONE" "split_first (\<lambda>j. command_id j = msg_command_id m) (sp_running s) = Some (ys, j, zs)"
      | "msg_type m = STATUS_REQ" | "msg_type m = SHUTDOWN_REQ" | "msg_type m \<notin> {SUBMIT, DONE, STATUS_REQ, SHUTDOWN_REQ}"
      by (cases "msg_type m"; cases "split_first (\<lambda>j. command_id j = msg_command_id m) (sp_running s)"; fastforce simp: not_less)
    then show ?thesis
    proof cases
      case 1
      then show ?thesis using ua sane_time_0 by (blast intro: submit_started)
    next
      case 2
      then show ?thesis using ua sane_time_0 by (blast intro: submit_queued)
    next
      case 3
      then show ?thesis using promotes_total [of s] by (blast intro: done_unknown)
    next
      case (4 ys j zs)
      have "sane_time (start_time j)" using split_first_SomeD [OF 4(2)] assms by (auto simp: spec_inv_def)
      then obtain ms where "elapsed_ms (start_time j) \<lparr>tv_sec = 0, tv_usec = 0\<rparr> = Some ms"
        using elapsed_ms_sane [OF _ sane_time_0] by blast
      then show ?thesis using 4 sane_time_0 promotes_total [of "s\<lparr>sp_running := ys @ zs\<rparr>"] by (blast intro: done_known)
    next
      case 5
      have "status_order False s (if sp_policy s = ''fair'' then fair_order (sp_users s) (sp_last s) (sp_waiting s) else sp_waiting s)"
        by (simp add: status_order_def)
      with 5 show ?thesis by (blast intro: status_sent)
    qed (blast intro: shutdown_requested other_ignored)+
  qed
  then obtain out logs s1 where "spec_msg False pid s m out logs s1" by blast
  with False show ?thesis by (cases "finish s1") (blast intro: handled)
qed

subsection \<open>Who has which message and which job\<close>

definition njobs :: "int \<Rightarrow> job_info list \<Rightarrow> nat" where
  "njobs p js = length (filter (\<lambda>j. command_id j = p) js)"

definition nmail :: "MsgType \<Rightarrow> int \<Rightarrow> RpcMessage list \<Rightarrow> nat" where
  "nmail t p ms = length (filter (\<lambda>m. msg_type m = t \<and> msg_command_id m = p) ms)"

lemma njobs_simps [simp]: "njobs p [] = 0" "njobs p (j # js) = (if command_id j = p then Suc (njobs p js) else njobs p js)"
    "njobs p (js @ js') = njobs p js + njobs p js'"
  by (simp_all add: njobs_def)

lemma nmail_simps [simp]: "nmail t p [] = 0"
    "nmail t p (m # ms) = (if msg_type m = t \<and> msg_command_id m = p then Suc (nmail t p ms) else nmail t p ms)"
    "nmail t p (ms @ ms') = nmail t p ms + nmail t p ms'"
  by (simp_all add: nmail_def)

definition job_ok :: "job_info \<Rightarrow> bool" where
  "job_ok j \<longleftrightarrow> pid_ok (command_id j) \<and> runner_pid j = command_id j"

definition jobs_ok :: "spec \<Rightarrow> bool" where
  "jobs_ok s \<longleftrightarrow> (\<forall>j\<in>set (sp_waiting s) \<union> set (sp_running s). job_ok j)"

lemma job_ok_started [simp]: "job_ok (started j) = job_ok j"
  by (simp add: job_ok_def)

text \<open>The part of the output that goes to runner \<open>p\<close>.\<close>

definition sent_to :: "int \<Rightarrow> sent list \<Rightarrow> RpcMessage list" where
  "sent_to p out = map snd (filter (\<lambda>x. fst x = runner_fifo p) out)"

lemma sent_to_simps [simp]: "sent_to p [] = []" "sent_to p (out @ out') = sent_to p out @ sent_to p out'"
    "sent_to p (x # out) = (if fst x = runner_fifo p then snd x # sent_to p out else sent_to p out)"
  by (simp_all add: sent_to_def)

lemma fifo_server [simp]: "runner_fifo p \<noteq> SERVER_FIFO_PATH" "SERVER_FIFO_PATH \<noteq> runner_fifo p"
  using runner_fifo_not_server [of p] by auto

lemma fifo_inj: "pid_ok p \<Longrightarrow> pid_ok q \<Longrightarrow> runner_fifo p = runner_fifo q \<longleftrightarrow> p = q"
  using runner_fifo_untruncated [of p] runner_fifo_untruncated [of q] by (auto simp: pid_ok_def fmt_d_inj)

lemma deliver_box: "deliver out P (runner_fifo p) = P (runner_fifo p) @ sent_to p out"
  by (simp add: deliver_def sent_to_def)

lemma sent_to_acks:
  assumes "\<forall>j\<in>set js. job_ok j" and "pid_ok p"
  shows "sent_to p (map (ack c) js) = map (snd \<circ> ack c) (filter (\<lambda>j. command_id j = p) js)"
  using assms by (induction js) (auto simp: ack_def job_ok_def fifo_inj)

lemma njobs_key: "njobs p js = count (image_mset (\<lambda>k. fst (snd k)) (mset (map job_key js))) p"
  by (induction js) (auto simp: job_key_def)

lemma promotes_jobs:
  assumes pr: "promotes False s js s'" and ok: "jobs_ok s"
  shows "njobs p (sp_waiting s) = njobs p js + njobs p (sp_waiting s')"
    and "njobs p (sp_running s') = njobs p (sp_running s) + njobs p js"
    and "\<forall>j\<in>set js. job_ok j" and "jobs_ok s'"
proof -
  note k = promotes_keys [OF pr] and r = promotes_running [OF pr]
  show "njobs p (sp_waiting s) = njobs p js + njobs p (sp_waiting s')" unfolding njobs_key k by simp
  show "njobs p (sp_running s') = njobs p (sp_running s) + njobs p js" unfolding r by simp
  define K :: "int \<times> int \<times> int \<Rightarrow> bool" where "K = (\<lambda>(u, c, r). pid_ok c \<and> r = c)"
  have key: "job_ok j \<longleftrightarrow> K (job_key j)" for j by (simp add: job_ok_def job_key_def K_def)
  have eq: "job_key ` set (sp_waiting s) = job_key ` set js \<union> job_key ` set (sp_waiting s')"
    using arg_cong [OF k, of set_mset] by simp
  have "\<forall>x\<in>job_key ` set (sp_waiting s). K x" using ok key by (auto simp: jobs_ok_def)
  then have a: "\<forall>j\<in>set js \<union> set (sp_waiting s'). job_ok j" unfolding eq using key by auto
  then show "\<forall>j\<in>set js. job_ok j" by simp
  show "jobs_ok s'" using a ok by (auto simp: jobs_ok_def r)
qed

text \<open>
  What runner \<open>p\<close> may own in its phase: \<open>a\<close> submissions and \<open>d\<close> reports on the way, \<open>w\<close> waiting and \<open>r\<close>
  running jobs, and the answers \<open>b\<close> not yet read.
\<close>

fun own :: "bool \<Rightarrow> int \<Rightarrow> phase \<Rightarrow> nat \<Rightarrow> nat \<Rightarrow> nat \<Rightarrow> nat \<Rightarrow> RpcMessage list \<Rightarrow> bool" where
  "own stop p Absent a d w r b \<longleftrightarrow> a = 0 \<and> d = 0 \<and> w = 0 \<and> r = 0 \<and> b = []"
| "own stop p Submitted a d w r b \<longleftrightarrow> d = 0 \<and>
     (a = 1 \<and> w = 0 \<and> r = 0 \<and> b = [] \<or> a = 0 \<and> w = 1 \<and> r = 0 \<and> b = [] \<or>
      a = 0 \<and> w = 0 \<and> r = 1 \<and> (\<exists>m. b = [m] \<and> msg_type m = ACK \<and> msg_command_id m = p) \<or>
      a = 0 \<and> w = 0 \<and> r = 0 \<and> (\<exists>m. b = [m] \<and> msg_type m = SHUTDOWN_ACK))"
| "own stop p (Executing m) a d w r b \<longleftrightarrow> msg_command_id m = p \<and> a = 0 \<and> d = 0 \<and> w = 0 \<and> r = 1 \<and> b = []"
| "own stop p Stopping a d w r b \<longleftrightarrow> a = 0 \<and> d = 0 \<and> w = 0 \<and> r = 0 \<and>
     (b = [] \<or> stop \<and> (\<exists>m. b = [m] \<and> msg_type m = SHUTDOWN_ACK))"
| "own stop p Finished a d w r b \<longleftrightarrow> a = 0 \<and> w = 0 \<and> r = d \<and> d \<le> 1 \<and> b = []"

abbreviation mail :: "system \<Rightarrow> RpcMessage list" where
  "mail S \<equiv> pipes S SERVER_FIFO_PATH"

abbreviation box :: "int \<Rightarrow> system \<Rightarrow> RpcMessage list" where
  "box p S \<equiv> pipes S (runner_fifo p)"

definition owns :: "system \<Rightarrow> int \<Rightarrow> bool" where
  "owns S p \<longleftrightarrow> own (sp_stop (ctl S)) p (phase S p) (nmail SUBMIT p (mail S)) (nmail DONE p (mail S))
     (njobs p (sp_waiting (ctl S))) (njobs p (sp_running (ctl S))) (box p S)"

definition mail_ok :: "system \<Rightarrow> RpcMessage \<Rightarrow> bool" where
  "mail_ok S m \<longleftrightarrow> (msg_type m = SUBMIT \<and> pid_ok (msg_command_id m) \<and> sender_pid m = msg_command_id m) \<or>
     (msg_type m = DONE \<and> pid_ok (msg_command_id m)) \<or>
     (msg_type m = SHUTDOWN_REQ \<and> pid_ok (sender_pid m) \<and> (sp_stop (ctl S) \<or> phase S (sender_pid m) = Stopping))"

definition sys_inv :: "system \<Rightarrow> bool" where
  "sys_inv S \<longleftrightarrow> spec_inv (ctl S) \<and> busy (ctl S) \<and> stop_inv (ctl S) \<and> jobs_ok (ctl S) \<and>
     (\<forall>p. pid_ok p \<longrightarrow> owns S p) \<and> (\<forall>p. phase S p \<noteq> Absent \<longrightarrow> pid_ok p) \<and> (\<forall>m\<in>set (mail S). mail_ok S m) \<and>
     (sp_shut (ctl S) \<and> \<not> sp_stop (ctl S) \<longrightarrow> pid_ok (sp_req (ctl S)) \<and> phase S (sp_req (ctl S)) = Stopping)"

lemma sys_init_inv: "0 < lim \<Longrightarrow> sys_inv (sys_init lim pol)"
  by (simp add: sys_inv_def sys_init_def initial_inv jobs_ok_def owns_def) (simp add: initial_def)

text \<open>Starting jobs keeps what each runner owns in order.\<close>

lemma own_promote:
  assumes own: "own stop p ph a d w r b" and pr: "promotes False s js s'" and ok: "jobs_ok s" and p: "pid_ok p"
    and w: "w = njobs p (sp_waiting s)" and r: "r = njobs p (sp_running s)"
  shows "own stop p ph a d (njobs p (sp_waiting s')) (njobs p (sp_running s')) (b @ sent_to p (map (ack c) js))"
proof -
  note j = promotes_jobs [OF pr ok]
  note st = sent_to_acks [OF j(3) p, of c]
  have "w \<le> 1" using own by (cases ph) auto
  then have "njobs p js \<le> 1" using j(1) w by (metis le_add1 order_trans)
  then consider "filter (\<lambda>j. command_id j = p) js = []" | x where "filter (\<lambda>j. command_id j = p) js = [x]"
    by (cases "filter (\<lambda>j. command_id j = p) js") (auto simp: njobs_def)
  then show ?thesis
  proof cases
    case 1
    then have "njobs p js = 0" by (simp add: njobs_def)
    then have e: "njobs p (sp_waiting s') = w" "njobs p (sp_running s') = r" using j(1,2) [of p] w r by simp_all
    show ?thesis using own unfolding e st 1 by simp
  next
    case (2 x)
    then have one: "njobs p js = 1" by (simp add: njobs_def)
    then have "ph = Submitted" using own j(1) [of p] w by (cases ph) auto
    moreover have "command_id x = p" using filter_eq_ConsD [OF 2] by auto
    ultimately show ?thesis using own j(1,2) [of p] w r one unfolding st 2 by (auto simp: ack_def)
  qed
qed

subsection \<open>Every step keeps the invariant\<close>

definition to_runners :: "sent list \<Rightarrow> bool" where
  "to_runners out \<longleftrightarrow> (\<forall>x\<in>set out. fst x \<noteq> SERVER_FIFO_PATH)"

lemma to_runners_simps [simp]: "to_runners []" "to_runners (x # out) \<longleftrightarrow> fst x \<noteq> SERVER_FIFO_PATH \<and> to_runners out"
    "to_runners (map (ack c) js)"
  by (auto simp: to_runners_def ack_def runner_fifo_not_server)

text \<open>The state after the controller has taken the first message of its pipe.\<close>

definition serve_state :: "system \<Rightarrow> RpcMessage list \<Rightarrow> sent list \<Rightarrow> spec \<Rightarrow> system" where
  "serve_state S ms out s' = S\<lparr>ctl := s', pipes := deliver out ((pipes S)(SERVER_FIFO_PATH := ms))\<rparr>"

lemma serve_state_simps [simp]:
  "ctl (serve_state S ms out s') = s'" "phase (serve_state S ms out s') = phase S"
  "box p (serve_state S ms out s') = box p S @ sent_to p out"
  "to_runners out \<Longrightarrow> mail (serve_state S ms out s') = ms"
  using runner_fifo_not_server [of p]
  by (simp_all add: serve_state_def deliver_box) (auto simp: deliver_def to_runners_def filter_empty_conv)

definition sys_pre :: "system \<Rightarrow> bool" where
  "sys_pre S \<longleftrightarrow> spec_inv (ctl S) \<and> busy (ctl S) \<and> jobs_ok (ctl S) \<and> \<not> sp_stop (ctl S) \<and>
     (\<forall>p. pid_ok p \<longrightarrow> owns S p) \<and> (\<forall>p. phase S p \<noteq> Absent \<longrightarrow> pid_ok p) \<and> (\<forall>m\<in>set (mail S). mail_ok S m) \<and>
     (sp_shut (ctl S) \<longrightarrow> pid_ok (sp_req (ctl S)) \<and> phase S (sp_req (ctl S)) = Stopping)"

lemma sys_pre_inv: "sys_inv S \<Longrightarrow> \<not> sp_stop (ctl S) \<Longrightarrow> sys_pre S"
  by (auto simp: sys_inv_def sys_pre_def)

text \<open>
  To show the invariant after a message it is enough to follow what each runner owns.
\<close>

lemma serve_pre:
  assumes pre: "sys_pre S" and ml: "mail S = m # ms" and out: "to_runners out"
    and s1: "spec_inv s1" "busy s1" "jobs_ok s1" "\<not> sp_stop s1"
    and own: "\<And>p. pid_ok p \<Longrightarrow> own False p (phase S p) (nmail SUBMIT p ms) (nmail DONE p ms)
      (njobs p (sp_waiting s1)) (njobs p (sp_running s1)) (box p S @ sent_to p out)"
    and req: "sp_shut s1 \<Longrightarrow> pid_ok (sp_req s1) \<and> phase S (sp_req s1) = Stopping"
  shows "sys_pre (serve_state S ms out s1)"
  using pre ml out s1 own req by (auto simp: sys_pre_def owns_def mail_ok_def)

lemma ownsD:
  assumes "sys_pre S" and "mail S = m # ms" and "pid_ok p"
  shows "own False p (phase S p) (nmail SUBMIT p (m # ms)) (nmail DONE p (m # ms))
    (njobs p (sp_waiting (ctl S))) (njobs p (sp_running (ctl S))) (box p S)"
  using assms by (auto simp: sys_pre_def owns_def)

lemma submit_phase:
  "own stop p ph (Suc a) d w r b \<Longrightarrow> ph = Submitted \<and> a = 0 \<and> d = 0 \<and> w = 0 \<and> r = 0 \<and> b = []"
  by (cases ph) auto

lemma done_phase: "own stop p ph a (Suc d) w r b \<Longrightarrow> ph = Finished \<and> a = 0 \<and> d = 0 \<and> w = 0 \<and> r = 1 \<and> b = []"
  by (cases ph) auto

lemma job_of_ok: "mail_ok S m \<Longrightarrow> msg_type m = SUBMIT \<Longrightarrow> job_ok (job_of m now)"
  by (auto simp: mail_ok_def job_ok_def job_of_def)

lemma serve_refused:
  assumes pre: "sys_pre S" and ml: "mail S = m # ms" and m: "msg_type m = SUBMIT"
  shows "sys_pre (serve_state S ms [refusal c m] (ctl S))"
proof (rule serve_pre [OF pre ml])
  have ok: "pid_ok (msg_command_id m)" "sender_pid m = msg_command_id m" using pre ml m by (auto simp: sys_pre_def mail_ok_def)
  fix p assume p: "pid_ok p"
  note o = ownsD [OF pre ml p]
  show "own False p (phase S p) (nmail SUBMIT p ms) (nmail DONE p ms) (njobs p (sp_waiting (ctl S)))
      (njobs p (sp_running (ctl S))) (box p S @ sent_to p [refusal c m])"
  proof (cases "p = msg_command_id m")
    case True
    then have "own False p (phase S p) (Suc (nmail SUBMIT p ms)) (nmail DONE p ms) (njobs p (sp_waiting (ctl S)))
      (njobs p (sp_running (ctl S))) (box p S)" using o m by simp
    from submit_phase [OF this] True ok show ?thesis by (simp add: refusal_def)
  next
    case False
    then show ?thesis using o m ok p by (simp add: refusal_def fifo_inj)
  qed
qed (use pre in \<open>auto simp: sys_pre_def refusal_def runner_fifo_not_server\<close>)

text \<open>A submission takes the account of its runner from the unread message to a job that runs or waits.\<close>

lemma serve_started:
  assumes pre: "sys_pre S" and ml: "mail S = m # ms" and m: "msg_type m = SUBMIT" and s1: "spec_inv s1" "busy s1" "\<not> sp_stop s1"
    and out: "out = [ack c (job_of m now)]"
    and e: "s1 = (ctl S)\<lparr>sp_users := us, sp_running := sp_running (ctl S) @ [started (job_of m now)], sp_last := msg_user_id m\<rparr>"
  shows "sys_pre (serve_state S ms out s1)"
proof (rule serve_pre [OF pre ml _ s1(1,2) _ s1(3)])
  let ?j = "job_of m now"
  have mo: "mail_ok S m" and jo: "jobs_ok (ctl S)" using pre ml by (auto simp: sys_pre_def)
  have jk: "job_ok ?j" "command_id ?j = msg_command_id m" using job_of_ok [OF mo] m by (simp_all add: job_of_def)
  show "jobs_ok s1" using jo jk(1) e by (auto simp: jobs_ok_def)
  fix p assume p: "pid_ok p"
  note o = ownsD [OF pre ml p]
  show "own False p (phase S p) (nmail SUBMIT p ms) (nmail DONE p ms) (njobs p (sp_waiting s1)) (njobs p (sp_running s1))
      (box p S @ sent_to p out)"
  proof (cases "p = msg_command_id m")
    case True
    then have "own False p (phase S p) (Suc (nmail SUBMIT p ms)) (nmail DONE p ms) (njobs p (sp_waiting (ctl S)))
      (njobs p (sp_running (ctl S))) (box p S)" using o m by simp
    from submit_phase [OF this] True jk out e p show ?thesis by (simp add: ack_def job_ok_def)
  next
    case False
    then show ?thesis using o out e m jk p by (simp add: ack_def job_ok_def fifo_inj)
  qed
qed (use out e pre in \<open>auto simp: sys_pre_def ack_def runner_fifo_not_server\<close>)

lemma serve_queued:
  assumes pre: "sys_pre S" and ml: "mail S = m # ms" and m: "msg_type m = SUBMIT" and s1: "spec_inv s1" "busy s1" "\<not> sp_stop s1"
    and e: "s1 = (ctl S)\<lparr>sp_users := us, sp_waiting := sp_waiting (ctl S) @ [job_of m now]\<rparr>"
  shows "sys_pre (serve_state S ms [] s1)"
proof (rule serve_pre [OF pre ml _ s1(1,2) _ s1(3)])
  let ?j = "job_of m now"
  have mo: "mail_ok S m" and jo: "jobs_ok (ctl S)" using pre ml by (auto simp: sys_pre_def)
  have jk: "job_ok ?j" "command_id ?j = msg_command_id m" using job_of_ok [OF mo] m by (simp_all add: job_of_def)
  show "jobs_ok s1" using jo jk(1) e by (auto simp: jobs_ok_def)
  fix p assume p: "pid_ok p"
  note o = ownsD [OF pre ml p]
  show "own False p (phase S p) (nmail SUBMIT p ms) (nmail DONE p ms) (njobs p (sp_waiting s1)) (njobs p (sp_running s1))
      (box p S @ sent_to p [])"
  proof (cases "p = msg_command_id m")
    case True
    then have "own False p (phase S p) (Suc (nmail SUBMIT p ms)) (nmail DONE p ms) (njobs p (sp_waiting (ctl S)))
      (njobs p (sp_running (ctl S))) (box p S)" using o m by simp
    from submit_phase [OF this] True jk e show ?thesis by simp
  next
    case False
    then show ?thesis using o e m jk by simp
  qed
qed (use e pre in \<open>auto simp: sys_pre_def\<close>)

text \<open>The report of a runner frees its slot, and jobs start; a report always finds its job.\<close>

lemma serve_done:
  assumes pre: "sys_pre S" and ml: "mail S = m # ms" and m: "msg_type m = DONE" and s1: "spec_inv s1" "busy s1" "\<not> sp_stop s1"
    and sp: "split_first (\<lambda>j. command_id j = msg_command_id m) (sp_running (ctl S)) = Some (ys, j, zs)"
    and pr: "promotes False ((ctl S)\<lparr>sp_running := ys @ zs\<rparr>) js s1"
  shows "sys_pre (serve_state S ms (map (ack c) js) s1)"
proof (rule serve_pre [OF pre ml _ s1(1,2) _ s1(3)])
  let ?s = "(ctl S)\<lparr>sp_running := ys @ zs\<rparr>"
  from split_first_SomeD [OF sp] have j: "sp_running (ctl S) = ys @ j # zs" "command_id j = msg_command_id m" by auto
  have jo2: "jobs_ok ?s" using pre j by (auto simp: sys_pre_def jobs_ok_def)
  show "jobs_ok s1" by (rule promotes_jobs(4) [OF pr jo2])
  fix p assume p: "pid_ok p"
  note o = ownsD [OF pre ml p]
  have "own False p (phase S p) (nmail SUBMIT p ms) (nmail DONE p ms) (njobs p (sp_waiting ?s)) (njobs p (sp_running ?s)) (box p S)"
  proof (cases "p = msg_command_id m")
    case True
    then have "own False p (phase S p) (nmail SUBMIT p ms) (Suc (nmail DONE p ms)) (njobs p (sp_waiting (ctl S)))
      (njobs p (sp_running (ctl S))) (box p S)" using o m by simp
    from done_phase [OF this] True j show ?thesis by simp
  next
    case False
    then show ?thesis using o m j by simp
  qed
  from own_promote [OF this pr jo2 p refl refl, of c]
  show "own False p (phase S p) (nmail SUBMIT p ms) (nmail DONE p ms) (njobs p (sp_waiting s1)) (njobs p (sp_running s1))
      (box p S @ sent_to p (map (ack c) js))" .
qed (use pre promotes_frame [OF pr] in \<open>auto simp: sys_pre_def ack_def runner_fifo_not_server\<close>)

lemma done_job_known:
  assumes pre: "sys_pre S" and ml: "mail S = m # ms" and m: "msg_type m = DONE"
  shows "split_first (\<lambda>j. command_id j = msg_command_id m) (sp_running (ctl S)) \<noteq> None"
proof -
  have pd: "pid_ok (msg_command_id m)" using pre ml m by (auto simp: sys_pre_def mail_ok_def)
  have "own False (msg_command_id m) (phase S (msg_command_id m)) (nmail SUBMIT (msg_command_id m) ms)
    (Suc (nmail DONE (msg_command_id m) ms)) (njobs (msg_command_id m) (sp_waiting (ctl S)))
    (njobs (msg_command_id m) (sp_running (ctl S))) (box (msg_command_id m) S)" using ownsD [OF pre ml pd] m by simp
  from done_phase [OF this] have "njobs (msg_command_id m) (sp_running (ctl S)) = 1" by simp
  then have "filter (\<lambda>j. command_id j = msg_command_id m) (sp_running (ctl S)) \<noteq> []" by (auto simp: njobs_def)
  then show ?thesis by (auto simp: split_first_None filter_empty_conv)
qed

lemma serve_msg:
  assumes pre: "sys_pre S" and ml: "mail S = m # ms" and step: "spec_msg False c (ctl S) m out logs s1"
    and nr: "msg_type m \<noteq> SUBMIT \<or> \<not> sp_shut (ctl S)"
  shows "sys_pre (serve_state S ms out s1)"
proof -
  have mo: "mail_ok S m" and jo: "jobs_ok (ctl S)" and ns: "\<not> sp_stop (ctl S)" using pre ml by (auto simp: sys_pre_def)
  have s1: "spec_inv s1" "busy s1" "\<not> sp_stop s1"
    using pre spec_msg_inv [OF step] spec_msg_busy [OF step] spec_msg_frame(3) [OF step] by (auto simp: sys_pre_def)
  show ?thesis
    using step
  proof (cases rule: spec_msg.cases)
    case (submit_started now us)
    then show ?thesis using serve_started [OF pre ml _ s1] by blast
  next
    case (submit_queued now us)
    then show ?thesis using serve_queued [OF pre ml _ s1] by blast
  next
    case (done_known ys j zs t ms1 js)
    then show ?thesis using serve_done [OF pre ml _ s1] by blast
  next
    case (done_unknown js)
    then show ?thesis using done_job_known [OF pre ml] by blast
  next
    case shutdown_requested
    show ?thesis
    proof (rule serve_pre [OF pre ml _ s1(1,2) _ s1(3)])
      fix p assume p: "pid_ok p"
      show "own False p (phase S p) (nmail SUBMIT p ms) (nmail DONE p ms) (njobs p (sp_waiting s1)) (njobs p (sp_running s1))
          (box p S @ sent_to p out)" using ownsD [OF pre ml p] shutdown_requested by simp
    qed (use shutdown_requested jo mo ns in \<open>auto simp: jobs_ok_def mail_ok_def\<close>)
  qed (use mo in \<open>auto simp: mail_ok_def\<close>)
qed

lemma deliver_append: "deliver (out @ out') P = deliver out' (deliver out P)"
  by (simp add: deliver_def)

lemma own_stop: "own False p ph a d w r b \<Longrightarrow> own True p ph a d w r b"
  by (cases ph) auto

lemma finish_sys:
  assumes pre: "sys_pre S" and f: "finish (ctl S) = (out, s2)"
  shows "sys_inv (S\<lparr>ctl := s2, pipes := deliver out (pipes S)\<rparr>)"
proof (cases "sp_shut (ctl S) \<and> sp_running (ctl S) = [] \<and> sp_waiting (ctl S) = []")
  case False
  then have "out = []" "s2 = ctl S" using f by (auto simp: finish_def split: if_splits)
  then have S: "S\<lparr>ctl := s2, pipes := deliver out (pipes S)\<rparr> = S" by (simp add: deliver_def)
  show ?thesis unfolding S using pre False by (auto simp: sys_pre_def sys_inv_def stop_inv_def)
next
  case True
  let ?q = "sp_req (ctl S)" and ?s = "(ctl S)\<lparr>sp_stop := True\<rparr>"
  have e: "out = [farewell (ctl S)]" "s2 = ?s" using f True by (simp_all add: finish_def)
  have q: "pid_ok ?q" "phase S ?q = Stopping" using pre True by (simp_all add: sys_pre_def)
  have ne: "fst (farewell (ctl S)) = runner_fifo ?q" "msg_type (snd (farewell (ctl S))) = SHUTDOWN_ACK"
    by (simp_all add: farewell_def)
  have ml: "deliver [farewell (ctl S)] (pipes S) SERVER_FIFO_PATH = mail S"
    using ne(1) runner_fifo_not_server by (simp add: deliver_def)
  have "own True p (phase S p) (nmail SUBMIT p (mail S)) (nmail DONE p (mail S)) 0 0 (box p S @ sent_to p [farewell (ctl S)])"
    if p: "pid_ok p" for p
  proof -
    have o: "own False p (phase S p) (nmail SUBMIT p (mail S)) (nmail DONE p (mail S)) 0 0 (box p S)"
      using pre p True by (auto simp: sys_pre_def owns_def)
    show ?thesis
    proof (cases "p = ?q")
      case True
      then show ?thesis using o q ne by simp
    next
      case False
      then show ?thesis using own_stop [OF o] ne(1) p q(1) by (simp add: fifo_inj)
    qed
  qed
  then have "\<forall>p. pid_ok p \<longrightarrow> owns (S\<lparr>ctl := ?s, pipes := deliver [farewell (ctl S)] (pipes S)\<rparr>) p"
    using True by (simp add: owns_def deliver_box ml)
  then show ?thesis unfolding e using pre True ml
    by (auto simp: sys_pre_def sys_inv_def stop_inv_def spec_inv_def busy_def jobs_ok_def mail_ok_def)
qed

lemma serve_inv:
  assumes inv: "sys_inv S" and ns: "\<not> sp_stop (ctl S)" and ml: "mail S = m # ms" and step: "spec_step False c (ctl S) m out logs s'"
  shows "sys_inv (serve_state S ms out s')"
  using step
proof (cases rule: spec_step.cases)
  case refused
  have pre: "sys_pre (serve_state S ms out s')" unfolding refused(1,3)
    using serve_refused [OF sys_pre_inv [OF inv ns] ml] refused by simp
  show ?thesis using pre inv refused by (auto simp: sys_pre_def sys_inv_def)
next
  case (handled out1 s1 out2)
  have pre: "sys_pre (serve_state S ms out1 s1)"
    by (rule serve_msg [OF sys_pre_inv [OF inv ns] ml handled(3)]) (use handled(2) in simp)
  have "finish (ctl (serve_state S ms out1 s1)) = (out2, s')" using handled(4) by simp
  from finish_sys [OF pre this] show ?thesis unfolding handled(1) by (simp add: serve_state_def deliver_append)
qed

text \<open>The steps of one runner: only its own phase and pipe change, and what it adds to the common pipe.\<close>

lemma runner_inv:
  assumes inv: "sys_inv S" and p: "pid_ok p"
    and S': "ctl S' = ctl S" "phase S' = (phase S)(p := ph)" "mail S' = mail S @ add"
    and boxes: "\<And>q. pid_ok q \<Longrightarrow> q \<noteq> p \<Longrightarrow> box q S' = box q S"
    and own: "own (sp_stop (ctl S)) p ph (nmail SUBMIT p (mail S @ add)) (nmail DONE p (mail S @ add))
      (njobs p (sp_waiting (ctl S))) (njobs p (sp_running (ctl S))) (box p S')"
    and add: "\<forall>m\<in>set add. mail_ok S' m \<and> (msg_type m = SUBMIT \<or> msg_type m = DONE \<longrightarrow> msg_command_id m = p)"
    and st: "phase S p = Stopping \<Longrightarrow> sp_stop (ctl S)"
  shows "sys_inv S'"
proof -
  have "owns S' q" if q: "pid_ok q" for q
  proof (cases "q = p")
    case True
    then show ?thesis using own S' by (simp add: owns_def)
  next
    case False
    have "nmail SUBMIT q add = 0" "nmail DONE q add = 0" using add False by (auto simp: nmail_def filter_empty_conv)
    then show ?thesis using inv q S' boxes [OF q False] False by (simp add: sys_inv_def owns_def)
  qed
  moreover have "mail_ok S' m" if m: "m \<in> set (mail S')" for m
    using m S' add inv st by (fastforce simp: sys_inv_def mail_ok_def)
  moreover have "sp_shut (ctl S) \<and> \<not> sp_stop (ctl S) \<longrightarrow> pid_ok (sp_req (ctl S)) \<and> phase S' (sp_req (ctl S)) = Stopping"
    using inv st S' by (auto simp: sys_inv_def)
  moreover have "\<forall>q. phase S' q \<noteq> Absent \<longrightarrow> pid_ok q" using inv p S' by (auto simp: sys_inv_def)
  ultimately show ?thesis using inv S' by (simp add: sys_inv_def)
qed

lemma deliver_server: "deliver [(SERVER_FIFO_PATH, m)] P SERVER_FIFO_PATH = P SERVER_FIFO_PATH @ [m]"
    "deliver [(SERVER_FIFO_PATH, m)] P (runner_fifo p) = P (runner_fifo p)"
  by (auto simp: deliver_def)

lemma inv_owns:
  assumes "sys_inv S" and "pid_ok p" and "phase S p = ph"
  shows "own (sp_stop (ctl S)) p ph (nmail SUBMIT p (mail S)) (nmail DONE p (mail S))
      (njobs p (sp_waiting (ctl S))) (njobs p (sp_running (ctl S))) (box p S)"
  using assms by (auto simp: sys_inv_def owns_def)

lemma user_step_inv: "user_step S S' \<Longrightarrow> sys_inv S \<Longrightarrow> sys_inv S'"
proof (induction rule: user_step.induct)
  case (user_submits S p uid cmd)
  have o: "own (sp_stop (ctl S)) p Absent (nmail SUBMIT p (mail S)) (nmail DONE p (mail S))
      (njobs p (sp_waiting (ctl S))) (njobs p (sp_running (ctl S))) (box p S)"
    using inv_owns [OF user_submits(3,2,1)] user_submits(1) by simp
  show ?case
    by (rule runner_inv [OF user_submits(3,2), where ph = Submitted and add = "[submit_of p uid cmd]"])
      (use o user_submits(1,2) in \<open>auto simp: deliver_server submit_of_def zero_msg_def mail_ok_def\<close>)
next
  case (user_stops S p)
  have o: "own (sp_stop (ctl S)) p Absent (nmail SUBMIT p (mail S)) (nmail DONE p (mail S))
      (njobs p (sp_waiting (ctl S))) (njobs p (sp_running (ctl S))) (box p S)"
    using inv_owns [OF user_stops(3,2,1)] user_stops(1) by simp
  show ?case
    by (rule runner_inv [OF user_stops(3,2), where ph = Stopping and add = "[shutdown_of p]"])
      (use o user_stops(1,2) in \<open>auto simp: deliver_server shutdown_of_def zero_msg_def mail_ok_def\<close>)
next
  case (user_looks S p)
  have o: "own (sp_stop (ctl S)) p Absent (nmail SUBMIT p (mail S)) (nmail DONE p (mail S))
      (njobs p (sp_waiting (ctl S))) (njobs p (sp_running (ctl S))) (box p S)"
    using inv_owns [OF user_looks(3,2,1)] user_looks(1) by simp
  show ?case
    by (rule runner_inv [OF user_looks(3,2), where ph = Finished and add = "[]"]) (use o user_looks(1,2) in auto)
qed

lemma box_upd: "box p (S\<lparr>pipes := (pipes S)(runner_fifo q := ms), phase := f\<rparr>) = (if runner_fifo p = runner_fifo q then ms else box p S)"
    "mail (S\<lparr>pipes := (pipes S)(runner_fifo q := ms), phase := f\<rparr>) = mail S"
  by simp_all

lemma sys_step_inv: "sys_step c S S' \<Longrightarrow> sys_inv S \<Longrightarrow> sys_inv S'"
proof (induction rule: sys_step.induct)
  case (sys_serve S m ms out logs s')
  then show ?case using serve_inv by (simp add: serve_state_def)
next
  case (sys_start S p m ms)
  have o: "own (sp_stop (ctl S)) p Submitted (nmail SUBMIT p (mail S)) (nmail DONE p (mail S))
      (njobs p (sp_waiting (ctl S))) (njobs p (sp_running (ctl S))) (m # ms)"
    using inv_owns [OF sys_start(5,2,1)] sys_start(3) by simp
  show ?case
    by (rule runner_inv [OF sys_start(5,2), where ph = "Executing m" and add = "[]"])
      (use o sys_start(1,2,4) in \<open>auto simp: box_upd fifo_inj\<close>)
next
  case (sys_refuse S p m ms)
  have o: "own (sp_stop (ctl S)) p Submitted (nmail SUBMIT p (mail S)) (nmail DONE p (mail S))
      (njobs p (sp_waiting (ctl S))) (njobs p (sp_running (ctl S))) (m # ms)"
    using inv_owns [OF sys_refuse(5,2,1)] sys_refuse(3) by simp
  show ?case
    by (rule runner_inv [OF sys_refuse(5,2), where ph = Finished and add = "[]"])
      (use o sys_refuse(1,2,4) in \<open>auto simp: box_upd fifo_inj\<close>)
next
  case (sys_report S p m)
  have o: "own (sp_stop (ctl S)) p (Executing m) (nmail SUBMIT p (mail S)) (nmail DONE p (mail S))
      (njobs p (sp_waiting (ctl S))) (njobs p (sp_running (ctl S))) (box p S)"
    using inv_owns [OF sys_report(3,2,1)] sys_report(1) by simp
  show ?case
    by (rule runner_inv [OF sys_report(3,2), where ph = Finished and add = "[done_of p m]"])
      (use o sys_report(1,2) in \<open>auto simp: deliver_server done_of_def mail_ok_def\<close>)
next
  case (sys_stopped S p m ms)
  have o: "own (sp_stop (ctl S)) p Stopping (nmail SUBMIT p (mail S)) (nmail DONE p (mail S))
      (njobs p (sp_waiting (ctl S))) (njobs p (sp_running (ctl S))) (m # ms)"
    using inv_owns [OF sys_stopped(5,2,1)] sys_stopped(3) by simp
  show ?case
    by (rule runner_inv [OF sys_stopped(5,2), where ph = Finished and add = "[]"])
      (use o sys_stopped(1,2,4) in \<open>auto simp: box_upd fifo_inj\<close>)
qed

lemma reach_inv: "reach c lim pol S \<Longrightarrow> 0 < lim \<Longrightarrow> sys_inv S"
  by (induction rule: reach.induct) (auto intro: sys_init_inv user_step_inv sys_step_inv)

end
