(* ===== verification/Runner_Steps.thy ===== *)
theory Runner_Steps
  imports Runner_Correct
begin

text \<open>
  The runner cut at its blocking reads, so that other processes can act between them: starting a runner
  goes up to the first read, every read result takes it to the next one, and an authorised command is
  run in a step of its own. Driving these steps by a list of read results is the program.
\<close>

subsection \<open>The points where a runner waits\<close>

text \<open>
  The local variables that are still used: the descriptor and the path of the private pipe, the submission, the
  authorisation. \<open>Over r\<close> is a process that has returned \<open>r\<close>.
\<close>

datatype runner_state =
    Waiting_answer fd string RpcMessage
  | Running_command fd string RpcMessage RpcMessage
  | Reading_status fd string
  | Waiting_exit fd string
  | Over int

text \<open>The three modes up to the read on the private pipe.\<close>

definition status_begin :: "runner_world \<Rightarrow> runner_state \<times> runner_world" where
  "status_begin w =
     (let (c, my_fifo, w1) = create_runner_fifo w
      in if c = - 1 then (Over 1, w1)
         else
           let status_req = zero_msg\<lparr>msg_type := STATUS_REQ, sender_pid := self_pid w1\<rparr>;
               (r, w2) = ipc_send_atomic SERVER_FIFO_PATH status_req w1
           in if r = - 1 then
                let (_, w3) = ipc_destroy_fifo my_fifo (emit (Err ''ipc_send_atomic'') w2) in (Over 1, w3)
              else
                let (my_fd, w3) = sys_open my_fifo w2
                in if fd_num my_fd = - 1 then
                     let (_, w4) = ipc_destroy_fifo my_fifo (emit (Err ''open runner fifo'') w3) in (Over 1, w4)
                   else (Reading_status my_fd my_fifo, w3))"

definition shutdown_begin :: "runner_world \<Rightarrow> runner_state \<times> runner_world" where
  "shutdown_begin w =
     (let (c, my_fifo, w1) = create_runner_fifo w
      in if c = - 1 then (Over 1, w1)
         else
           let shutdown_req = zero_msg\<lparr>msg_type := SHUTDOWN_REQ, sender_pid := self_pid w1\<rparr>;
               (r, w2) = ipc_send_atomic SERVER_FIFO_PATH shutdown_req w1
           in if r = - 1 then
                let (_, w3) = ipc_destroy_fifo my_fifo (emit (Err ''ipc_send_atomic'') w2) in (Over 1, w3)
              else
                let w3 = emit (Out (''[runner] waiting for controller to shutdown...'' @ LF))
                           (emit (Out (''[runner] sent shutdown notification'' @ LF)) w2);
                    (my_fd, w4) = sys_open my_fifo w3
                in if fd_num my_fd = - 1 then
                     let (_, w5) = ipc_destroy_fifo my_fifo (emit (Err ''open runner fifo'') w4) in (Over 1, w5)
                   else (Waiting_exit my_fd my_fifo, w4))"

definition execute_begin :: "int \<Rightarrow> string \<Rightarrow> runner_world \<Rightarrow> runner_state \<times> runner_world" where
  "execute_begin uid cmd w =
     (let (c, my_fifo, w1) = create_runner_fifo w
      in if c = - 1 then (Over 1, w1)
         else
           let submit_msg = submit_of (self_pid w1) uid cmd;
               w2 = emit (Out (''[runner] command '' @ fmt_d (msg_command_id submit_msg) @ '' submitted'' @ LF)) w1;
               (r, w3) = ipc_send_atomic SERVER_FIFO_PATH submit_msg w2
           in if r = - 1 then
                let (_, w4) = ipc_destroy_fifo my_fifo (emit (Err ''ipc_send_atomic'') w3) in (Over 1, w4)
              else
                let (my_fd, w4) = sys_open my_fifo w3
                in if fd_num my_fd = - 1 then
                     let (_, w5) = ipc_destroy_fifo my_fifo (emit (Err ''open runner fifo'') w4) in (Over 1, w5)
                   else (Waiting_answer my_fd my_fifo submit_msg, w4))"

definition runner_start :: "string list \<Rightarrow> runner_world \<Rightarrow> (runner_state \<times> runner_world) option" where
  "runner_start args w = do {
     (parse_result, request, w1) \<leftarrow> runner_parse_args args (Some zero_request) w;
     if parse_result \<noteq> 0 then Some (Over parse_result, w1)
     else do {
       req \<leftarrow> request;
       case mode req of
         RUNNER_MODE_STATUS \<Rightarrow> Some (status_begin w1)
       | RUNNER_MODE_SHUTDOWN \<Rightarrow> Some (shutdown_begin w1)
       | RUNNER_MODE_EXECUTE \<Rightarrow> do {
           cmd \<leftarrow> command req;
           Some (execute_begin (req_user_id req) cmd w1) } } }"

text \<open>A process in one of these states is blocked in \<open>read\<close>.\<close>

fun reading :: "runner_state \<Rightarrow> bool" where
  "reading (Waiting_answer d p sub) = True"
| "reading (Running_command d p sub m) = False"
| "reading (Reading_status d p) = True"
| "reading (Waiting_exit d p) = True"
| "reading (Over r) = False"

text \<open>What the read returns takes the process to the next wait, or to its end.\<close>

definition answer_read :: "read_result \<Rightarrow> fd \<Rightarrow> string \<Rightarrow> RpcMessage \<Rightarrow> runner_world \<Rightarrow> runner_state \<times> runner_world" where
  "answer_read x my_fd my_fifo submit_msg w = (case x of (n, ack_msg) \<Rightarrow>
     if n = int sizeof_RpcMessage \<and> msg_type ack_msg = ACK then (Running_command my_fd my_fifo submit_msg ack_msg, w)
     else (Over 1, close_runner_fifo my_fd my_fifo (emit (Out (''runner did not receive ACK'' @ LF)) w)))"

definition status_read :: "read_result \<Rightarrow> fd \<Rightarrow> string \<Rightarrow> runner_world \<Rightarrow> runner_state \<times> runner_world" where
  "status_read x my_fd my_fifo w = (case x of (n, status_msg) \<Rightarrow>
     if n \<noteq> int sizeof_RpcMessage then (Over 0, close_runner_fifo my_fd my_fifo w)
     else
       let w1 = (if msg_type status_msg = STATUS_RESP then emit (Out (payload status_msg)) w else w)
       in if msg_type status_msg = STATUS_END then (Over 0, close_runner_fifo my_fd my_fifo w1)
          else (Reading_status my_fd my_fifo, w1))"

definition shutdown_read :: "read_result \<Rightarrow> fd \<Rightarrow> string \<Rightarrow> runner_world \<Rightarrow> runner_state \<times> runner_world" where
  "shutdown_read x my_fd my_fifo w = (case x of (n, status_msg) \<Rightarrow>
     if n \<noteq> int sizeof_RpcMessage \<or> msg_type status_msg = SHUTDOWN_ACK
     then (Over 0, close_runner_fifo my_fd my_fifo (emit (Out (''[runner] controller exited.'' @ LF)) w))
     else (Waiting_exit my_fd my_fifo, w))"

lemmas read_defs = answer_read_def status_read_def shutdown_read_def

fun runner_read :: "read_result \<Rightarrow> runner_state \<Rightarrow> runner_world \<Rightarrow> runner_state \<times> runner_world" where
  "runner_read x (Waiting_answer my_fd my_fifo submit_msg) w = answer_read x my_fd my_fifo submit_msg w"
| "runner_read x (Reading_status my_fd my_fifo) w = status_read x my_fd my_fifo w"
| "runner_read x (Waiting_exit my_fd my_fifo) w = shutdown_read x my_fd my_fifo w"
| "runner_read x (Running_command my_fd my_fifo submit_msg ack_msg) w = (Running_command my_fd my_fifo submit_msg ack_msg, w)"
| "runner_read x (Over r) w = (Over r, w)"

text \<open>The command is run and its end reported.\<close>

definition execute_finish :: "fd \<Rightarrow> string \<Rightarrow> RpcMessage \<Rightarrow> RpcMessage \<Rightarrow> runner_world \<Rightarrow> (int \<times> runner_world) option" where
  "execute_finish my_fd my_fifo submit_msg ack_msg w = do {
     (s, w1) \<leftarrow> run_authorised submit_msg ack_msg w;
     if s = - 1 then Some (1, close_runner_fifo my_fd my_fifo (emit (Err ''ipc_send_atomic'') w1))
     else Some (0, close_runner_fifo my_fd my_fifo
       (emit (Out (''[runner] command '' @ fmt_d (msg_command_id ack_msg) @ '' finished'' @ LF)) w1)) }"

subsection \<open>The program as a sequence of its steps\<close>

fun runner_end :: "runner_state \<Rightarrow> runner_world \<Rightarrow> (int \<times> runner_world) option" where
  "runner_end (Over r) w = Some (r, w)"
| "runner_end (Running_command d p sub m) w = execute_finish d p sub m w"
| "runner_end (Waiting_answer d p sub) w = None"
| "runner_end (Reading_status d p) w = None"
| "runner_end (Waiting_exit d p) w = None"

fun runner_drive :: "runner_state \<Rightarrow> read_result list \<Rightarrow> runner_world \<Rightarrow> (int \<times> runner_world) option" where
  "runner_drive s [] w = (let (s1, w1) = runner_read (0, zero_msg) s w in runner_end s1 w1)"
| "runner_drive s (x # inp) w =
     (if reading s then let (s1, w1) = runner_read x s w in runner_drive s1 inp w1 else runner_end s w)"

lemma drive_over [simp]: "runner_drive (Over r) inp w = Some (r, w)"
  by (cases inp) simp_all

lemma drive_running: "runner_drive (Running_command d p sub m) inp w = execute_finish d p sub m w"
  by (cases inp) simp_all

lemma drive_status: "runner_drive (Reading_status d p) inp w = Some (0, close_runner_fifo d p (status_loop inp w))"
  by (induction inp arbitrary: w) (auto simp: read_defs Let_def)

lemma drive_exit:
  "runner_drive (Waiting_exit d p) inp w =
     Some (0, close_runner_fifo d p (emit (Out (''[runner] controller exited.'' @ LF)) w))"
  by (induction inp) (auto simp: read_defs)

lemma drive_answer:
  "runner_drive (Waiting_answer d p sub) inp w =
     (let ((n, m), _) = ipc_read_blocking inp
      in if n = int sizeof_RpcMessage \<and> msg_type m = ACK then execute_finish d p sub m w
         else Some (1, close_runner_fifo d p (emit (Out (''runner did not receive ACK'' @ LF)) w)))"
  by (cases inp) (auto simp: ipc_read_blocking_def drive_running read_defs)

lemma status_steps: "(let (s, w1) = status_begin w in runner_drive s inp w1) = Some (runner_run_status inp w)"
  by (auto simp: status_begin_def runner_run_status_def drive_status close_runner_fifo_def Let_def split: prod.splits)

lemma shutdown_steps: "(let (s, w1) = shutdown_begin w in runner_drive s inp w1) = Some (runner_run_shutdown inp w)"
  by (auto simp: shutdown_begin_def runner_run_shutdown_def drive_exit close_runner_fifo_def Let_def split: prod.splits)

lemma execute_steps: "(let (s, w1) = execute_begin uid cmd w in runner_drive s inp w1) = runner_run_execute uid cmd inp w"
  by (auto simp: execute_begin_def runner_run_execute_def drive_answer execute_finish_def Let_def split: prod.splits)

lemma runner_main_steps: "runner_main args inp w = do { (s, w1) \<leftarrow> runner_start args w; runner_drive s inp w1 }"
  by (auto simp: runner_main_def runner_start_def status_steps [symmetric] shutdown_steps [symmetric] execute_steps [symmetric]
      case_prod_beta Let_def split: runner_mode.splits option.splits Option.bind_splits)

subsection \<open>What the steps hand over\<close>

lemma idle_hands_over: "runner_idle w out prt w' \<Longrightarrow> hands_over w out w'"
  by (auto simp: runner_idle_def intro: hands_over_effect outputs_effect)

text \<open>The setup common to the three modes: create the pipe, send the request, open the pipe.\<close>

definition open_session ::
  "(runner_world \<Rightarrow> runner_world) \<Rightarrow> (runner_world \<Rightarrow> runner_world) \<Rightarrow> (int \<Rightarrow> RpcMessage) \<Rightarrow> runner_world \<Rightarrow>
     (fd \<times> string) option \<times> runner_world" where
  "open_session pre post msg w =
     (let (c, my_fifo, w1) = create_runner_fifo w
      in if c = - 1 then (None, w1)
         else
           let (r, w2) = ipc_send_atomic SERVER_FIFO_PATH (msg (self_pid w1)) (pre w1)
           in if r = - 1 then
                let (_, w3) = ipc_destroy_fifo my_fifo (emit (Err ''ipc_send_atomic'') w2) in (None, w3)
              else
                let (my_fd, w3) = sys_open my_fifo (post w2)
                in if fd_num my_fd = - 1 then
                     let (_, w4) = ipc_destroy_fifo my_fifo (emit (Err ''open runner fifo'') w3) in (None, w4)
                   else (Some (my_fd, my_fifo), w3))"

definition in_session :: "(fd \<Rightarrow> string \<Rightarrow> runner_state) \<Rightarrow> (fd \<times> string) option \<times> runner_world \<Rightarrow> runner_state \<times> runner_world" where
  "in_session wait r = (case r of (None, w) \<Rightarrow> (Over 1, w) | (Some (d, p), w) \<Rightarrow> (wait d p, w))"

lemma status_session:
  "status_begin w = in_session Reading_status
     (open_session id id (\<lambda>p. zero_msg\<lparr>msg_type := STATUS_REQ, sender_pid := p\<rparr>) w)"
  by (simp add: status_begin_def open_session_def in_session_def Let_def split: prod.split)

lemma shutdown_session:
  "shutdown_begin w = in_session Waiting_exit
     (open_session id (\<lambda>w. emit (Out (''[runner] waiting for controller to shutdown...'' @ LF))
          (emit (Out (''[runner] sent shutdown notification'' @ LF)) w))
        (\<lambda>p. zero_msg\<lparr>msg_type := SHUTDOWN_REQ, sender_pid := p\<rparr>) w)"
  by (simp add: shutdown_begin_def open_session_def in_session_def Let_def split: prod.split)

lemma execute_session_begin:
  "execute_begin uid cmd w = in_session (\<lambda>d p. Waiting_answer d p (submit_of (self_pid w) uid cmd))
     (open_session (\<lambda>w. emit (Out (''[runner] command '' @ fmt_d (self_pid w) @ '' submitted'' @ LF)) w) id
        (\<lambda>p. submit_of p uid cmd) w)"
proof -
  obtain c w1 where 1: "create_runner_fifo w = (c, runner_fifo_path w, w1)" "self_pid w1 = self_pid w" by (rule idle_create)
  have "msg_command_id (submit_of p uid cmd) = p" for p by (simp add: submit_of_def)
  then show ?thesis using 1
    by (simp add: execute_begin_def open_session_def in_session_def Let_def split: prod.split)
qed

definition only_prints :: "(runner_world \<Rightarrow> runner_world) \<Rightarrow> bool" where
  "only_prints f \<longleftrightarrow> (\<forall>w out prt w'. runner_idle w out prt w' \<longrightarrow> (\<exists>prt. runner_idle w out prt (f w')))"

lemma only_printsD: "only_prints f \<Longrightarrow> runner_idle w out prt w' \<Longrightarrow> \<exists>prt. runner_idle w out prt (f w')"
  unfolding only_prints_def by blast

lemma only_prints_simps: "only_prints id" "only_prints (\<lambda>w. emit (Out (f w)) w)" "only_prints (\<lambda>w. emit (Out s) (emit (Out s') w))"
  unfolding only_prints_def using idle_out by (auto, blast+)

lemma open_session_ok:
  assumes pre: "only_prints pre" and post: "only_prints post"
  shows "\<exists>x w'. open_session pre post msg w = (x, w') \<and> hands_over w [(SERVER_FIFO_PATH, msg (self_pid w))] w' \<and>
    (case x of None \<Rightarrow> \<not> sys_ok w | Some (d, p) \<Rightarrow> p = runner_fifo_path w)"
proof -
  let ?m = "msg (self_pid w)" and ?p = "runner_fifo_path w"
  obtain c w1 where 1: "create_runner_fifo w = (c, ?p, w1)" "runner_idle w [] [] w1" "sys_ok w \<longrightarrow> c \<noteq> - 1" "self_pid w1 = self_pid w"
    by (rule idle_create)
  show ?thesis
  proof (cases "c = - 1")
    case True
    then show ?thesis using 1 idle_hands_over [OF idle_more [OF 1(2)]] by (auto simp: open_session_def)
  next
    case c: False
    obtain prt0 where i1: "runner_idle w [] prt0 (pre w1)" using only_printsD [OF pre 1(2)] by blast
    obtain r w2 where 2: "ipc_send_atomic SERVER_FIFO_PATH ?m (pre w1) = (r, w2)" "runner_idle w [(SERVER_FIFO_PATH, ?m)] prt0 w2"
      "sys_ok w \<longrightarrow> r \<noteq> - 1" by (rule idle_send [OF i1])
    show ?thesis
    proof (cases "r = - 1")
      case True
      obtain q w3 where "ipc_destroy_fifo ?p (emit (Err ''ipc_send_atomic'') w2) = (q, w3)" "runner_idle w [(SERVER_FIFO_PATH, ?m)] prt0 w3"
        by (rule idle_fail [OF 2(2)])
      then show ?thesis using True 1(1,4) 2(1,3) c idle_hands_over by (auto simp: open_session_def)
    next
      case r: False
      obtain prt1 where i2: "runner_idle w [(SERVER_FIFO_PATH, ?m)] prt1 (post w2)" using only_printsD [OF post 2(2)] by blast
      show ?thesis
      proof (cases rule: idle_open [OF i2, of ?p])
        case (1 d w3)
        obtain q w4 where "ipc_destroy_fifo ?p (emit (Err ''open runner fifo'') w3) = (q, w4)" "runner_idle w [(SERVER_FIFO_PATH, ?m)] prt1 w4"
          by (rule idle_fail [OF 1(3)])
        then show ?thesis using \<open>create_runner_fifo w = _\<close> \<open>self_pid w1 = _\<close> 1 2(1) c r idle_hands_over
          by (auto simp: open_session_def)
      next
        case (2 d w3)
        obtain es where es: "outputs w es (post w2)" "sends w es [(SERVER_FIFO_PATH, ?m)] []" using i2 by (auto simp: runner_idle_def)
        have "hands_over w [(SERVER_FIFO_PATH, ?m)] w3"
          by (rule hands_overI [OF _ es(2)]) (use es(1) 2(3) in \<open>auto simp: outputs_def one_more_def same_env_def\<close>)
        then show ?thesis using \<open>create_runner_fifo w = _\<close> \<open>self_pid w1 = _\<close> \<open>ipc_send_atomic _ _ _ = _\<close> 2(1,2) c r
          by (auto simp: open_session_def)
      qed
    qed
  qed
qed

lemma in_session_ok:
  assumes "only_prints pre" and "only_prints post"
  shows "\<exists>s w'. in_session wait (open_session pre post msg w) = (s, w') \<and> hands_over w [(SERVER_FIFO_PATH, msg (self_pid w))] w' \<and>
    (s = Over 1 \<and> \<not> sys_ok w \<or> (\<exists>d. s = wait d (runner_fifo_path w)))"
proof -
  obtain x w' where x: "open_session pre post msg w = (x, w')" "hands_over w [(SERVER_FIFO_PATH, msg (self_pid w))] w'"
    "case x of None \<Rightarrow> \<not> sys_ok w | Some (d, p) \<Rightarrow> p = runner_fifo_path w" using open_session_ok [OF assms] by blast
  then show ?thesis by (cases x) (auto simp: in_session_def)
qed

lemma status_begin_ok:
  "\<exists>s w'. status_begin w = (s, w') \<and>
    hands_over w [(SERVER_FIFO_PATH, zero_msg\<lparr>msg_type := STATUS_REQ, sender_pid := self_pid w\<rparr>)] w' \<and>
    (s = Over 1 \<and> \<not> sys_ok w \<or> (\<exists>d. s = Reading_status d (runner_fifo_path w)))"
  unfolding status_session by (rule in_session_ok [OF only_prints_simps(1) only_prints_simps(1)])

lemma shutdown_begin_ok:
  "\<exists>s w'. shutdown_begin w = (s, w') \<and>
    hands_over w [(SERVER_FIFO_PATH, zero_msg\<lparr>msg_type := SHUTDOWN_REQ, sender_pid := self_pid w\<rparr>)] w' \<and>
    (s = Over 1 \<and> \<not> sys_ok w \<or> (\<exists>d. s = Waiting_exit d (runner_fifo_path w)))"
  unfolding shutdown_session by (rule in_session_ok [OF only_prints_simps(1) only_prints_simps(3)])

lemma execute_begin_ok:
  "\<exists>s w'. execute_begin uid cmd w = (s, w') \<and>
    hands_over w [(SERVER_FIFO_PATH, submit_of (self_pid w) uid cmd)] w' \<and>
    (s = Over 1 \<and> \<not> sys_ok w \<or> (\<exists>d. s = Waiting_answer d (runner_fifo_path w) (submit_of (self_pid w) uid cmd)))"
  unfolding execute_session_begin by (rule in_session_ok [OF only_prints_simps(2) only_prints_simps(1)])

lemma runner_start_cases:
  assumes "runner_start args w = Some (s, w')"
  obtains (usage) "s = Over 1" and "hands_over w [] w'"
    and "\<not> (length args = 2 \<and> args ! 1 \<in> {''-c'', ''-s''})" and "\<not> (length args = 4 \<and> args ! 1 = ''-e'')"
  | (submits) uid where "length args = 4" and "args ! 1 = ''-e''" and "atoi (args ! 2) = Some uid"
    and "hands_over w [(SERVER_FIFO_PATH, submit_of (self_pid w) uid (args ! 3))] w'"
    and "s = Over 1 \<and> \<not> sys_ok w \<or> (\<exists>d. s = Waiting_answer d (runner_fifo_path w) (submit_of (self_pid w) uid (args ! 3)))"
  | (asks) "length args = 2" and "args ! 1 = ''-c''"
    and "hands_over w [(SERVER_FIFO_PATH, zero_msg\<lparr>msg_type := STATUS_REQ, sender_pid := self_pid w\<rparr>)] w'"
    and "s = Over 1 \<and> \<not> sys_ok w \<or> (\<exists>d. s = Reading_status d (runner_fifo_path w))"
  | (stops) "length args = 2" and "args ! 1 = ''-s''"
    and "hands_over w [(SERVER_FIFO_PATH, zero_msg\<lparr>msg_type := SHUTDOWN_REQ, sender_pid := self_pid w\<rparr>)] w'"
    and "s = Over 1 \<and> \<not> sys_ok w \<or> (\<exists>d. s = Waiting_exit d (runner_fifo_path w))"
proof -
  note rule = that
  consider "length args = 2" "args ! 1 = ''-c''" | "length args = 2" "args ! 1 = ''-s''"
    | "length args = 4" "args ! 1 = ''-e''"
    | "\<not> (length args = 2 \<and> args ! 1 \<in> {''-c'', ''-s''})" "\<not> (length args = 4 \<and> args ! 1 = ''-e'')" by blast
  then show thesis
  proof cases
    case 1
    then have "status_begin w = (s, w')" using assms by (simp add: runner_start_def runner_parse_args_def)
    then show thesis using rule(3) [OF 1] status_begin_ok [of w] by force
  next
    case 2
    then have "shutdown_begin w = (s, w')" using assms by (simp add: runner_start_def runner_parse_args_def)
    then show thesis using rule(4) [OF 2] shutdown_begin_ok [of w] by force
  next
    case 3
    then obtain uid where u: "atoi (args ! 2) = Some uid" "execute_begin uid (args ! 3) w = (s, w')"
      using assms by (auto simp: runner_start_def runner_parse_args_def split: Option.bind_splits)
    then show thesis using rule(2) [OF 3 u(1)] execute_begin_ok [of uid "args ! 3" w] by force
  next
    case 4
    then have e: "s = Over 1" "w' = emit (Out usage) w"
      using assms by (auto simp: runner_start_def runner_parse_args_def zero_request_def split: if_splits)
    have "hands_over w [] w'" unfolding e(2) by (rule idle_hands_over [OF idle_out [OF idle_refl]])
    then show thesis using rule(1) e(1) 4 by blast
  qed
qed

lemma hands_over_close:
  assumes "events w1 = events w @ es" and "silent es" and "same_env w w1"
  shows "hands_over w [] (close_runner_fifo d p w1)"
proof -
  obtain es' where c: "outputs (w1\<lparr>open_fds := open_fds w1 - 1\<rparr>) es' (close_runner_fifo d p w1)" "silent es'"
    by (rule close_runner_fifo_outputs)
  show ?thesis
    by (rule hands_overI [of _ _ "es @ es'", OF _ sends_nothing])
      (use assms c in \<open>auto simp: outputs_def same_env_def\<close>)
qed

lemma runner_read_hands_over: "runner_read x s w = (s', w') \<Longrightarrow> hands_over w [] w'"
proof -
  assume r: "runner_read x s w = (s', w')"
  have e: "hands_over w [] (emit (Out t) w)" "hands_over w [] (close_runner_fifo d p (emit (Out t) w))"
    "hands_over w [] (close_runner_fifo d p w)" for t d p
    using idle_hands_over [OF idle_out [OF idle_refl]] hands_over_close [of "emit (Out t) w" w "[Out t]"] hands_over_close [of w w "[]"]
    by (simp_all add: emit_def same_env_def)
  show ?thesis using r e by (cases s) (auto simp: read_defs Let_def split: if_splits prod.splits)
qed

lemma execute_finish_ok:
  obtains r w' where "execute_finish d p sub m w = Some (r, w')"
    and "hands_over w [(SERVER_FIFO_PATH, done_of (self_pid w) m)] w'" and "r = 0 \<or> r = 1" and "sys_ok w \<longrightarrow> r = 0"
proof -
  obtain s es w1 where a: "run_authorised sub m w = Some (s, w1)" "trace w es w1"
    "sends w es [(SERVER_FIFO_PATH, done_of (self_pid w) m)] []" "sys_ok w \<longrightarrow> s \<noteq> - 1" by (rule run_authorised_ok)
  let ?e = "if s = - 1 then Err ''ipc_send_atomic'' else Out (''[runner] command '' @ fmt_d (msg_command_id m) @ '' finished'' @ LF)"
  obtain es' where c: "outputs ((emit ?e w1)\<lparr>open_fds := open_fds (emit ?e w1) - 1\<rparr>) es' (close_runner_fifo d p (emit ?e w1))" "silent es'"
    by (rule close_runner_fifo_outputs)
  have s: "silent ([?e] @ es')" using c(2) by (simp add: silent_def)
  have "sends w (es @ ([?e] @ es')) [(SERVER_FIFO_PATH, done_of (self_pid w) m)] []"
    using sends_silent(1) [OF s] a(3) by blast
  then have "hands_over w [(SERVER_FIFO_PATH, done_of (self_pid w) m)] (close_runner_fifo d p (emit ?e w1))"
    by (rule hands_overI [rotated])
      (use a(2) c(1) in \<open>auto simp: outputs_def trace_def same_oracles_def emit_def same_env_def\<close>)
  moreover have "execute_finish d p sub m w = Some (if s = - 1 then 1 else 0, close_runner_fifo d p (emit ?e w1))"
    using a(1) by (simp add: execute_finish_def)
  ultimately show thesis using that a(4) by auto
qed

end
