(* ===== verification/Controller_Steps.thy ===== *)
theory Controller_Steps
  imports Controller_Run
begin

text \<open>
  The controller cut at its blocking calls: waiting in \<open>open\<close> for a writer, waiting in \<open>read\<close> for a message,
  or returned. Driving these steps by the sessions of the public pipe is the program.
\<close>

subsection \<open>The points where the controller waits\<close>

datatype controller_proc = Opening controller_state | Serving fd controller_state | Returned int

text \<open>The test of the main loop, and what follows when it fails.\<close>

definition loop_test :: "controller_state \<Rightarrow> world \<Rightarrow> (controller_proc \<times> world) option" where
  "loop_test st w =
     (if keep_running st then Some (Opening st, w)
      else do {
        (_, w1) \<leftarrow> controller_destroy_queues st w;
        let (_, w2) = ipc_destroy_fifo SERVER_FIFO_PATH w1;
        Some (Returned 0, w2) })"

definition controller_boot :: "string list \<Rightarrow> world \<Rightarrow> (controller_proc \<times> world) option" where
  "controller_boot argv w = do {
     st \<leftarrow> controller_configure argv;
     let (r, st1, w1) = controller_init_queues st w;
     if r = - 1 then do {
       (_, w2) \<leftarrow> controller_destroy_queues st1 (emit (Err ''failed to create scheduler queues'') w1);
       Some (Returned 1, w2) }
     else do {
       let (c, w2) = ipc_create_fifo SERVER_FIFO_PATH w1;
       if c = - 1 then do {
         (_, w3) \<leftarrow> controller_destroy_queues st1 (emit (Err ''ipc_create_fifo'') w2);
         Some (Returned 1, w3) }
       else loop_test st1 w2 } }"

definition controller_open :: "controller_state \<Rightarrow> world \<Rightarrow> (controller_proc \<times> world) option" where
  "controller_open st w =
     (let (server_fd, w1) = sys_open SERVER_FIFO_PATH w
      in if fd_num server_fd = - 1 then do {
           (_, w2) \<leftarrow> controller_destroy_queues st (emit (Err ''open server fifo'') w1);
           Some (Returned 1, w2) }
         else Some (Serving server_fd st, w1))"

text \<open>The session ends at a read that is not a message, or when the handler says so.\<close>

definition end_session :: "fd \<Rightarrow> controller_state \<Rightarrow> world \<Rightarrow> (controller_proc \<times> world) option" where
  "end_session server_fd st w = (let (_, w1) = sys_close server_fd w in loop_test st w1)"

definition controller_read :: "read_result \<Rightarrow> fd \<Rightarrow> controller_state \<Rightarrow> world \<Rightarrow> (controller_proc \<times> world) option" where
  "controller_read x server_fd st w =
     (case x of (n, msg) \<Rightarrow>
        if n = int sizeof_RpcMessage then do {
          (r, st1, w1) \<leftarrow> controller_handle_message st msg w;
          if r \<noteq> 0 then end_session server_fd st1 w1 else Some (Serving server_fd st1, w1) }
        else end_session server_fd st w)"

subsection \<open>The program as a sequence of its steps\<close>

text \<open>The reads of one session.\<close>

fun controller_session :: "controller_proc \<Rightarrow> read_result list \<Rightarrow> world \<Rightarrow> (controller_proc \<times> world) option" where
  "controller_session (Serving d st) [] w = controller_read (0, zero_msg) d st w"
| "controller_session (Serving d st) (x # inp) w = do { (p, w1) \<leftarrow> controller_read x d st w; controller_session p inp w1 }"
| "controller_session p inp w = Some (p, w)"

fun controller_drive :: "controller_proc \<Rightarrow> read_result list list \<Rightarrow> world \<Rightarrow> (main_result \<times> world) option" where
  "controller_drive (Returned r) ss w = Some (Exit r, w)"
| "controller_drive (Opening st) [] w = Some (Blocked st, w)"
| "controller_drive (Opening st) (inp # ss) w = do {
     (p, w1) \<leftarrow> controller_open st w;
     (p1, w2) \<leftarrow> controller_session p inp w1;
     controller_drive p1 ss w2 }"
| "controller_drive (Serving d st) ss w = None"

lemma loop_test_cases:
  "loop_test st w = Some (p, w') \<Longrightarrow> p = Opening st \<or> p = Returned 0"
  by (auto simp: loop_test_def split: if_splits Option.bind_splits prod.splits)

lemma session_over:
  "p = Opening st \<or> p = Returned r \<Longrightarrow> controller_session p inp w = Some (p, w)"
  by auto

lemma session_test: "do { (p, w1) \<leftarrow> loop_test st w; controller_session p inp w1 } = loop_test st w"
  by (cases "loop_test st w") (use loop_test_cases in \<open>fastforce+\<close>)

lemma session_serve:
  "controller_session (Serving d st) inp w = do { (st1, w1) \<leftarrow> serve st inp w; end_session d st1 w1 }"
proof (induction st inp w rule: serve.induct)
  case (1 st inp w)
  show ?case
  proof (cases inp)
    case Nil
    then show ?thesis
      by (subst serve.simps) (simp add: controller_read_def ipc_read_blocking_def)
  next
    case (Cons x rest)
    obtain n m where x: "x = (n, m)" by (cases x)
    have rd: "ipc_read_blocking inp = ((n, m), rest)" using Cons x by (simp add: ipc_read_blocking_def)
    show ?thesis
    proof (cases "n = int sizeof_RpcMessage")
      case False
      then show ?thesis using session_test rd unfolding Cons x
        by (subst serve.simps) (simp add: controller_read_def end_session_def case_prod_beta)
    next
      case True
      show ?thesis
      proof (cases "controller_handle_message st m w")
        case None
        then show ?thesis using True rd unfolding Cons x by (subst serve.simps) (simp add: controller_read_def)
      next
        case (Some y)
        obtain r st1 w1 where y: "y = (r, st1, w1)" by (cases y)
        note h = Some [unfolded y]
        show ?thesis
        proof (cases "r = 0")
          case True
          have "controller_session (Serving d st1) rest w1 = do { (st2, w2) \<leftarrow> serve st1 rest w1; end_session d st2 w2 }"
            using 1 [OF rd [symmetric] refl \<open>n = _\<close> h refl refl] True by simp
          then show ?thesis using True \<open>n = _\<close> h rd unfolding Cons x by (subst serve.simps) (simp add: controller_read_def)
        next
          case False
          then show ?thesis using \<open>n = _\<close> h rd session_test unfolding Cons x
            by (subst serve.simps) (simp add: controller_read_def end_session_def case_prod_beta)
        qed
      qed
    qed
  qed
qed

lemma loop_steps: "main_loop st ss w = do { (p, w1) \<leftarrow> loop_test st w; controller_drive p ss w1 }"
proof (induction st ss w rule: main_loop.induct)
  case (1 st ss w)
  show ?case
  proof (cases "keep_running st")
    case False
    then show ?thesis by (subst main_loop.simps) (auto simp: loop_test_def case_prod_beta intro!: Option.bind_cong [OF refl])
  next
    case kr: True
    then show ?thesis
    proof (cases ss)
      case Nil
      with kr show ?thesis by (subst main_loop.simps) (simp add: loop_test_def)
    next
      case (Cons inp rest)
      obtain d w1 where o: "sys_open SERVER_FIFO_PATH w = (d, w1)" by (cases "sys_open SERVER_FIFO_PATH w")
      show ?thesis
      proof (cases "fd_num d = - 1")
        case True
        with kr Cons o show ?thesis
          by (subst main_loop.simps) (auto simp: loop_test_def controller_open_def case_prod_beta intro!: Option.bind_cong [OF refl])
      next
        case False
        show ?thesis
        proof (cases "serve st inp w1")
          case None
          with kr Cons o False show ?thesis
            by (subst main_loop.simps) (simp add: loop_test_def controller_open_def session_serve)
        next
          case (Some y)
          obtain st2 w2 where y: "y = (st2, w2)" by (cases y)
          obtain c w3 where c: "sys_close d w2 = (c, w3)" by (cases "sys_close d w2")
          have "main_loop st2 rest w3 = do { (p, w4) \<leftarrow> loop_test st2 w3; controller_drive p rest w4 }"
            using 1 [OF _ Cons o [symmetric] refl False Some y [symmetric] c [symmetric] refl] kr by simp
          with kr Cons o False Some y c show ?thesis
            by (subst main_loop.simps) (simp add: loop_test_def [of st] controller_open_def session_serve end_session_def)
        qed
      qed
    qed
  qed
qed

lemma controller_main_steps: "controller_main argv ss w = do { (p, w1) \<leftarrow> controller_boot argv w; controller_drive p ss w1 }"
  by (auto simp: controller_main_def controller_boot_def loop_steps Let_def case_prod_beta intro!: Option.bind_cong [OF refl])

subsection \<open>Every step implements the specification\<close>

text \<open>
  The process and the abstract state: while it runs they correspond; when it has returned everything is
  released, and a result other than 0 comes from a failed call.
\<close>

definition proc_rep :: "controller_proc \<Rightarrow> world \<Rightarrow> spec \<Rightarrow> bool" where
  "proc_rep p w s \<longleftrightarrow> (case p of
       Opening st \<Rightarrow> ctl_rep st w s \<and> \<not> sp_stop s
     | Serving d st \<Rightarrow> ctl_rep st w s \<and> \<not> sp_stop s
     | Returned r \<Rightarrow> released w \<and> (r = 0 \<and> sp_stop s \<or> r = 1 \<and> \<not> sp_stop s \<and> (\<not> sys_ok w \<or> may_fail w)))"

lemma proc_rep_simps [simp]:
  "proc_rep (Opening st) w s \<longleftrightarrow> ctl_rep st w s \<and> \<not> sp_stop s"
  "proc_rep (Serving d st) w s \<longleftrightarrow> ctl_rep st w s \<and> \<not> sp_stop s"
  "proc_rep (Returned r) w s \<longleftrightarrow> released w \<and> (r = 0 \<and> sp_stop s \<or> r = 1 \<and> \<not> sp_stop s \<and> (\<not> sys_ok w \<or> may_fail w))"
  by (simp_all add: proc_rep_def)

text \<open>A step of the process, with the messages it is meant to send.\<close>

definition goes :: "world \<Rightarrow> sent list \<Rightarrow> world \<Rightarrow> bool" where
  "goes w out w' \<longleftrightarrow> hands_over w out w' \<and> clock_out w' = clock_out w"

lemma goes_effect: "effect w es w' \<Longrightarrow> sends w es out logs \<Longrightarrow> goes w out w'"
  by (simp add: goes_def hands_over_effect) (simp add: effect_def)

lemma goes_env: "goes w out w' \<Longrightarrow> sys_ok w' = sys_ok w \<and> may_fail w' = may_fail w \<and> self_pid w' = self_pid w \<and> clock_ok w' = clock_ok w"
  by (auto simp: goes_def hands_over_def clock_ok_def dest: same_env_cong)

text \<open>The table of descriptors is not part of an effect, so opening and closing are added by hand.\<close>

lemma goes_fds:
  assumes "effect (w\<lparr>tick := t, open_fds := f\<rparr>) es w'" and "sends w es out logs"
  shows "goes w out w'"
  unfolding goes_def
  by (rule conjI, rule hands_overI [OF _ assms(2)]) (use assms(1) in \<open>auto simp: effect_def same_env_def\<close>)

lemma goes_close:
  assumes "effect w es w1" and "sends w es out logs"
  shows "effect (w1\<lparr>tick := t, open_fds := f\<rparr>) es' w2 \<Longrightarrow> silent es' \<Longrightarrow> goes w out w2"
proof -
  assume e: "effect (w1\<lparr>tick := t, open_fds := f\<rparr>) es' w2" "silent es'"
  have s: "sends w (es @ es') out logs" using assms(2) e(2) by simp
  show "goes w out w2" unfolding goes_def
    by (rule conjI, rule hands_overI [OF _ s]) (use assms(1) e(1) in \<open>auto simp: effect_def same_env_def\<close>)
qed

lemma loop_test_ok:
  assumes rep: "ctl_rep st w s"
  obtains p w' es where "loop_test st w = Some (p, w')" and "proc_rep p w' s" and "effect w es w'" and "silent es"
    and "\<not> sp_stop s \<longrightarrow> p = Opening st"
proof (cases "sp_stop s")
  case False
  then have "loop_test st w = Some (Opening st, w)" using ctl_repD(10) [OF rep] by (simp add: loop_test_def)
  then show thesis using that [of "Opening st" w "[]"] rep False by simp
next
  case True
  obtain st' w1 where 1: "controller_destroy_queues st w = Some (st', w1)" "released w1" "effect w [] w1"
    by (rule controller_destroy_queues_ok [OF rep])
  obtain r es t where u: "sys_unlink SERVER_FIFO_PATH w1 = (r, w1\<lparr>tick := t, events := events w1 @ es\<rparr>)" "tick w1 \<le> t"
      "delivered es = []" "logged es = []" "printed es = []" by (rule sys_unlink_effect)
  let ?w2 = "w1\<lparr>tick := t, events := events w1 @ es\<rparr>"
  have o2: "outputs w1 es ?w2" using u(2) by (auto simp: outputs_def)
  have "loop_test st w = Some (Returned 0, ?w2)"
    using 1(1) u(1) True ctl_repD(10) [OF rep] by (simp add: loop_test_def ipc_destroy_fifo_def)
  moreover have "released ?w2" using 1(2) by (simp add: released_def)
  ultimately show thesis using that effect_trans [OF 1(3) outputs_effect [OF o2]] u(3,4) True by (simp add: silent_def)
qed

lemma controller_open_ok:
  assumes rep: "ctl_rep st w s" and going: "\<not> sp_stop s"
  obtains p w' where "controller_open st w = Some (p, w')" and "proc_rep p w' s" and "goes w [] w'"
    and "sys_ok w \<longrightarrow> (\<exists>d. p = Serving d st)"
proof (cases "sys_out w (tick w) < 0")
  case True
  let ?w1 = "emit (Err ''open server fifo'') (w\<lparr>tick := Suc (tick w)\<rparr>)"
  have o: "outputs w [Err ''open server fifo''] ?w1"
    by (auto simp: outputs_def emit_def intro!: exI [of _ "Suc (tick w)"])
  have "ctl_rep st ?w1 s" using rep by (simp add: ctl_rep_outputs [OF o])
  from controller_destroy_queues_ok [OF this] obtain st' w2 where
    2: "controller_destroy_queues st ?w1 = Some (st', w2)" "released w2" "effect ?w1 [] w2" .
  have "controller_open st w = Some (Returned 1, w2)"
    using True 2(1) by (simp add: controller_open_def sys_open_eq)
  moreover have ns: "\<not> sys_ok w" using True sys_okD [of w "tick w"] by auto
  moreover have e: "effect w [Err ''open server fifo''] w2" using effect_trans [OF outputs_effect [OF o] 2(3)] by simp
  moreover have "goes w [] w2" by (rule goes_effect [OF e sends_nothing]) simp
  ultimately show thesis using that 2(2) going effect_cong(1) [OF e] by simp
next
  case False
  let ?w1 = "w\<lparr>tick := Suc (tick w), open_fds := Suc (open_fds w)\<rparr>" and ?d = "Fd (sys_out w (tick w)) SERVER_FIFO_PATH"
  have "ctl_rep st ?w1 s" using rep by (simp add: ctl_rep_fds)
  moreover have "controller_open st w = Some (Serving ?d st, ?w1)"
    using False by (simp add: controller_open_def sys_open_eq)
  moreover have "goes w [] ?w1" by (rule goes_fds [OF effect_refl sends_Nil])
  ultimately show thesis using that going by simp
qed

lemma end_session_ok:
  assumes e0: "effect w es w1" "sends w es out logs" and rep: "ctl_rep st w1 s"
  obtains p w' where "end_session d st w1 = Some (p, w')" and "proc_rep p w' s" and "goes w out w'"
    and "\<not> sp_stop s \<longrightarrow> p = Opening st"
proof -
  let ?w2 = "w1\<lparr>tick := Suc (tick w1), open_fds := open_fds w1 - 1\<rparr>"
  have "ctl_rep st ?w2 s" using rep by (simp add: ctl_rep_fds)
  then obtain p w' es' where l: "loop_test st ?w2 = Some (p, w')" "proc_rep p w' s" "effect ?w2 es' w'" "silent es'"
    "\<not> sp_stop s \<longrightarrow> p = Opening st" by (rule loop_test_ok)
  have "end_session d st w1 = Some (p, w')" using l(1) by (simp add: end_session_def sys_close_eq)
  then show thesis using that l(2,5) goes_close [OF e0 l(3,4)] by simp
qed

lemma controller_read_end_ok:
  assumes rep: "ctl_rep st w s" and going: "\<not> sp_stop s" and n: "n \<noteq> int sizeof_RpcMessage"
  obtains w' where "controller_read (n, m) d st w = Some (Opening st, w')" and "ctl_rep st w' s" and "goes w [] w'"
proof -
  obtain p w' where e: "end_session d st w = Some (p, w')" "proc_rep p w' s" "goes w [] w'" "\<not> sp_stop s \<longrightarrow> p = Opening st"
    by (rule end_session_ok [OF effect_refl sends_Nil rep])
  then show thesis using that n going by (simp add: controller_read_def)
qed

lemma controller_read_message_ok:
  assumes rep: "ctl_rep st w s" and inv: "spec_inv s" and going: "\<not> sp_stop s"
    and clock: "clock_ok w" and bnd: "bounded (Suc k) s"
  obtains p w' s' out logs where "controller_read (int sizeof_RpcMessage, m) d st w = Some (p, w')"
    and "spec_step (may_fail w) (self_pid w) s m out logs s'" and "proc_rep p w' s'" and "goes w out w'"
    and "sp_stop s' \<and> p = Returned 0 \<or> \<not> sp_stop s' \<and> (\<exists>st'. p = Serving d st')"
proof -
  note concl = that
  obtain r st' w1 s' es out logs where 1: "controller_handle_message st m w = Some (r, st', w1)"
    "spec_step (may_fail w) (self_pid w) s m out logs s'" "ctl_rep st' w1 s'" "effect w es w1"
    "sends w es out logs" "r \<noteq> 0 \<longleftrightarrow> sp_stop s'" by (rule handle_message_ok [OF rep inv going clock bnd])
  show thesis
  proof (cases "sp_stop s'")
    case False
    then have "controller_read (int sizeof_RpcMessage, m) d st w = Some (Serving d st', w1)"
      using 1(1,6) by (simp add: controller_read_def)
    then show thesis using concl 1(2,3) False goes_effect [OF 1(4,5)] by simp
  next
    case True
    obtain p w' where e: "end_session d st' w1 = Some (p, w')" "proc_rep p w' s'" "goes w out w'" by (rule end_session_ok [OF 1(4,5,3)])
    have "p = Returned 0" using e(2) True by (cases p) auto
    moreover have "controller_read (int sizeof_RpcMessage, m) d st w = Some (p, w')"
      using 1(1,6) True e(1) by (simp add: controller_read_def)
    ultimately show thesis using concl 1(2) e(2,3) True by simp
  qed
qed

lemma controller_boot_ok:
  assumes fr: "fresh_process w" and cfg: "controller_configure argv = Some st0"
  obtains p w' where "controller_boot argv w = Some (p, w')"
    and "proc_rep p w' (initial (parallel_limit st0) (policy st0))" and "goes w [] w'"
    and "sys_ok w \<and> \<not> may_fail w \<longrightarrow> (\<exists>st. p = Opening st)"
proof -
  note concl = that
  let ?s = "initial (parallel_limit st0) (policy st0)"
  note c = controller_configure_ok [OF cfg]
  have going: "\<not> sp_stop ?s" by (simp add: initial_def)
  have bl: "blocks w = 0" using fr by (simp add: fresh_process_def)
  show thesis
  proof (cases rule: controller_init_queues_ok [OF fr, of st0])
    case (2 st1 w1)
    let ?w2 = "emit (Err ''failed to create scheduler queues'') w1"
    have b2: "blocks ?w2 = 0" and fu: "fair_users st1 = None"
      using bl env_eq_blocks [OF 2(5)] 2(4) c(8) by (simp_all add: emit_def)
    have st2: "store ?w2 m = store w1 m" for m by (simp add: emit_def)
    have e2: "effect w [Err ''failed to create scheduler queues''] ?w2" using effect_emit [OF effect_env [OF 2(5)]] by simp
    from destroy_partial [OF 2(3) [folded st2] fu b2] obtain st3 w3 where
      3: "controller_destroy_queues st1 ?w2 = Some (st3, w3)" "released w3" "effect ?w2 [] w3" .
    have e3: "effect w [Err ''failed to create scheduler queues''] w3" using effect_trans [OF e2 3(3)] by simp
    have g: "goes w [] w3" by (rule goes_effect [OF e3 sends_nothing]) simp
    show thesis
      by (rule concl [of "Returned 1" w3]) (use cfg 2(1,2) 3(1,2) going g goes_env [OF g] in \<open>simp_all add: controller_boot_def\<close>)
  next
    case (1 a b w1)
    let ?st = "st0\<lparr>waiting_queue := At a, running_queue := At b\<rparr>"
    have rep1: "ctl_rep ?st w1 ?s"
      by (rule ctl_rep_initial [OF 1(3,2) _ cfg]) (use bl env_eq_blocks [OF 1(4)] in simp)
    obtain r es t where f: "ipc_create_fifo SERVER_FIFO_PATH w1 = (r, w1\<lparr>tick := t, events := events w1 @ es\<rparr>)"
        "tick w1 \<le> t" "delivered es = []" "logged es = []" "r = - 1 \<longrightarrow> \<not> sys_ok w1"
      "printed es = []" by (rule ipc_create_fifo_effect)
    define w2 where "w2 = w1\<lparr>tick := t, events := events w1 @ es\<rparr>"
    have o2: "outputs w1 es w2" using f(2) by (auto simp: outputs_def w2_def)
    note 2 = f(1) [folded w2_def] outputs_effect [OF o2] f(3-5)
    have e2: "effect w es w2" by (rule effect_env_trans [OF 1(4) 2(2)])
    have sl: "silent es" using 2(3,4) by (simp add: silent_def)
    show thesis
    proof (cases "r = - 1")
      case True
      let ?w3 = "emit (Err ''ipc_create_fifo'') w2"
      have o: "outputs w2 [Err ''ipc_create_fifo''] ?w3" using outputs_emit [OF outputs_refl, of w2] by simp
      have "ctl_rep ?st ?w3 ?s" using rep1 by (simp add: ctl_rep_outputs [OF o] ctl_rep_outputs [OF o2])
      from controller_destroy_queues_ok [OF this] obtain st3 w3 where
        3: "controller_destroy_queues ?st ?w3 = Some (st3, w3)" "released w3" "effect ?w3 [] w3" .
      have e3: "effect w ((es @ [Err ''ipc_create_fifo'']) @ []) w3"
        by (rule effect_trans [OF effect_trans [OF e2 outputs_effect [OF o]] 3(3)])
      have g: "goes w [] w3" by (rule goes_effect [OF e3 sends_nothing]) (simp add: sl)
      have ns: "\<not> sys_ok w" using True 2(5) effect_cong(1) [OF effect_env [OF 1(4)]] by simp
      show thesis
        by (rule concl [of "Returned 1" w3]) (use cfg 1(1) 2(1) True 3(1,2) going g ns goes_env [OF g] in \<open>simp_all add: controller_boot_def\<close>)
    next
      case False
      have kr: "keep_running ?st" using c(4) by simp
      have rep2: "ctl_rep ?st w2 ?s" using rep1 by (simp add: ctl_rep_outputs [OF o2])
      have g: "goes w [] w2" by (rule goes_effect [OF e2 sends_nothing [OF sl]])
      show thesis
        by (rule concl [of "Opening ?st" w2]) (use cfg 1(1) 2(1) False kr rep2 going g in \<open>simp_all add: controller_boot_def loop_test_def\<close>)
    qed
  qed
qed

end
