(* ===== verification/Processes.thy ===== *)
theory Processes
  imports System Runner_Steps Controller_Steps
begin

text \<open>
  The controller program and the runner programs together: every process has its own process state and
  environment, the steps are those of the C functions between two blocking calls, and what a step writes
  to a named pipe is what another process reads from it. No call is assumed to succeed.
\<close>

subsection \<open>States and steps\<close>

text \<open>\<open>None\<close> is a process that has not been started; the number of a process is its process identifier.\<close>

record processes =
  ctl_proc :: controller_proc
  ctl_world :: world
  run_proc :: "int \<Rightarrow> runner_state option"
  run_world :: "int \<Rightarrow> runner_world"
  fifos :: "string \<Rightarrow> RpcMessage list"

text \<open>
  Some call of some process may fail. Only then does a read return something else than the next message
  while a writer is there, or an \<open>open\<close> return without one.
\<close>

definition troubled :: "processes \<Rightarrow> bool" where
  "troubled S \<longleftrightarrow> \<not> sys_ok (ctl_world S) \<or> may_fail (ctl_world S) \<or> (\<exists>p. \<not> sys_ok (run_world S p))"

fun own_pipe :: "runner_state \<Rightarrow> string option" where
  "own_pipe (Waiting_answer d p sub) = Some p"
| "own_pipe (Running_command d p sub m) = Some p"
| "own_pipe (Reading_status d p) = Some p"
| "own_pipe (Waiting_exit d p) = Some p"
| "own_pipe (Over r) = None"

text \<open>A step of the controller: \<open>P\<close> are the pipes after its read.\<close>

definition controller_moves :: "processes \<Rightarrow> controller_proc \<times> world \<Rightarrow> (string \<Rightarrow> RpcMessage list) \<Rightarrow> processes" where
  "controller_moves S r P = (case r of (c, w) \<Rightarrow>
     S\<lparr>ctl_proc := c, ctl_world := w, fifos := deliver (new_sent (ctl_world S) w) P\<rparr>)"

definition runner_moves :: "processes \<Rightarrow> int \<Rightarrow> runner_state \<times> runner_world \<Rightarrow> (string \<Rightarrow> RpcMessage list) \<Rightarrow> processes" where
  "runner_moves S p r P = (case r of (s, w) \<Rightarrow>
     S\<lparr>run_proc := (run_proc S)(p := Some s), run_world := (run_world S)(p := w),
       fifos := deliver (new_sent (run_world S p) w) P\<rparr>)"

text \<open>The programs go on; the number is that of the messages the controller handles in the step.\<close>

inductive work_step :: "processes \<Rightarrow> nat \<Rightarrow> processes \<Rightarrow> bool" where
  step_open: "ctl_proc S = Opening st \<Longrightarrow> fifos S SERVER_FIFO_PATH \<noteq> [] \<or> troubled S \<Longrightarrow>
    controller_open st (ctl_world S) = Some r \<Longrightarrow>
    work_step S 0 (controller_moves S r (fifos S))"
| step_message: "ctl_proc S = Serving d st \<Longrightarrow> fifos S SERVER_FIFO_PATH = m # ms \<Longrightarrow>
    controller_read (int sizeof_RpcMessage, m) d st (ctl_world S) = Some r \<Longrightarrow>
    work_step S 1 (controller_moves S r ((fifos S)(SERVER_FIFO_PATH := ms)))"
| step_end: "ctl_proc S = Serving d st \<Longrightarrow> fifos S SERVER_FIFO_PATH = [] \<or> troubled S \<Longrightarrow> n \<noteq> int sizeof_RpcMessage \<Longrightarrow>
    controller_read (n, m) d st (ctl_world S) = Some r \<Longrightarrow>
    work_step S 0 (controller_moves S r (fifos S))"
| step_read: "run_proc S p = Some s \<Longrightarrow> reading s \<Longrightarrow> own_pipe s = Some path \<Longrightarrow> fifos S path = m # ms \<Longrightarrow>
    work_step S 0 (runner_moves S p (runner_read (int sizeof_RpcMessage, m) s (run_world S p)) ((fifos S)(path := ms)))"
| step_read_end: "run_proc S p = Some s \<Longrightarrow> reading s \<Longrightarrow> troubled S \<Longrightarrow> n \<noteq> int sizeof_RpcMessage \<Longrightarrow>
    work_step S 0 (runner_moves S p (runner_read (n, m) s (run_world S p)) (fifos S))"
| step_execute: "run_proc S p = Some (Running_command d path sub m) \<Longrightarrow>
    execute_finish d path sub m (run_world S p) = Some (r, w) \<Longrightarrow>
    work_step S 0 (runner_moves S p (Over r, w) (fifos S))"

text \<open>
  A user starts a runner with arguments from \<open>A\<close>. When no call fails the public pipe exists only while the
  controller runs.
\<close>

inductive user_starts :: "string list set \<Rightarrow> processes \<Rightarrow> processes \<Rightarrow> bool" for A :: "string list set" where
  user_starts: "run_proc S p = None \<Longrightarrow> pid_ok p \<Longrightarrow> args \<in> A \<Longrightarrow> (\<forall>r. ctl_proc S \<noteq> Returned r) \<or> troubled S \<Longrightarrow>
    runner_start args (run_world S p) = Some r \<Longrightarrow>
    user_starts A S (runner_moves S p r (fifos S))"

definition processes_init :: "string list \<Rightarrow> processes \<Rightarrow> bool" where
  "processes_init cargs S \<longleftrightarrow>
     (\<exists>w. fresh_process w \<and> clock_ok w \<and> controller_boot cargs w = Some (ctl_proc S, ctl_world S)) \<and>
     run_proc S = (\<lambda>_. None) \<and> (\<forall>p. self_pid (run_world S p) = p) \<and> fifos S = (\<lambda>_. [])"

text \<open>The reachable states, with the number of messages the controller has handled.\<close>

inductive preach :: "string list \<Rightarrow> string list set \<Rightarrow> nat \<Rightarrow> processes \<Rightarrow> bool" for cargs :: "string list" and A :: "string list set" where
  preach_init: "processes_init cargs S \<Longrightarrow> preach cargs A 0 S"
| preach_user: "preach cargs A n S \<Longrightarrow> user_starts A S S' \<Longrightarrow> preach cargs A n S'"
| preach_work: "preach cargs A n S \<Longrightarrow> work_step S k S' \<Longrightarrow> preach cargs A (n + k) S'"

inductive_cases work_step_cases: "work_step S k S'"
inductive_cases user_starts_cases: "user_starts A S S'"

subsection \<open>Who may send and receive what\<close>

datatype role = Submitter | Asker | Stopper

fun role_of :: "runner_state \<Rightarrow> role option" where
  "role_of (Waiting_answer d p sub) = Some Submitter"
| "role_of (Running_command d p sub m) = Some Submitter"
| "role_of (Reading_status d p) = Some Asker"
| "role_of (Waiting_exit d p) = Some Stopper"
| "role_of (Over r) = None"

text \<open>A process that has ended may have had any role.\<close>

definition plays :: "(int \<Rightarrow> runner_state option) \<Rightarrow> int \<Rightarrow> role \<Rightarrow> bool" where
  "plays R p r \<longleftrightarrow> (\<exists>s. R p = Some s \<and> (role_of s = None \<or> role_of s = Some r))"

text \<open>The messages of the public pipe.\<close>

definition letter_ok :: "(int \<Rightarrow> runner_state option) \<Rightarrow> RpcMessage \<Rightarrow> bool" where
  "letter_ok R m \<longleftrightarrow> (case msg_type m of
       SUBMIT \<Rightarrow> pid_ok (msg_command_id m) \<and> sender_pid m = msg_command_id m \<and> plays R (msg_command_id m) Submitter
     | DONE \<Rightarrow> pid_ok (msg_command_id m) \<and> (\<exists>r. R (msg_command_id m) = Some (Over r))
     | STATUS_REQ \<Rightarrow> pid_ok (sender_pid m) \<and> plays R (sender_pid m) Asker
     | SHUTDOWN_REQ \<Rightarrow> pid_ok (sender_pid m) \<and> plays R (sender_pid m) Stopper
     | _ \<Rightarrow> False)"

abbreviation waits_for_answer :: "(int \<Rightarrow> runner_state option) \<Rightarrow> int \<Rightarrow> bool" where
  "waits_for_answer R p \<equiv> \<exists>d path sub. R p = Some (Waiting_answer d path sub)"

text \<open>
  The messages of the private pipe of process \<open>p\<close>: an unread authorisation has a slot, and only a
  controller that shuts down says so.
\<close>

definition answer_ok :: "spec \<Rightarrow> (int \<Rightarrow> runner_state option) \<Rightarrow> int \<Rightarrow> RpcMessage \<Rightarrow> bool" where
  "answer_ok s R p m \<longleftrightarrow> (case msg_type m of
       ACK \<Rightarrow> msg_command_id m = p \<and> plays R p Submitter \<and>
         (waits_for_answer R p \<longrightarrow> p \<in> command_id ` set (sp_running s))
     | SHUTDOWN_ACK \<Rightarrow> sp_shut s \<and> (plays R p Submitter \<or> plays R p Stopper)
     | STATUS_RESP \<Rightarrow> plays R p Asker
     | STATUS_END \<Rightarrow> plays R p Asker
     | _ \<Rightarrow> False)"

text \<open>A process that runs its command holds a slot.\<close>

definition runner_ok :: "spec \<Rightarrow> (int \<Rightarrow> runner_state option) \<Rightarrow> int \<Rightarrow> bool" where
  "runner_ok s R p \<longleftrightarrow> (\<forall>st. R p = Some st \<longrightarrow> pid_ok p \<and> (\<forall>path. own_pipe st = Some path \<longrightarrow> path = runner_fifo p) \<and>
     (\<forall>d path sub m. st = Running_command d path sub m \<longrightarrow> msg_command_id m = p \<and> p \<in> command_id ` set (sp_running s)))"

definition traffic_ok :: "spec \<Rightarrow> (string \<Rightarrow> RpcMessage list) \<Rightarrow> (int \<Rightarrow> runner_state option) \<Rightarrow> bool" where
  "traffic_ok s P R \<longleftrightarrow> spec_inv s \<and> stop_inv s \<and> jobs_ok s \<and>
     (\<forall>j\<in>set (sp_waiting s) \<union> set (sp_running s). plays R (command_id j) Submitter) \<and>
     (sp_shut s \<longrightarrow> pid_ok (sp_req s) \<and> plays R (sp_req s) Stopper) \<and>
     (\<forall>m\<in>set (P SERVER_FIFO_PATH). letter_ok R m) \<and>
     (\<forall>p. pid_ok p \<longrightarrow> (\<forall>m\<in>set (P (runner_fifo p)). answer_ok s R p m)) \<and>
     (\<forall>p. runner_ok s R p)"

end
