(* ===== verification/Progress.thy ===== *)
theory Progress
  imports Runner_Prelude
begin

text \<open>
  What it means for a system to get somewhere: its runs from a good state are bounded in number of steps, and
  a run that cannot be prolonged has reached its goal. The contract is stated for any step relation and is
  met by the protocol of the system and by the composed programs.
\<close>

subsection \<open>Bounded runs\<close>

locale bounded_runs =
  fixes step :: "'s \<Rightarrow> 's \<Rightarrow> bool" and run :: "nat \<Rightarrow> 's \<Rightarrow> 's \<Rightarrow> bool" and ready :: "'s \<Rightarrow> bool" and bound :: "'s \<Rightarrow> nat"
  assumes run_none: "run 0 S S"
    and run_more: "run n S T \<Longrightarrow> step T U \<Longrightarrow> run (Suc n) S U"
    and run_bound: "ready S \<Longrightarrow> run n S T \<Longrightarrow> n \<le> bound S"
begin

text \<open>A longest run ends in a state without a next step.\<close>

lemma maximal:
  assumes "ready S"
  shows "\<exists>n T. n \<le> bound S \<and> run n S T \<and> (\<forall>U. \<not> step T U)"
proof -
  let ?N = "{n. \<exists>T. run n S T}"
  have fin: "finite ?N" by (rule finite_subset [of _ "{..bound S}"]) (use run_bound [OF assms] in auto)
  have "0 \<in> ?N" using run_none by blast
  then obtain T where T: "run (Max ?N) S T" using Max_in [OF fin] by blast
  have "\<not> step T U" for U
  proof
    assume "step T U"
    then have "Suc (Max ?N) \<in> ?N" using run_more [OF T] by blast
    then show False using Max_ge [OF fin] by (meson Suc_n_not_le_n)
  qed
  then show ?thesis using T run_bound [OF assms T] by blast
qed

end

subsection \<open>Runs with a goal\<close>

locale goal_runs = bounded_runs +
  fixes goal :: "'a \<Rightarrow> 'a \<Rightarrow> bool"
  assumes stuck_goal: "ready S \<Longrightarrow> run n S T \<Longrightarrow> \<forall>U. \<not> step T U \<Longrightarrow> goal S T"
begin

text \<open>Whatever steps are taken, the goal is reached at the latest when none is left, and one run gets there.\<close>

lemma goal_or_step: "ready S \<Longrightarrow> run n S T \<Longrightarrow> n \<le> bound S \<and> ((\<exists>U. step T U) \<or> goal S T)"
  using run_bound stuck_goal by blast

lemma reaches: "ready S \<Longrightarrow> \<exists>n T. n \<le> bound S \<and> run n S T \<and> goal S T"
  using maximal stuck_goal by blast

end

end
