(* ===== verification/System_Theorems.thy ===== *)
theory System_Theorems
  imports System Handler_Theorems Progress
begin

text \<open>
  The properties of the controller and its runners together, with instances at a concrete run of two
  runners on a controller with one slot.
\<close>

subsection \<open>Bounds\<close>

lemma reach_limit: "reach c lim pol S \<Longrightarrow> sp_limit (ctl S) = lim \<and> sp_policy (ctl S) = pol"
proof (induction rule: reach.induct)
  case reach_init
  then show ?case by (simp add: sys_init_def initial_def)
next
  case (reach_user S S')
  then show ?case by (auto elim: user_step_cases)
next
  case (reach_sys S S')
  then show ?case by (auto elim!: sys_step_cases dest: spec_step_frame)
qed

definition executing :: "system \<Rightarrow> int set" where
  "executing S = {p. \<exists>m. phase S p = Executing m}"

lemma executing_job: "sys_inv S \<Longrightarrow> p \<in> executing S \<Longrightarrow> p \<in> command_id ` set (sp_running (ctl S))"
proof -
  assume inv: "sys_inv S" and p: "p \<in> executing S"
  then obtain m where m: "phase S p = Executing m" by (auto simp: executing_def)
  then have "pid_ok p" using inv by (auto simp: sys_inv_def)
  from inv_owns [OF inv this m] have "njobs p (sp_running (ctl S)) = 1" by simp
  then have "filter (\<lambda>j. command_id j = p) (sp_running (ctl S)) \<noteq> []" by (auto simp: njobs_def)
  then show ?thesis by (auto simp: filter_empty_conv)
qed

subsection \<open>A measure\<close>

fun weight :: "phase \<Rightarrow> nat" where
  "weight Absent = 0"
| "weight Submitted = 3"
| "weight (Executing m) = 2"
| "weight Stopping = 1"
| "weight Finished = 0"

definition active :: "system \<Rightarrow> int set" where
  "active S = {p. phase S p \<noteq> Absent}"

definition effort :: "system \<Rightarrow> nat" where
  "effort S = length (mail S) + (\<Sum>p\<in>active S. weight (phase S p))"

lemma spec_msg_to_runners: "spec_msg fail pid s m out logs s' \<Longrightarrow> to_runners out"
  by (induction rule: spec_msg.induct) (auto simp: to_runners_def ack_def status_msgs_def)

lemma spec_step_to_runners: "spec_step fail pid s m out logs s' \<Longrightarrow> to_runners out"
proof (induction rule: spec_step.induct)
  case (handled m s out logs s1 out2 s2)
  have "to_runners out2" using handled(3) by (auto simp: finish_def to_runners_def farewell_def split: if_splits)
  then show ?case using spec_msg_to_runners [OF handled(2)] by (auto simp: to_runners_def)
qed (simp add: refusal_def)

lemma active_upd: "p \<in> active S \<Longrightarrow> ph \<noteq> Absent \<Longrightarrow> {q. ((phase S)(p := ph)) q \<noteq> Absent} = active S"
  by (auto simp: active_def)

lemma effort_upd:
  assumes fin: "finite (active S)" and p: "p \<in> active S" and ph: "ph \<noteq> Absent"
    and S': "phase S' = (phase S)(p := ph)" "mail S' = mail S @ add" and less: "length add + weight ph < weight (phase S p)"
  shows "effort S' < effort S" and "active S' = active S"
proof -
  show a: "active S' = active S" using active_upd [OF p ph] S'(1) by (simp add: active_def)
  have s: "(\<Sum>q\<in>active S. f q) = f p + (\<Sum>q\<in>active S - {p}. f q)" for f :: "int \<Rightarrow> nat"
    using fin p by (rule sum.remove)
  have "(\<Sum>q\<in>active S - {p}. weight (((phase S)(p := ph)) q)) = (\<Sum>q\<in>active S - {p}. weight (phase S q))"
    by (rule sum.cong) auto
  then show "effort S' < effort S" unfolding effort_def a S' s using less by simp
qed

lemma sys_step_effort:
  assumes "sys_step c S S'" and "finite (active S)"
  shows "effort S' < effort S \<and> active S' = active S"
  using assms(1)
proof (cases rule: sys_step.cases)
  case (sys_serve m ms out logs s')
  have "mail S' = ms" using serve_state_simps(4) [OF spec_step_to_runners [OF sys_serve(4)], of S ms s'] sys_serve(1) by (simp add: serve_state_def)
  then show ?thesis using sys_serve(1,3) by (simp add: effort_def active_def)
next
  case (sys_start p m ms)
  then show ?thesis using effort_upd [OF assms(2), of p "Executing m" S' "[]"] by (simp add: active_def box_upd)
next
  case (sys_refuse p m ms)
  then show ?thesis using effort_upd [OF assms(2), of p Finished S' "[]"] by (simp add: active_def box_upd)
next
  case (sys_report p m)
  then show ?thesis using effort_upd [OF assms(2), of p Finished S' "[done_of p m]"] by (simp add: active_def deliver_server)
next
  case (sys_stopped p m ms)
  then show ?thesis using effort_upd [OF assms(2), of p Finished S' "[]"] by (simp add: active_def box_upd)
qed

lemma reach_active: "reach c lim pol S \<Longrightarrow> finite (active S)"
proof (induction rule: reach.induct)
  case reach_init
  then show ?case by (simp add: active_def sys_init_def)
next
  case (reach_user S S')
  obtain p ph where "phase S' = (phase S)(p := ph)" using reach_user(2) by (auto elim!: user_step_cases)
  then have "active S' \<subseteq> insert p (active S)" by (auto simp: active_def)
  then show ?case using reach_user(3) by (simp add: finite_subset)
next
  case (reach_sys S S')
  then show ?case using sys_step_effort by metis
qed

text \<open>Runs of the programs without new users, with their number of steps.\<close>

inductive sys_run :: "int \<Rightarrow> nat \<Rightarrow> system \<Rightarrow> system \<Rightarrow> bool" for c :: int where
  sys_run_0: "sys_run c 0 S S"
| sys_run_Suc: "sys_step c S S1 \<Longrightarrow> sys_run c n S1 S2 \<Longrightarrow> sys_run c (Suc n) S S2"

lemma sys_run_reach: "sys_run c n S S' \<Longrightarrow> reach c lim pol S \<Longrightarrow> reach c lim pol S'"
  by (induction rule: sys_run.induct) (auto intro: reach_sys)

lemma sys_run_effort: "sys_run c n S S' \<Longrightarrow> finite (active S) \<Longrightarrow> n + effort S' \<le> effort S \<and> active S' = active S"
proof (induction rule: sys_run.induct)
  case (sys_run_Suc S S1 n S2)
  then show ?case using sys_step_effort [of c S S1] by auto
qed simp

lemma sys_run_trans: "sys_run c n S S1 \<Longrightarrow> sys_step c S1 S2 \<Longrightarrow> sys_run c (Suc n) S S2"
  by (induction rule: sys_run.induct) (auto intro: sys_run.intros)

interpretation sys_runs: bounded_runs "sys_step c" "sys_run c" "\<lambda>S. finite (active S)" effort for c
proof
  show "n \<le> effort S" if "finite (active S)" "sys_run c n S T" for n S T using sys_run_effort [OF that(2,1)] by simp
qed (auto intro: sys_run_0 sys_run_trans)

lemma sys_run_maximal: "finite (active S) \<Longrightarrow> \<exists>n S'. sys_run c n S S' \<and> (\<forall>S''. \<not> sys_step c S' S'')"
  using sys_runs.maximal by blast

lemma effort_bound: "finite (active S) \<Longrightarrow> effort S \<le> length (mail S) + 3 * card (active S)"
proof -
  have "weight ph \<le> 3" for ph by (cases ph) auto
  then show ?thesis using sum_bounded_above [of "active S" "\<lambda>p. weight (phase S p)" 3] by (simp add: effort_def mult.commute)
qed

subsection \<open>Deadlocks\<close>

lemma stuck_phases:
  assumes inv: "sys_inv S" and stuck: "\<forall>S'. \<not> sys_step c S S'"
  shows "phase S q \<noteq> Executing m" and "phase S q = Submitted \<Longrightarrow> box q S = []"
proof -
  have ok: "pid_ok q" if "phase S q \<noteq> Absent" using inv that by (auto simp: sys_inv_def)
  show "phase S q \<noteq> Executing m" using stuck ok sys_report [of S q m c] by auto
  show "box q S = []" if "phase S q = Submitted"
  proof (rule ccontr)
    assume "box q S \<noteq> []"
    then obtain m ms where "box q S = m # ms" by (cases "box q S") auto
    then show False using stuck that ok sys_start [of S q m ms c] sys_refuse [of S q m ms c] by (cases "msg_type m = ACK") auto
  qed
qed

lemma stuck_idle:
  assumes inv: "sys_inv S" and stuck: "\<forall>S'. \<not> sys_step c S S'" and ns: "\<not> sp_stop (ctl S)"
  shows "mail S = []" and "sp_running (ctl S) = []" and "sp_waiting (ctl S) = []"
proof -
  note ph = stuck_phases [OF inv stuck]
  show ml: "mail S = []"
  proof (rule ccontr)
    assume "mail S \<noteq> []"
    then obtain m ms where m: "mail S = m # ms" by (cases "mail S") auto
    have "spec_inv (ctl S)" using inv by (simp add: sys_inv_def)
    from spec_step_total [OF this] obtain out logs s' where "spec_step False c (ctl S) m out logs s'" by blast
    from sys_serve [OF ns m this] stuck show False by blast
  qed
  show run: "sp_running (ctl S) = []"
  proof (rule ccontr)
    assume "sp_running (ctl S) \<noteq> []"
    then obtain j where j: "j \<in> set (sp_running (ctl S))" using hd_in_set by blast
    let ?q = "command_id j"
    have q: "pid_ok ?q" using inv j by (auto simp: sys_inv_def jobs_ok_def job_ok_def)
    have "filter (\<lambda>x. command_id x = ?q) (sp_running (ctl S)) \<noteq> []" using j by (auto simp: filter_empty_conv)
    then have r: "0 < njobs ?q (sp_running (ctl S))" by (simp add: njobs_def)
    from inv_owns [OF inv q refl] r ml ph(2) [of ?q] ph(1) [of ?q] show False by (cases "phase S ?q") auto
  qed
  show "sp_waiting (ctl S) = []" using busy_idle [OF _ _ run] inv by (simp add: sys_inv_def)
qed

lemma blocked:
  assumes inv: "sys_inv S" and stuck: "\<forall>S'. \<not> sys_step c S S'" and ph: "phase S p = Submitted \<or> p \<in> executing S"
  shows "sp_stop (ctl S) \<and> phase S p = Submitted \<and> nmail SUBMIT p (mail S) = 1"
proof -
  note sp = stuck_phases [OF inv stuck]
  have sub: "phase S p = Submitted" using sp(1) ph by (auto simp: executing_def)
  have "pid_ok p" using inv sub by (auto simp: sys_inv_def)
  note o = inv_owns [OF inv this sub]
  have stop: "sp_stop (ctl S)" using stuck_idle [OF inv stuck] o sp(2) [OF sub] by (cases "sp_stop (ctl S)") auto
  then have "sp_waiting (ctl S) = []" "sp_running (ctl S) = []" using inv by (auto simp: sys_inv_def stop_inv_def)
  then have "nmail SUBMIT p (mail S) = 1" using o sub sp(2) by auto
  with stop sub show ?thesis by simp
qed

text \<open>A shutdown that has been asked for takes place.\<close>

definition will_stop :: "system \<Rightarrow> bool" where
  "will_stop S \<longleftrightarrow> sp_shut (ctl S) \<or> (\<exists>m\<in>set (mail S). msg_type m = SHUTDOWN_REQ)"

lemma spec_step_shut: "spec_step fail c s m out logs s' \<Longrightarrow> sp_shut s' \<longleftrightarrow> sp_shut s \<or> msg_type m = SHUTDOWN_REQ"
  by (erule spec_step_cases; (erule spec_msg_cases)?) (auto dest: finish_frame promotes_frame)

lemma will_stop_step:
  assumes "sys_step c S S'" and "will_stop S"
  shows "will_stop S'"
  using assms(1)
proof (cases rule: sys_step.cases)
  case (sys_serve m ms out logs s')
  have "mail S' = ms" using serve_state_simps(4) [OF spec_step_to_runners [OF sys_serve(4)], of S ms s'] sys_serve(1) by (simp add: serve_state_def)
  then show ?thesis using assms(2) sys_serve(1,3) spec_step_shut [OF sys_serve(4)] by (auto simp: will_stop_def)
qed (use assms(2) in \<open>auto simp: will_stop_def deliver_server\<close>)

lemma will_stop_run: "sys_run c n S S' \<Longrightarrow> will_stop S \<Longrightarrow> will_stop S'"
  by (induction rule: sys_run.induct) (auto intro: will_stop_step)

lemma reach_asked: "reach c lim pol S \<Longrightarrow> phase S p = Stopping \<Longrightarrow> will_stop S"
proof (induction rule: reach.induct)
  case reach_init
  then show ?case by (simp add: sys_init_def)
next
  case (reach_user S S')
  show ?case using reach_user(2)
  proof (cases rule: user_step.cases)
    case (user_submits q uid cmd)
    then show ?thesis using reach_user(3,4) by (auto simp: will_stop_def deliver_server split: if_splits)
  next
    case (user_stops q)
    then show ?thesis by (simp add: will_stop_def deliver_server shutdown_of_def)
  next
    case (user_looks q)
    then show ?thesis using reach_user(3,4) by (auto simp: will_stop_def split: if_splits)
  qed
next
  case (reach_sys S S')
  have "phase S p = Stopping" using reach_sys(2,4) by (cases rule: sys_step.cases) (auto split: if_splits)
  then show ?case using reach_sys(2,3) will_stop_step by blast
qed

lemma stuck_stopped: "sys_inv S \<Longrightarrow> \<forall>S'. \<not> sys_step c S S' \<Longrightarrow> will_stop S \<Longrightarrow> sp_stop (ctl S)"
proof (rule ccontr)
  assume inv: "sys_inv S" and st: "\<forall>S'. \<not> sys_step c S S'" and w: "will_stop S" and ns: "\<not> sp_stop (ctl S)"
  note i = stuck_idle [OF inv st ns]
  have "sp_shut (ctl S)" using w i(1) by (simp add: will_stop_def)
  moreover have "stop_inv (ctl S)" using inv by (simp add: sys_inv_def)
  ultimately show False using ns i(2,3) by (simp add: stop_inv_def)
qed

subsection \<open>Left behind\<close>

text \<open>Once the controller has exited, a runner without an answer in its pipe never gets one.\<close>

definition forgotten :: "system \<Rightarrow> int \<Rightarrow> bool" where
  "forgotten S p \<longleftrightarrow> sp_stop (ctl S) \<and> pid_ok p \<and> (phase S p = Submitted \<or> phase S p = Stopping) \<and> box p S = []"

lemma forgotten_step: "sys_step c S S' \<Longrightarrow> forgotten S p \<Longrightarrow> forgotten S' p \<and> phase S' p = phase S p"
  by (cases rule: sys_step.cases) (auto simp: forgotten_def box_upd fifo_inj deliver_server split: if_splits)

lemma forgotten_run: "sys_run c n S S' \<Longrightarrow> forgotten S p \<Longrightarrow> phase S' p = phase S p"
  by (induction rule: sys_run.induct) (auto dest: forgotten_step)

subsection \<open>A concrete run\<close>

text \<open>
  One slot; runner 201 submits and is started; runners 300 and 301 ask for the shutdown.
\<close>

text \<open>Each step with what it changes.\<close>

lemma reach_submit:
  assumes "reach c lim pol S" and "phase S p = Absent" and "pid_ok p"
  obtains S' where "reach c lim pol S'" and "ctl S' = ctl S" and "mail S' = mail S @ [submit_of p uid cmd]"
    and "\<And>q. box q S' = box q S" and "phase S' = (phase S)(p := Submitted)"
  using that [OF reach_user [OF assms(1) user_submits [OF assms(2,3), of uid cmd]]] by (simp add: deliver_server)

lemma reach_ask_stop:
  assumes "reach c lim pol S" and "phase S p = Absent" and "pid_ok p"
  obtains S' where "reach c lim pol S'" and "ctl S' = ctl S" and "mail S' = mail S @ [shutdown_of p]"
    and "\<And>q. box q S' = box q S" and "phase S' = (phase S)(p := Stopping)"
  using that [OF reach_user [OF assms(1) user_stops [OF assms(2,3)]]] by (simp add: deliver_server)

lemma reach_serve:
  assumes "reach c lim pol S" and "\<not> sp_stop (ctl S)" and "mail S = m # ms" and "spec_step False c (ctl S) m out logs s'"
  obtains S' where "reach c lim pol S'" and "ctl S' = s'" and "mail S' = ms"
    and "\<And>q. box q S' = box q S @ sent_to q out" and "phase S' = phase S"
  using that [OF reach_sys [OF assms(1) sys_serve [OF assms(2-4), folded serve_state_def]]] spec_step_to_runners [OF assms(4)] by simp

lemma reach_start:
  assumes "reach c lim pol S" and "phase S p = Submitted" and "pid_ok p" and "box p S = m # ms" and "msg_type m = ACK"
  obtains S' where "reach c lim pol S'" and "ctl S' = ctl S" and "mail S' = mail S" and "box p S' = ms"
    and "\<And>q. pid_ok q \<Longrightarrow> q \<noteq> p \<Longrightarrow> box q S' = box q S" and "phase S' = (phase S)(p := Executing m)"
  using that [OF reach_sys [OF assms(1) sys_start [OF assms(2-5)]]] assms(3) by (simp add: box_upd fifo_inj)

lemma reach_report:
  assumes "reach c lim pol S" and "phase S p = Executing m" and "pid_ok p"
  obtains S' where "reach c lim pol S'" and "ctl S' = ctl S" and "mail S' = mail S @ [done_of p m]"
    and "\<And>q. box q S' = box q S" and "phase S' = (phase S)(p := Finished)"
  using that [OF reach_sys [OF assms(1) sys_report [OF assms(2,3)]]] by (simp add: deliver_server)

definition job0 :: job_info where
  "job0 = job_of (submit_of 201 7 ''ls'') \<lparr>tv_sec = 0, tv_usec = 0\<rparr>"

definition one_running :: spec where
  "one_running = (initial 1 ''fcfs'')\<lparr>sp_users := [7], sp_running := [started job0], sp_last := 7\<rparr>"

lemma pids_ok [simp]: "pid_ok 201" "pid_ok 300" "pid_ok 301"
  by (simp_all add: pid_ok_def)

lemma job0_step: "spec_step False 100 (initial 1 ''fcfs'') (submit_of 201 7 ''ls'') [ack 100 job0] [] one_running"
proof -
  have "spec_msg False 100 (initial 1 ''fcfs'') (submit_of 201 7 ''ls'') [ack 100 job0] [] one_running"
    unfolding one_running_def job0_def
    by (rule submit_started [where us = "[7]", THEN back_subst [of "spec_msg _ _ _ _ _ _"]])
      (simp_all add: submit_of_def zero_msg_def initial_def users_after_def add_user_def sane_time_0)
  from handled [OF _ this, of "[]" one_running] show ?thesis by (simp add: finish_def one_running_def initial_def)
qed

lemma one_running_reach:
  obtains S where "reach 100 1 ''fcfs'' S" and "ctl S = one_running" and "mail S = []" and "\<And>q. box q S = sent_to q [ack 100 job0]"
    and "phase S = (\<lambda>_. Absent)(201 := Submitted)"
proof -
  obtain S where 1: "reach 100 1 ''fcfs'' S" "ctl S = initial 1 ''fcfs''" "mail S = [submit_of 201 7 ''ls'']" "\<And>q. box q S = []"
    "phase S = (\<lambda>_. Absent)(201 := Submitted)"
    by (rule reach_submit [OF reach_init, of 1 "''fcfs''" 201 100 7 "''ls''"]) (simp_all add: sys_init_def)
  have ns: "\<not> sp_stop (ctl S)" using 1(2) by (simp add: initial_def)
  obtain S' where "reach 100 1 ''fcfs'' S'" "ctl S' = one_running" "mail S' = []" "\<And>q. box q S' = box q S @ sent_to q [ack 100 job0]"
    "phase S' = phase S" using reach_serve [OF 1(1) ns 1(3) job0_step [folded 1(2)]] by blast
  with 1 that show thesis by simp
qed


lemma submitted_201: "box 201 S = sent_to 201 [ack 100 job0] \<Longrightarrow> box 201 S = [snd (ack 100 job0)]"
  by (simp add: ack_def job0_def job_of_def submit_of_def zero_msg_def)

lemma one_executing_reach:
  obtains S where "reach 100 1 ''fcfs'' S" and "ctl S = one_running" and "mail S = []" and "box 300 S = []" and "box 301 S = []"
    and "phase S = (\<lambda>_. Absent)(201 := Executing (snd (ack 100 job0)))"
proof -
  obtain S where S: "reach 100 1 ''fcfs'' S" "ctl S = one_running" "mail S = []" "\<And>q. box q S = sent_to q [ack 100 job0]"
    "phase S = (\<lambda>_. Absent)(201 := Submitted)" by (rule one_running_reach) blast
  have sub: "phase S 201 = Submitted" using S(5) by simp
  have ack: "msg_type (snd (ack 100 job0)) = ACK" by (simp add: ack_def)
  have far: "q \<noteq> 201 \<Longrightarrow> pid_ok q \<Longrightarrow> box q S = []" for q
    using S(4) [of q] by (simp add: ack_def job0_def job_of_def submit_of_def zero_msg_def fifo_inj)
  obtain S' where S': "reach 100 1 ''fcfs'' S'" "ctl S' = ctl S" "mail S' = mail S" "box 201 S' = []"
    "\<And>q. pid_ok q \<Longrightarrow> q \<noteq> 201 \<Longrightarrow> box q S' = box q S" "phase S' = (phase S)(201 := Executing (snd (ack 100 job0)))"
    using reach_start [OF S(1) sub pids_ok(1) submitted_201 [OF S(4)] ack] by blast
  have "box 300 S' = []" "box 301 S' = []" using S'(5) [of 300] S'(5) [of 301] far by simp_all
  then show thesis using that [OF S'(1)] S S'(2,3,6) by simp
qed

subsection \<open>The controller's code takes the steps of the system\<close>

text \<open>
  A controller process whose memory represents the state of the system handles the next message of
  the public pipe by a step of the system: what it sends is what the step puts into the pipes, its memory
  represents the state after the step, and its result says whether it leaves the main loop.
\<close>

theorem controller_simulates:
  assumes "0 < lim" and "reach c lim pol S" and "\<not> sp_stop (ctl S)" and "mail S = m # ms" and "bounded 1 (ctl S)"
    and "ctl_rep st w (ctl S)" and "self_pid w = c" and "clock_ok w" and "sys_ok w" and "\<not> may_fail w"
  shows "\<exists>r st' w' S' es. controller_handle_message st m w = Some (r, st', w') \<and> events w' = events w @ es \<and>
    sys_step c S S' \<and> pipes S' = deliver (delivered es) ((pipes S)(SERVER_FIFO_PATH := ms)) \<and> phase S' = phase S \<and>
    ctl_rep st' w' (ctl S') \<and> (r \<noteq> 0 \<longleftrightarrow> sp_stop (ctl S'))"
proof -
  have inv: "spec_inv (ctl S)" using reach_inv [OF assms(2,1)] by (simp add: sys_inv_def)
  have bnd: "bounded (Suc 0) (ctl S)" using assms(5) by simp
  from handle_message_ok [OF assms(6) inv assms(3,8) bnd, of m]
  obtain r st' w' s' es out logs where h: "controller_handle_message st m w = Some (r, st', w')"
    "spec_step (may_fail w) (self_pid w) (ctl S) m out logs s'" "ctl_rep st' w' s'" "effect w es w'" "sends w es out logs"
    "r \<noteq> 0 \<longleftrightarrow> sp_stop s'" .
  have "spec_step False c (ctl S) m out logs s'" using h(2) assms(7,10) by simp
  from sys_serve [OF assms(3,4) this]
  have "sys_step c S (S\<lparr>ctl := s', pipes := deliver out ((pipes S)(SERVER_FIFO_PATH := ms))\<rparr>)" .
  moreover have "out = delivered es" using h(5) assms(9) by (simp add: sends_def)
  moreover have "events w' = events w @ es" using h(4) by (simp add: effect_def)
  ultimately show ?thesis using h(1,3,6)
    by (intro exI [of _ r] exI [of _ st'] exI [of _ w'] exI [of _ "S\<lparr>ctl := s', pipes := deliver out ((pipes S)(SERVER_FIFO_PATH := ms))\<rparr>"]
        exI [of _ es]) simp
qed

theorem controller_simulates_witness:
  "\<exists>S S' st w r st' w'. reach 100 1 ''fair'' S \<and> controller_handle_message st (submit_of 201 7 ''ls'') w = Some (r, st', w') \<and>
     sys_step 100 S S' \<and> ctl_rep st' w' (ctl S')"
proof -
  obtain S where S: "reach 100 1 ''fair'' S" "ctl S = initial 1 ''fair''" "mail S = [submit_of 201 7 ''ls'']"
    by (rule reach_submit [OF reach_init, of 1 "''fair''" 201 100 7 "''ls''"]) (simp_all add: sys_init_def)
  obtain st w where w: "ctl_rep st w (ctl S)" "effect demo_world [] w" unfolding S(2) by (rule started_controller)
  have env: "self_pid w = 100" "clock_ok w" "sys_ok w" "\<not> may_fail w"
    using effect_cong [OF w(2)] effect_clock [OF w(2)] by simp_all
  have "\<not> sp_stop (ctl S)" "bounded 1 (ctl S)" using S(2) by (simp_all add: initial_def bounded_def)
  from controller_simulates [OF _ S(1) this(1) S(3) this(2) w(1) env] S(1) show ?thesis by fastforce
qed

subsection \<open>At most as many programs as slots\<close>

text \<open>At every moment of every interleaving of the controller and its runners, at most \<open>lim\<close>
  runners execute their commands, where \<open>lim\<close> is the parallel limit of the controller.\<close>

theorem at_most_limit_execute:
  assumes "0 < lim" and "reach c lim pol S"
  shows "finite (executing S) \<and> int (card (executing S)) \<le> lim"
proof -
  have inv: "sys_inv S" by (rule reach_inv [OF assms(2,1)])
  have sub: "executing S \<subseteq> command_id ` set (sp_running (ctl S))" using executing_job [OF inv] by blast
  have "card (executing S) \<le> card (command_id ` set (sp_running (ctl S)))" using sub by (simp add: card_mono)
  also have "\<dots> \<le> length (sp_running (ctl S))" using card_image_le card_length order_trans by (metis List.finite_set)
  finally have "int (card (executing S)) \<le> sp_limit (ctl S)" using inv by (simp add: sys_inv_def spec_inv_def)
  then show ?thesis using sub reach_limit [OF assms(2)] finite_subset by fastforce
qed

theorem at_most_limit_execute_witness:
  "\<exists>S. reach 100 1 ''fcfs'' S \<and> executing S = {201} \<and> finite (executing S) \<and> int (card (executing S)) \<le> 1"
proof -
  obtain S where S: "reach 100 1 ''fcfs'' S" "phase S = (\<lambda>_. Absent)(201 := Executing (snd (ack 100 job0)))"
    by (rule one_executing_reach) blast
  have "executing S = {201}" using S(2) by (auto simp: executing_def)
  then show ?thesis using at_most_limit_execute [OF _ S(1)] S(1) by auto
qed

subsection \<open>No deadlock while the controller lives\<close>

text \<open>When neither the controller nor a runner can take a step, no runner is in the middle of its
  command, and a runner still waits for an answer to its submission only if the controller has exited
  and its \<open>SUBMIT\<close> message lies unread in the pipe: the protocol never blocks on its own.\<close>

theorem blocked_only_by_exit:
  assumes "0 < lim" and "reach c lim pol S" and "\<forall>S'. \<not> sys_step c S S'" and "phase S p = Submitted \<or> p \<in> executing S"
  shows "sp_stop (ctl S) \<and> phase S p = Submitted \<and> nmail SUBMIT p (mail S) = 1"
  by (rule blocked [OF reach_inv [OF assms(2,1)] assms(3,4)])


lemma exited_reach:
  obtains S where "reach 100 1 ''fcfs'' S" and "sp_stop (ctl S)" and "phase S 201 = Submitted" and "nmail SUBMIT 201 (mail S) = 1"
proof -
  let ?s = "(initial 1 ''fcfs'')\<lparr>sp_shut := True, sp_req := 300\<rparr>"
  obtain S where 1: "reach 100 1 ''fcfs'' S" "ctl S = initial 1 ''fcfs''" "mail S = [shutdown_of 300]"
    "phase S = (\<lambda>_. Absent)(300 := Stopping)"
    by (rule reach_ask_stop [OF reach_init, of 1 "''fcfs''" 300 100]) (simp_all add: sys_init_def)
  have ab: "phase S 201 = Absent" using 1(4) by simp
  obtain S1 where 2: "reach 100 1 ''fcfs'' S1" "ctl S1 = initial 1 ''fcfs''" "mail S1 = [shutdown_of 300, submit_of 201 7 ''ls'']"
    "phase S1 201 = Submitted"
    using reach_submit [OF 1(1) ab pids_ok(1), where uid = 7 and cmd = "''ls''"] 1(2,3)
    by (metis append_Cons append_Nil fun_upd_same)
  have "spec_msg False 100 (initial 1 ''fcfs'') (shutdown_of 300) [] [] ?s"
    using shutdown_requested [of "shutdown_of 300" False 100 "initial 1 ''fcfs''"] by (simp add: shutdown_of_def zero_msg_def)
  from handled [OF _ this, of "[farewell ?s]" "?s\<lparr>sp_stop := True\<rparr>"]
  have step: "spec_step False 100 (ctl S1) (shutdown_of 300) [farewell ?s] [] (?s\<lparr>sp_stop := True\<rparr>)"
    unfolding 2(2) by (simp add: finish_def initial_def shutdown_of_def zero_msg_def)
  have ns: "\<not> sp_stop (ctl S1)" using 2(2) by (simp add: initial_def)
  obtain S2 where "reach 100 1 ''fcfs'' S2" "ctl S2 = ?s\<lparr>sp_stop := True\<rparr>" "mail S2 = [submit_of 201 7 ''ls'']" "phase S2 = phase S1"
    using reach_serve [OF 2(1) ns 2(3) step] by blast
  then show thesis using that 2(4) by (simp add: submit_of_def zero_msg_def)
qed

theorem blocked_only_by_exit_witness:
  "\<exists>S. reach 100 1 ''fcfs'' S \<and> (\<forall>S'. \<not> sys_step 100 S S') \<and> phase S 201 = Submitted \<and> sp_stop (ctl S) \<and> nmail SUBMIT 201 (mail S) = 1"
proof -
  obtain S where S: "reach 100 1 ''fcfs'' S" "sp_stop (ctl S)" "phase S 201 = Submitted" "nmail SUBMIT 201 (mail S) = 1"
    by (rule exited_reach)
  have "box 201 S = []" using inv_owns [OF reach_inv [OF S(1)] pids_ok(1) S(3)] S(4) by auto
  then have f: "forgotten S 201" using S(2,3) by (simp add: forgotten_def)
  obtain n S' where r: "sys_run 100 n S S'" "\<forall>S''. \<not> sys_step 100 S' S''" using sys_run_maximal [OF reach_active [OF S(1)]] by blast
  have "reach 100 1 ''fcfs'' S'" by (rule sys_run_reach [OF r(1) S(1)])
  moreover have "phase S' 201 = Submitted" using forgotten_run [OF r(1) f] S(3) by simp
  ultimately show ?thesis using blocked_only_by_exit [of 1 100 "''fcfs''" S' 201] r(2) by auto
qed

subsection \<open>Every command is executed\<close>

lemma spec_step_keeps_open:
  assumes "spec_step fail c s m out logs s'" and "msg_type m \<noteq> SHUTDOWN_REQ" and "\<not> sp_shut s" and "\<not> sp_stop s"
  shows "\<not> sp_shut s' \<and> \<not> sp_stop s'"
  using assms
proof (induction rule: spec_step.induct)
  case (handled m s out logs s1 out2 s2)
  have "sp_shut s1 = sp_shut s \<and> sp_stop s1 = sp_stop s"
    using handled(2,4) by (cases rule: spec_msg.cases) (auto dest: promotes_frame)
  then show ?case using handled(3,5,6) by (auto simp: finish_def)
qed simp

definition open_for_work :: "system \<Rightarrow> bool" where
  "open_for_work S \<longleftrightarrow> \<not> sp_shut (ctl S) \<and> \<not> sp_stop (ctl S) \<and> (\<forall>p. phase S p \<noteq> Stopping)"

lemma open_step:
  assumes "sys_step c S S'" and "sys_inv S" and "open_for_work S"
  shows "open_for_work S'"
  using assms(1)
proof (cases rule: sys_step.cases)
  case (sys_serve m ms out logs s')
  have "mail_ok S m" using assms(2) sys_serve(3) by (simp add: sys_inv_def)
  then have "msg_type m \<noteq> SHUTDOWN_REQ" using assms(3) by (auto simp: mail_ok_def open_for_work_def)
  with spec_step_keeps_open [OF sys_serve(4)] assms(3) sys_serve(1) show ?thesis by (simp add: open_for_work_def)
qed (use assms(3) in \<open>auto simp: open_for_work_def\<close>)

lemma open_run: "sys_run c n S S' \<Longrightarrow> sys_inv S \<Longrightarrow> open_for_work S \<Longrightarrow> sys_inv S' \<and> open_for_work S'"
  by (induction rule: sys_run.induct) (auto intro: sys_step_inv open_step)

text \<open>As long as nobody asks for a shutdown the goal of a run is that every runner has finished.\<close>

lemma open_goal:
  assumes ready: "finite (active S) \<and> sys_inv S \<and> open_for_work S" and run: "sys_run c n S S'" and stuck: "\<forall>S''. \<not> sys_step c S' S''"
  shows "\<forall>p\<in>active S. phase S' p = Finished"
proof (intro ballI, rule ccontr)
  fix p assume p: "p \<in> active S" and no: "phase S' p \<noteq> Finished"
  have inv': "sys_inv S'" and op: "open_for_work S'" using open_run [OF run] ready by blast+
  have "active S' = active S" using sys_run_effort [OF run] ready by blast
  then have "phase S' p \<noteq> Absent" "phase S' p \<noteq> Stopping" using p op by (auto simp: active_def open_for_work_def)
  with no have "phase S' p = Submitted \<or> p \<in> executing S'" by (cases "phase S' p") (auto simp: executing_def)
  from blocked [OF inv' stuck this] op show False by (simp add: open_for_work_def)
qed

interpretation finishing: goal_runs "sys_step c" "sys_run c" "\<lambda>S. finite (active S) \<and> sys_inv S \<and> open_for_work S" effort
  "\<lambda>S S'. \<forall>p\<in>active S. phase S' p = Finished" for c
proof unfold_locales
  show "n \<le> effort S" if "finite (active S) \<and> sys_inv S \<and> open_for_work S" "sys_run c n S T" for n S T
    using sys_runs.run_bound that by blast
  show "\<forall>p\<in>active S. phase T p = Finished"
    if "finite (active S) \<and> sys_inv S \<and> open_for_work S" "sys_run c n S T" "\<forall>U. \<not> sys_step c T U" for n S T
    by (rule open_goal [OF that])
qed (auto intro: sys_run_0 sys_run_trans)

text \<open>As long as nobody asks for a shutdown, all submitted commands are executed: from every
  reachable state the programs make at most one step per unread message and three per runner, in any
  interleaving, and they can go on until every runner has finished.\<close>

theorem all_runners_finish:
  assumes "0 < lim" and "reach c lim pol S" and "\<not> sp_shut (ctl S)" and "\<forall>p. phase S p \<noteq> Stopping" and "sys_run c n S S'"
  shows "n \<le> length (mail S) + 3 * card (active S) \<and>
    ((\<exists>S''. sys_step c S' S'') \<or> (\<forall>p\<in>active S. phase S' p = Finished))"
proof -
  have inv: "sys_inv S" by (rule reach_inv [OF assms(2,1)])
  have fin: "finite (active S)" by (rule reach_active [OF assms(2)])
  have "open_for_work S" using inv assms(3,4) by (auto simp: open_for_work_def sys_inv_def stop_inv_def)
  then have "n \<le> effort S \<and> ((\<exists>S''. sys_step c S' S'') \<or> (\<forall>p\<in>active S. phase S' p = Finished))"
    using finishing.goal_or_step assms(5) inv fin by blast
  then show ?thesis using effort_bound [OF fin] by (meson order_trans)
qed

theorem all_runners_finish_witness:
  "\<exists>S n S'. reach 100 1 ''fcfs'' S \<and> phase S 201 = Executing (snd (ack 100 job0)) \<and> sys_run 100 n S S' \<and> n \<le> 3 \<and> phase S' 201 = Finished"
proof -
  obtain S where S: "reach 100 1 ''fcfs'' S" "ctl S = one_running" "mail S = []"
    "phase S = (\<lambda>_. Absent)(201 := Executing (snd (ack 100 job0)))"
    by (rule one_executing_reach) blast
  have a: "active S = {201}" using S(4) by (auto simp: active_def)
  then obtain n S' where r: "sys_run 100 n S S'" "\<forall>S''. \<not> sys_step 100 S' S''" using sys_run_maximal [of S 100] by auto
  have "\<not> sp_shut (ctl S)" using S(2) by (simp add: one_running_def initial_def)
  moreover have "\<forall>p. phase S p \<noteq> Stopping" using S(4) by simp
  ultimately have "n \<le> length (mail S) + 3 * card (active S) \<and> ((\<exists>S''. sys_step 100 S' S'') \<or> (\<forall>p\<in>active S. phase S' p = Finished))"
    by (rule all_runners_finish [OF _ S(1) _ _ r(1), simplified])
  then have "n \<le> 3" "phase S' 201 = Finished" using r(2) S(3) a by simp_all
  then show ?thesis using S(1,4) r(1) by (intro exI [of _ S] exI [of _ n] exI [of _ S']) simp
qed

subsection \<open>Runners that are left behind\<close>

text \<open>Only the last requester of a shutdown is told.\<close>

definition told :: "system \<Rightarrow> bool" where
  "told S \<longleftrightarrow> (\<forall>p. phase S p = Stopping \<and> box p S \<noteq> [] \<longrightarrow> p = sp_req (ctl S))"

lemma stopping_box: "sys_pre S \<Longrightarrow> phase S p = Stopping \<Longrightarrow> box p S = []"
proof -
  assume pre: "sys_pre S" and p: "phase S p = Stopping"
  then have "pid_ok p" by (simp add: sys_pre_def)
  then have "owns S p" and "\<not> sp_stop (ctl S)" using pre by (simp_all add: sys_pre_def)
  then show "box p S = []" using p by (simp add: owns_def)
qed

lemma told_open: "sys_pre S \<Longrightarrow> told S"
  by (auto simp: told_def dest: stopping_box)

lemma finish_told:
  assumes pre: "sys_pre S" and f: "finish (ctl S) = (out, s2)"
  shows "told (S\<lparr>ctl := s2, pipes := deliver out (pipes S)\<rparr>)"
proof (cases "sp_shut (ctl S) \<and> sp_running (ctl S) = [] \<and> sp_waiting (ctl S) = []")
  case False
  then show ?thesis using told_open [OF pre] f by (auto simp: finish_def deliver_def split: if_splits)
next
  case True
  then have e: "out = [farewell (ctl S)]" "sp_req s2 = sp_req (ctl S)" using f by (auto simp: finish_def)
  have ok: "pid_ok (sp_req (ctl S))" "\<And>p. phase S p = Stopping \<Longrightarrow> pid_ok p" using pre True by (auto simp: sys_pre_def)
  show ?thesis using stopping_box [OF pre] ok e by (auto simp: told_def deliver_box farewell_def fifo_inj split: if_splits)
qed

lemma serve_told:
  assumes inv: "sys_inv S" and ns: "\<not> sp_stop (ctl S)" and ml: "mail S = m # ms" and step: "spec_step False c (ctl S) m out logs s'"
  shows "told (serve_state S ms out s')"
  using step
proof (cases rule: spec_step.cases)
  case refused
  have "sys_pre (serve_state S ms out s')" unfolding refused(1,3)
    using serve_refused [OF sys_pre_inv [OF inv ns] ml] refused by simp
  then show ?thesis by (rule told_open)
next
  case (handled out1 s1 out2)
  have pre: "sys_pre (serve_state S ms out1 s1)"
    by (rule serve_msg [OF sys_pre_inv [OF inv ns] ml handled(3)]) (use handled(2) in simp)
  have "finish (ctl (serve_state S ms out1 s1)) = (out2, s')" using handled(4) by simp
  from finish_told [OF pre this] show ?thesis unfolding handled(1) by (simp add: serve_state_def deliver_append)
qed

lemma user_told:
  assumes "user_step S S'" and "told S" and inv: "sys_inv S"
  shows "told S'"
proof -
  have e: "pid_ok p \<Longrightarrow> phase S p = Absent \<Longrightarrow> box p S = []" for p using inv_owns [OF inv, of p Absent] by simp
  show ?thesis using assms(1,2) by (cases rule: user_step.cases) (auto simp: told_def deliver_server dest: e)
qed

lemma step_told:
  assumes "sys_step c S S'" and "told S" and inv: "sys_inv S"
  shows "told S'"
  using assms(1)
proof (cases rule: sys_step.cases)
  case (sys_serve m ms out logs s')
  from serve_told [OF inv sys_serve(2-4)] show ?thesis unfolding sys_serve(1) serve_state_def .
qed (use assms(2) in \<open>auto simp: told_def box_upd fifo_inj deliver_server split: if_splits\<close>)

lemma reach_told: "reach c lim pol S \<Longrightarrow> 0 < lim \<Longrightarrow> told S"
proof (induction rule: reach.induct)
  case reach_init
  then show ?case by (simp add: told_def sys_init_def)
next
  case (reach_user S S')
  then show ?case using user_told reach_inv by blast
next
  case (reach_sys S S')
  then show ?case using step_told reach_inv by blast
qed


text \<open>When the controller has exited, a runner that waits and has no answer in its pipe waits
  forever; this happens to a submission that the controller had not read when it exited.\<close>

theorem unread_submission_lost:
  assumes "0 < lim" and "reach c lim pol S" and "sp_stop (ctl S)" and "phase S p = Submitted" and "nmail SUBMIT p (mail S) = 1"
    and "sys_run c n S S'"
  shows "phase S' p = Submitted"
proof -
  have inv: "sys_inv S" by (rule reach_inv [OF assms(2,1)])
  then have ok: "pid_ok p" using assms(4) by (auto simp: sys_inv_def)
  have "box p S = []" using inv_owns [OF inv ok assms(4)] assms(5) by auto
  then have "forgotten S p" using ok assms(3,4) by (simp add: forgotten_def)
  then show ?thesis using forgotten_run [OF assms(6)] assms(4) by simp
qed

theorem unread_submission_lost_witness:
  "\<exists>S n S'. reach 100 1 ''fcfs'' S \<and> sys_run 100 n S S' \<and> (\<forall>S''. \<not> sys_step 100 S' S'') \<and> sp_stop (ctl S) \<and>
     phase S 201 = Submitted \<and> phase S' 201 = Submitted"
proof -
  obtain S where S: "reach 100 1 ''fcfs'' S" "sp_stop (ctl S)" "phase S 201 = Submitted" "nmail SUBMIT 201 (mail S) = 1"
    by (rule exited_reach)
  obtain n S' where r: "sys_run 100 n S S'" "\<forall>S''. \<not> sys_step 100 S' S''" using sys_run_maximal [OF reach_active [OF S(1)]] by blast
  from unread_submission_lost [OF _ S r(1)] S r show ?thesis by auto
qed

text \<open>Of two runners that ask for the shutdown, one at most is ever told that the controller has
  exited; the other one waits forever.\<close>

theorem one_requester_told:
  assumes "0 < lim" and "reach c lim pol S" and "sp_stop (ctl S)" and "phase S p = Stopping" and "phase S q = Stopping" and "p \<noteq> q"
    and "sys_run c n S S'"
  shows "phase S' p = Stopping \<or> phase S' q = Stopping"
proof -
  have inv: "sys_inv S" by (rule reach_inv [OF assms(2,1)])
  then have ok: "pid_ok p" "pid_ok q" using assms(4,5) by (auto simp: sys_inv_def)
  have "box p S = [] \<or> box q S = []" using reach_told [OF assms(2,1)] assms(4-6) by (auto simp: told_def)
  then have "forgotten S p \<or> forgotten S q" using ok assms(3-5) by (auto simp: forgotten_def)
  then show ?thesis using forgotten_run [OF assms(7)] assms(4,5) by fastforce
qed

lemma two_requesters_reach:
  obtains S where "reach 100 1 ''fcfs'' S" and "sp_stop (ctl S)" and "phase S 300 = Stopping" and "phase S 301 = Stopping"
proof -
  let ?m = "snd (ack 100 job0)"
  obtain S where S: "reach 100 1 ''fcfs'' S" "ctl S = one_running" "mail S = []" "phase S = (\<lambda>_. Absent)(201 := Executing ?m)"
    by (rule one_executing_reach) blast
  have ab: "phase S 300 = Absent" using S(4) by simp
  obtain S1 where 1: "reach 100 1 ''fcfs'' S1" "ctl S1 = one_running" "mail S1 = [shutdown_of 300]" "phase S1 = (phase S)(300 := Stopping)"
    using reach_ask_stop [OF S(1) ab pids_ok(2)] S(2,3) by (metis append_Nil)
  have ab1: "phase S1 301 = Absent" using S(4) 1(4) by simp
  obtain S2 where 2: "reach 100 1 ''fcfs'' S2" "ctl S2 = one_running" "mail S2 = [shutdown_of 300, shutdown_of 301]"
    "phase S2 = (phase S1)(301 := Stopping)"
    using reach_ask_stop [OF 1(1) ab1 pids_ok(3)] 1(2,3) by (metis append_Cons append_Nil)
  have ex: "phase S2 201 = Executing ?m" using S(4) 1(4) 2(4) by simp
  obtain S3 where 3: "reach 100 1 ''fcfs'' S3" "ctl S3 = one_running"
    "mail S3 = [shutdown_of 300, shutdown_of 301, done_of 201 ?m]" "phase S3 = (phase S2)(201 := Finished)"
    using reach_report [OF 2(1) ex pids_ok(1)] 2(2,3) by (metis append_Cons append_Nil)
  have req: "spec_step False 100 s (shutdown_of p) [] [] (s\<lparr>sp_shut := True, sp_req := p\<rparr>)" if "sp_running s \<noteq> []" for s p
  proof -
    have t: "msg_type (shutdown_of p) = SHUTDOWN_REQ" "sender_pid (shutdown_of p) = p" by (simp_all add: shutdown_of_def zero_msg_def)
    have "spec_msg False 100 s (shutdown_of p) [] [] (s\<lparr>sp_shut := True, sp_req := p\<rparr>)"
      using shutdown_requested [OF t(1)] unfolding t(2) .
    from handled [OF _ this, of "[]"] show ?thesis using that t by (simp add: finish_def)
  qed
  let ?s1 = "one_running\<lparr>sp_shut := True, sp_req := 300\<rparr>" and ?s2 = "one_running\<lparr>sp_shut := True, sp_req := 301\<rparr>"
  have run: "sp_running one_running \<noteq> []" "\<not> sp_stop one_running" by (simp_all add: one_running_def initial_def)
  have step: "spec_step False 100 (ctl S3) (shutdown_of 300) [] [] ?s1" unfolding 3(2) using run(1) by (rule req)
  have ns: "\<not> sp_stop (ctl S3)" using run(2) 3(2) by simp
  obtain S4 where 4: "reach 100 1 ''fcfs'' S4" "ctl S4 = ?s1" "mail S4 = [shutdown_of 301, done_of 201 ?m]" "phase S4 = phase S3"
    using reach_serve [OF 3(1) ns 3(3) step] by blast
  have step: "spec_step False 100 (ctl S4) (shutdown_of 301) [] [] ?s2" unfolding 4(2) using req [of ?s1 301] run(1) by simp
  have ns: "\<not> sp_stop (ctl S4)" using run(2) 4(2) by simp
  obtain S5 where 5: "reach 100 1 ''fcfs'' S5" "ctl S5 = ?s2" "mail S5 = [done_of 201 ?m]" "phase S5 = phase S4"
    using reach_serve [OF 4(1) ns 4(3) step] by blast
  have ns: "\<not> sp_stop (ctl S5)" using run(2) 5(2) by simp
  let ?s3 = "?s2\<lparr>sp_running := []\<rparr>" and ?j = "started job0"
  have j: "sp_running ?s2 = [?j]" "sp_waiting ?s3 = []" by (simp_all add: one_running_def initial_def)
  have m: "msg_type (done_of 201 ?m) = DONE" "msg_command_id (done_of 201 ?m) = 201"
    by (simp_all add: done_of_def zero_msg_def ack_def job0_def job_of_def submit_of_def)
  have sp: "split_first (\<lambda>j. command_id j = msg_command_id (done_of 201 ?m)) (sp_running ?s2) = Some ([], ?j, [])"
    unfolding j m by (simp add: job0_def job_of_def submit_of_def zero_msg_def)
  have st: "sane_time (start_time ?j)" using sane_time_0 by (simp add: job0_def job_of_def)
  obtain ms where ms: "elapsed_ms (start_time ?j) \<lparr>tv_sec = 0, tv_usec = 0\<rparr> = Some ms" using elapsed_ms_sane [OF st sane_time_0] by blast
  have "promotes False (?s2\<lparr>sp_running := [] @ []\<rparr>) [] ?s3" using promote_stop [of ?s3] j(2) by simp
  from done_known [OF m(1) sp sane_time_0 ms this]
  obtain logs where msg: "spec_msg False 100 ?s2 (done_of 201 ?m) [] logs ?s3" by fastforce
  have step: "spec_step False 100 (ctl S5) (done_of 201 ?m) ([] @ [farewell ?s3]) logs (?s3\<lparr>sp_stop := True\<rparr>)"
    unfolding 5(2) by (rule handled [OF _ msg]) (use m j(2) in \<open>simp_all add: finish_def\<close>)
  obtain S6 where 6: "reach 100 1 ''fcfs'' S6" "ctl S6 = ?s3\<lparr>sp_stop := True\<rparr>" "phase S6 = phase S5"
    using reach_serve [OF 5(1) ns 5(3) step] by blast
  have "phase S6 300 = Stopping" "phase S6 301 = Stopping" using 1(4) 2(4) 3(4) 4(4) 5(4) 6(3) by simp_all
  then show thesis using that [OF 6(1)] 6(2) by simp
qed

theorem one_requester_told_witness:
  "\<exists>S n S'. reach 100 1 ''fcfs'' S \<and> sys_run 100 n S S' \<and> (\<forall>S''. \<not> sys_step 100 S' S'') \<and> phase S 300 = Stopping \<and>
     phase S 301 = Stopping \<and> (phase S' 300 = Stopping \<or> phase S' 301 = Stopping)"
proof -
  obtain S where S: "reach 100 1 ''fcfs'' S" "sp_stop (ctl S)" "phase S 300 = Stopping" "phase S 301 = Stopping"
    by (rule two_requesters_reach)
  obtain n S' where r: "sys_run 100 n S S'" "\<forall>S''. \<not> sys_step 100 S' S''" using sys_run_maximal [OF reach_active [OF S(1)]] by blast
  from one_requester_told [OF _ S _ r(1)] have "phase S' 300 = Stopping \<or> phase S' 301 = Stopping" by simp
  with S r show ?thesis by blast
qed

end
