(* ===== verification/Processes_Correct.thy ===== *)
theory Processes_Correct
  imports Processes System_Theorems
begin

text \<open>
  Whatever calls fail, every step of the composed programs is defined and keeps the traffic in order: the
  pipes hold the messages their readers expect, and a process that runs its command holds a slot of the
  controller.
\<close>

subsection \<open>A message keeps the traffic in order\<close>

lemma promotes_keys_sub:
  "promotes fail s js s' \<Longrightarrow>
    job_key ` set js \<subseteq> job_key ` set (sp_waiting s) \<and> job_key ` set (sp_waiting s') \<subseteq> job_key ` set (sp_waiting s)"
proof (induction rule: promotes.induct)
  case (promote_start s ys j zs js s')
  then show ?case using may_pick_waiting [OF promote_start.hyps(2)] by auto
next
  case (promote_drop s ys j zs l js s')
  then show ?case using may_pick_waiting [OF promote_drop.hyps(3)] by auto
qed simp

text \<open>A property of jobs that depends on their identifiers only.\<close>

lemma promotes_all:
  assumes pr: "promotes fail s js s'" and K: "\<forall>j\<in>set (sp_waiting s). K (job_key j)"
  shows "\<forall>j\<in>set js \<union> set (sp_waiting s'). K (job_key j)"
proof -
  have "\<forall>k\<in>job_key ` set (sp_waiting s). K k" using K by simp
  then show ?thesis using promotes_keys_sub [OF pr] by blast
qed

text \<open>The jobs are those of submitters.\<close>

definition submitted_by :: "(int \<Rightarrow> runner_state option) \<Rightarrow> job_info \<Rightarrow> bool" where
  "submitted_by R j \<longleftrightarrow> job_ok j \<and> plays R (command_id j) Submitter"

definition key_submitted :: "(int \<Rightarrow> runner_state option) \<Rightarrow> int \<times> int \<times> int \<Rightarrow> bool" where
  "key_submitted R = (\<lambda>(u, c, r). pid_ok c \<and> r = c \<and> plays R c Submitter)"

lemma submitted_by_key: "submitted_by R j \<longleftrightarrow> key_submitted R (job_key j)"
  by (auto simp: submitted_by_def key_submitted_def job_ok_def job_key_def)

lemma submitted_by_started [simp]: "submitted_by R (started j) = submitted_by R j"
  by (simp add: submitted_by_key)

lemma submitted_jobs:
  "jobs_ok s \<and> (\<forall>j\<in>set (sp_waiting s) \<union> set (sp_running s). plays R (command_id j) Submitter) \<longleftrightarrow>
    (\<forall>j\<in>set (sp_waiting s) \<union> set (sp_running s). submitted_by R j)"
  by (auto simp: jobs_ok_def submitted_by_def)

text \<open>What a step of the controller sends arrives where it may.\<close>

definition addressed :: "spec \<Rightarrow> (int \<Rightarrow> runner_state option) \<Rightarrow> sent \<Rightarrow> bool" where
  "addressed s R x \<longleftrightarrow> (\<exists>q. pid_ok q \<and> fst x = runner_fifo q \<and> answer_ok s R q (snd x))"

lemma ack_addressed: "submitted_by R j \<Longrightarrow> command_id j \<in> command_id ` set (sp_running s) \<Longrightarrow> addressed s R (ack c j)"
  by (auto simp: addressed_def ack_def submitted_by_def job_ok_def answer_ok_def)

lemma status_addressed:
  "pid_ok (sender_pid m) \<Longrightarrow> plays R (sender_pid m) Asker \<Longrightarrow> x \<in> set (status_msgs c m rs ws) \<Longrightarrow> addressed s R x"
  by (auto simp: addressed_def status_msgs_def status_text_def zero_msg_def answer_ok_def)

definition jobs_submitted :: "spec \<Rightarrow> (int \<Rightarrow> runner_state option) \<Rightarrow> bool" where
  "jobs_submitted s R \<longleftrightarrow> (\<forall>j\<in>set (sp_waiting s) \<union> set (sp_running s). submitted_by R j) \<and>
     (sp_shut s \<longrightarrow> pid_ok (sp_req s) \<and> plays R (sp_req s) Stopper)"

text \<open>The slots of the processes that have not ended.\<close>

definition keeps_slots :: "(int \<Rightarrow> runner_state option) \<Rightarrow> spec \<Rightarrow> spec \<Rightarrow> bool" where
  "keeps_slots R s s' \<longleftrightarrow> (\<forall>q. (\<forall>r. R q \<noteq> Some (Over r)) \<longrightarrow> q \<in> command_id ` set (sp_running s) \<longrightarrow>
     q \<in> command_id ` set (sp_running s'))"

lemma promotes_traffic:
  assumes pr: "promotes fail s js s'" and jobs: "jobs_submitted s R"
  shows "jobs_submitted s' R" and "\<forall>x\<in>set (map (ack c) js). addressed s' R x" and "keeps_slots R s s'"
proof -
  have r: "sp_running s' = sp_running s @ js" by (rule promotes_running [OF pr])
  have f: "sp_shut s' = sp_shut s" "sp_req s' = sp_req s" using promotes_frame [OF pr] by simp_all
  have "\<forall>j\<in>set (sp_waiting s). key_submitted R (job_key j)" using jobs by (simp add: jobs_submitted_def submitted_by_key)
  from promotes_all [OF pr this] have a: "\<forall>j\<in>set js \<union> set (sp_waiting s'). submitted_by R j" by (simp add: submitted_by_key)
  then show "jobs_submitted s' R" using jobs r f by (auto simp: jobs_submitted_def)
  show "\<forall>x\<in>set (map (ack c) js). addressed s' R x" using a r by (auto intro!: ack_addressed)
  show "keeps_slots R s s'" using r by (auto simp: keeps_slots_def)
qed

lemma job_of_submitted:
  assumes "letter_ok R m" and "msg_type m = SUBMIT"
  shows "submitted_by R (job_of m now)" and "command_id (job_of m now) = msg_command_id m"
  using assms by (auto simp: letter_ok_def submitted_by_def job_ok_def job_of_def)

lemma msg_traffic:
  assumes step: "spec_msg fail c s m out logs s'" and jobs: "jobs_submitted s R" and m: "letter_ok R m"
  shows "jobs_submitted s' R \<and> (\<forall>x\<in>set out. addressed s' R x) \<and> keeps_slots R s s'"
  using step
proof (cases rule: spec_msg.cases)
  case (submit_started now us)
  note j = job_of_submitted [OF m submit_started(4)]
  have "addressed s' R (ack c (job_of m now))" by (rule ack_addressed [OF j(1)]) (simp add: submit_started(3))
  then show ?thesis using jobs j submit_started(1,3) by (auto simp: jobs_submitted_def keeps_slots_def)
next
  case (submit_queued now us)
  note j = job_of_submitted [OF m submit_queued(4)]
  show ?thesis using jobs j submit_queued(1,3) by (auto simp: jobs_submitted_def keeps_slots_def)
next
  case (done_known ys j zs t ms js)
  let ?s = "s\<lparr>sp_running := ys @ zs\<rparr>"
  from split_first_SomeD [OF done_known(4)] have j: "sp_running s = ys @ j # zs" "command_id j = msg_command_id m" by auto
  obtain r where r: "R (command_id j) = Some (Over r)" using m done_known(3) j(2) by (auto simp: letter_ok_def)
  have "jobs_submitted ?s R" using jobs j(1) by (auto simp: jobs_submitted_def)
  note p = promotes_traffic(1,3) [OF done_known(7) this] promotes_traffic(2) [OF done_known(7) this, of c]
  have "keeps_slots R s ?s" using j(1) r by (auto simp: keeps_slots_def)
  then show ?thesis using p done_known(1) by (auto simp: keeps_slots_def)
next
  case (done_unknown js)
  then show ?thesis using promotes_traffic(1,3) [OF done_unknown(5) jobs] promotes_traffic(2) [OF done_unknown(5) jobs, of c] done_unknown(1) by simp
next
  case (status_sent wl)
  then show ?thesis using jobs m status_addressed by (auto simp: letter_ok_def keeps_slots_def)
next
  case shutdown_requested
  then show ?thesis using jobs m by (auto simp: letter_ok_def jobs_submitted_def keeps_slots_def)
qed (use jobs in \<open>auto simp: jobs_submitted_def keeps_slots_def\<close>)

lemma addressed_cong: "sp_running s' = sp_running s \<Longrightarrow> sp_shut s' = sp_shut s \<Longrightarrow> addressed s' = addressed s"
  by (intro ext) (simp only: addressed_def answer_ok_def)

lemma step_traffic:
  assumes step: "spec_step fail c s m out logs s'" and jobs: "jobs_submitted s R" and m: "letter_ok R m"
  shows "jobs_submitted s' R \<and> (\<forall>x\<in>set out. addressed s' R x) \<and> keeps_slots R s s'"
  using step
proof (cases rule: spec_step.cases)
  case refused
  then show ?thesis using jobs m by (auto simp: letter_ok_def addressed_def refusal_def answer_ok_def keeps_slots_def)
next
  case (handled out1 s1 out2)
  note t = msg_traffic [OF handled(3) jobs m]
  show ?thesis
  proof (cases "sp_shut s1 \<and> sp_running s1 = [] \<and> sp_waiting s1 = []")
    case False
    then show ?thesis using t handled(1,4) by (auto simp: finish_def)
  next
    case True
    then have e: "out2 = [farewell s1]" "s' = s1\<lparr>sp_stop := True\<rparr>" using handled(4) by (auto simp: finish_def)
    have "sp_shut s'" using True e(2) by simp
    then have "addressed s' R (farewell s1)" using t True by (auto simp: jobs_submitted_def addressed_def farewell_def answer_ok_def)
    moreover have "addressed s' R x = addressed s1 R x" for x using addressed_cong [of s' s1] e(2) by simp
    ultimately show ?thesis using t handled(1) e by (auto simp: jobs_submitted_def keeps_slots_def)
  qed
qed

lemma traffic_okD:
  assumes "traffic_ok s P R"
  shows "spec_inv s" and "stop_inv s" and "jobs_ok s" and "jobs_submitted s R"
    and "\<And>m. m \<in> set (P SERVER_FIFO_PATH) \<Longrightarrow> letter_ok R m"
    and "\<And>p m. pid_ok p \<Longrightarrow> m \<in> set (P (runner_fifo p)) \<Longrightarrow> answer_ok s R p m" and "\<And>p. runner_ok s R p"
  using assms submitted_jobs [of s R] by (simp_all add: traffic_ok_def jobs_submitted_def)

lemma traffic_okI:
  assumes "spec_inv s" and "stop_inv s" and "jobs_submitted s R"
    and "\<And>m. m \<in> set (P SERVER_FIFO_PATH) \<Longrightarrow> letter_ok R m"
    and "\<And>p m. pid_ok p \<Longrightarrow> m \<in> set (P (runner_fifo p)) \<Longrightarrow> answer_ok s R p m" and "\<And>p. runner_ok s R p"
  shows "traffic_ok s P R"
  using assms submitted_jobs [of s R] by (simp add: traffic_ok_def jobs_submitted_def)

lemma addressed_box:
  assumes "\<forall>x\<in>set out. addressed s R x" and "pid_ok p" and "m \<in> set (sent_to p out)"
  shows "answer_ok s R p m"
proof -
  obtain x where x: "x \<in> set out" "fst x = runner_fifo p" "m = snd x" using assms(3) by (auto simp: sent_to_def)
  then obtain q where "pid_ok q" "fst x = runner_fifo q" "answer_ok s R q (snd x)" using assms(1) by (auto simp: addressed_def)
  then show ?thesis using x fifo_inj [OF assms(2), of q] by simp
qed

lemma deliver_set_box: "set (deliver out P (runner_fifo p)) = set (P (runner_fifo p)) \<union> set (sent_to p out)"
  by (simp add: deliver_box)

lemma addressed_server: "\<forall>x\<in>set out. addressed s R x \<Longrightarrow> deliver out P SERVER_FIFO_PATH = P SERVER_FIFO_PATH"
  by (auto simp: deliver_def filter_empty_conv addressed_def)

text \<open>The controller handles a message; some of what it sends may be lost.\<close>

lemma serve_traffic:
  assumes tr: "traffic_ok s P R" and going: "\<not> sp_stop s" and ml: "P SERVER_FIFO_PATH = m # ms"
    and step: "spec_step fail c s m out logs s'" and lost: "set out' \<subseteq> set out"
  shows "traffic_ok s' (deliver out' (P(SERVER_FIFO_PATH := ms))) R"
proof -
  note d = traffic_okD [OF tr]
  have m: "letter_ok R m" using d(5) ml by simp
  from step_traffic [OF step d(4) m] lost
  have t: "jobs_submitted s' R" "\<forall>x\<in>set out'. addressed s' R x" "keeps_slots R s s'" by auto
  show ?thesis
  proof (rule traffic_okI)
    show "spec_inv s'" "stop_inv s'" using spec_step_inv [OF step d(1)] spec_step_stop_inv [OF step d(2) going] .
    show "jobs_submitted s' R" by (rule t(1))
    show "letter_ok R x" if "x \<in> set (deliver out' (P(SERVER_FIFO_PATH := ms)) SERVER_FIFO_PATH)" for x
      using that d(5) ml addressed_server [OF t(2)] by auto
    show "answer_ok s' R p x" if p: "pid_ok p" and x: "x \<in> set (deliver out' (P(SERVER_FIFO_PATH := ms)) (runner_fifo p))" for p x
    proof (cases "x \<in> set (sent_to p out')")
      case True
      then show ?thesis by (rule addressed_box [OF t(2) p])
    next
      case False
      then have "answer_ok s R p x" using x d(6) [OF p] by (auto simp: deliver_set_box)
      then show ?thesis using t(3) spec_step_shut [OF step] by (cases "msg_type x") (auto simp: answer_ok_def keeps_slots_def)
    qed
    show "runner_ok s' R p" for p
      using d(7) [of p] t(3) unfolding runner_ok_def keeps_slots_def by fastforce
  qed
qed

text \<open>A runner moves on: its roles stay, and it reads or writes what its state says.\<close>

lemma runner_traffic:
  assumes tr: "traffic_ok s P R" and R': "R' = R(p := Some st)"
    and going: "\<forall>r. R p \<noteq> Some (Over r)" and roles: "\<And>r. plays R p r \<Longrightarrow> plays R' p r"
    and new: "waits_for_answer R' p \<longrightarrow> R p = None" and ok: "runner_ok s R' p"
    and letters: "\<And>m. m \<in> set (P' SERVER_FIFO_PATH) \<Longrightarrow> m \<in> set (P SERVER_FIFO_PATH) \<or> letter_ok R' m"
    and boxes: "\<And>q. pid_ok q \<Longrightarrow> set (P' (runner_fifo q)) \<subseteq> set (P (runner_fifo q))"
  shows "traffic_ok s P' R'"
proof -
  note d = traffic_okD [OF tr]
  have pl: "plays R q r \<Longrightarrow> plays R' q r" for q r using roles R' by (cases "q = p") (auto simp: plays_def)
  show ?thesis
  proof (rule traffic_okI [OF d(1,2)])
    show "jobs_submitted s R'" using d(4) pl by (auto simp: jobs_submitted_def submitted_by_def)
    show "letter_ok R' m" if "m \<in> set (P' SERVER_FIFO_PATH)" for m
    proof (cases "m \<in> set (P SERVER_FIFO_PATH)")
      case True
      have "letter_ok R m" by (rule d(5) [OF True])
      then show ?thesis using pl going R' by (cases "msg_type m") (auto simp: letter_ok_def)
    qed (use letters [OF that] in blast)
    show "answer_ok s R' q m" if q: "pid_ok q" and m: "m \<in> set (P' (runner_fifo q))" for q m
    proof -
      have a: "answer_ok s R q m" using d(6) [OF q] boxes [OF q] m by blast
      show ?thesis
      proof (cases "q = p")
        case True
        have "R p \<noteq> None" using a True by (cases "msg_type m") (auto simp: answer_ok_def plays_def)
        then have "\<not> waits_for_answer R' p" using new by auto
        then show ?thesis using a pl True by (cases "msg_type m") (auto simp: answer_ok_def)
      next
        case False
        then show ?thesis using a pl R' by (cases "msg_type m") (auto simp: answer_ok_def)
      qed
    qed
    show "runner_ok s R' q" for q
    proof (cases "q = p")
      case False
      then have "R' q = R q" using R' by simp
      then show ?thesis using d(7) [of q] by (simp only: runner_ok_def)
    qed (use ok in simp)
  qed
qed

subsection \<open>The cases of a step\<close>

lemma hands_over_Nil: "hands_over w [] w' \<Longrightarrow> new_sent w w' = []"
  by (auto simp: hands_over_def dest: list_emb_set)

lemma deliver_Nil [simp]: "deliver [] P = P"
  by (simp add: deliver_def)

definition procs_inv :: "nat \<Rightarrow> processes \<Rightarrow> spec \<Rightarrow> bool" where
  "procs_inv n S s \<longleftrightarrow> proc_rep (ctl_proc S) (ctl_world S) s \<and> traffic_ok s (fifos S) (run_proc S) \<and>
     clock_ok (ctl_world S) \<and> (\<forall>p. self_pid (run_world S p) = p) \<and>
     length (sp_users s) \<le> n \<and> length (sp_waiting s) \<le> n \<and> sp_limit s < 2 ^ 31"

lemma procs_invD:
  assumes "procs_inv n S s"
  shows "proc_rep (ctl_proc S) (ctl_world S) s" and "traffic_ok s (fifos S) (run_proc S)"
    and "clock_ok (ctl_world S)" and "\<And>p. self_pid (run_world S p) = p"
    and "length (sp_users s) \<le> n" and "length (sp_waiting s) \<le> n" and "sp_limit s < 2 ^ 31"
  using assms by (simp_all add: procs_inv_def)

lemma procs_runner:
  assumes "procs_inv n S s" and "run_proc S p = Some st"
  shows "pid_ok p" and "own_pipe st = Some path \<Longrightarrow> path = runner_fifo p"
    and "st = Running_command d path' sub m \<Longrightarrow> msg_command_id m = p \<and> p \<in> command_id ` set (sp_running s)"
  using traffic_okD(7) [OF procs_invD(2) [OF assms(1)], of p] assms(2) by (auto simp: runner_ok_def)

text \<open>The cases of a step, with what the functions of the code return in each of them.\<close>

lemma work_cases:
  assumes inv: "procs_inv n S s" and step: "work_step S k S'" and bnd: "3 * int (n + k) < 2 ^ 31"
  obtains (opens) st c w where "k = 0" and "ctl_proc S = Opening st" and "fifos S SERVER_FIFO_PATH \<noteq> [] \<or> troubled S"
      and "S' = S\<lparr>ctl_proc := c, ctl_world := w\<rparr>" and "proc_rep c w s" and "goes (ctl_world S) [] w"
      and "sys_ok (ctl_world S) \<longrightarrow> (\<exists>d. c = Serving d st)"
  | (ends) d st w where "k = 0" and "ctl_proc S = Serving d st" and "fifos S SERVER_FIFO_PATH = [] \<or> troubled S"
      and "S' = S\<lparr>ctl_proc := Opening st, ctl_world := w\<rparr>" and "ctl_rep st w s" and "goes (ctl_world S) [] w" and "\<not> sp_stop s"
  | (serves) m ms out logs s' c w where "k = 1" and "fifos S SERVER_FIFO_PATH = m # ms" and "\<not> sp_stop s"
      and "spec_step (may_fail (ctl_world S)) (self_pid (ctl_world S)) s m out logs s'"
      and "S' = controller_moves S (c, w) ((fifos S)(SERVER_FIFO_PATH := ms))" and "proc_rep c w s'" and "goes (ctl_world S) out w"
      and "sp_stop s' \<and> c = Returned 0 \<or> \<not> sp_stop s' \<and> (\<exists>d st'. c = Serving d st')"
  | (reads) p st st' w m ms where "k = 0" and "run_proc S p = Some st" and "reading st" and "fifos S (runner_fifo p) = m # ms"
      and "runner_read (int sizeof_RpcMessage, m) st (run_world S p) = (st', w)" and "hands_over (run_world S p) [] w"
      and "S' = S\<lparr>run_proc := (run_proc S)(p := Some st'), run_world := (run_world S)(p := w), fifos := (fifos S)(runner_fifo p := ms)\<rparr>"
  | (gives_up) p st st' w n m where "k = 0" and "run_proc S p = Some st" and "reading st" and "troubled S" and "n \<noteq> int sizeof_RpcMessage"
      and "runner_read (n, m) st (run_world S p) = (st', w)" and "hands_over (run_world S p) [] w"
      and "S' = S\<lparr>run_proc := (run_proc S)(p := Some st'), run_world := (run_world S)(p := w)\<rparr>"
  | (executes) p d sub m r w where "k = 0" and "run_proc S p = Some (Running_command d (runner_fifo p) sub m)"
      and "hands_over (run_world S p) [(SERVER_FIFO_PATH, done_of p m)] w" and "r = 0 \<or> r = 1" and "sys_ok (run_world S p) \<longrightarrow> r = 0"
      and "S' = runner_moves S p (Over r, w) (fifos S)"
proof -
  note rule = that
  note d = procs_invD [OF inv]
  note sp = traffic_okD(1) [OF d(2)]
  show thesis
    using step
  proof (cases rule: work_step.cases)
    case (step_open st r)
    have rep: "ctl_rep st (ctl_world S) s" "\<not> sp_stop s" using d(1) step_open(3) by simp_all
    obtain c w where c: "controller_open st (ctl_world S) = Some (c, w)" "proc_rep c w s" "goes (ctl_world S) [] w"
      "sys_ok (ctl_world S) \<longrightarrow> (\<exists>d. c = Serving d st)" by (rule controller_open_ok [OF rep])
    have "S' = S\<lparr>ctl_proc := c, ctl_world := w\<rparr>"
      using step_open(2) step_open(5) [unfolded c(1)] c(3) by (auto simp add: controller_moves_def goes_def hands_over_Nil)
    then show thesis using rule(1) step_open(1,3,4) c by blast
  next
    case (step_message dd st m ms r)
    have rep: "ctl_rep st (ctl_world S) s" "\<not> sp_stop s" using d(1) step_message(3) by simp_all
    have "bounded (Suc 0) s" using bnd d(5-7) step_message(1) by (simp add: bounded_def)
    from controller_read_message_ok [OF rep(1) sp rep(2) d(3) this]
    obtain c w s' out logs where c: "controller_read (int sizeof_RpcMessage, m) dd st (ctl_world S) = Some (c, w)"
      "spec_step (may_fail (ctl_world S)) (self_pid (ctl_world S)) s m out logs s'" "proc_rep c w s'" "goes (ctl_world S) out w"
      "sp_stop s' \<and> c = Returned 0 \<or> \<not> sp_stop s' \<and> (\<exists>st'. c = Serving dd st')" by metis
    have "r = (c, w)" using step_message(5) c(1) by simp
    then show thesis using rule(3) [OF step_message(1,4) rep(2) c(2) _ c(3,4)] step_message(2) c(5) by blast
  next
    case (step_end dd st n' m r)
    have rep: "ctl_rep st (ctl_world S) s" "\<not> sp_stop s" using d(1) step_end(3) by simp_all
    obtain w where c: "controller_read (n', m) dd st (ctl_world S) = Some (Opening st, w)" "ctl_rep st w s" "goes (ctl_world S) [] w"
      by (rule controller_read_end_ok [OF rep step_end(5)])
    have "S' = S\<lparr>ctl_proc := Opening st, ctl_world := w\<rparr>"
      using step_end(2) step_end(6) [unfolded c(1)] c(3) by (auto simp add: controller_moves_def goes_def hands_over_Nil)
    then show thesis using rule(2) step_end(1,3,4) c rep(2) by blast
  next
    case (step_read p st path m ms)
    obtain st' w where r: "runner_read (int sizeof_RpcMessage, m) st (run_world S p) = (st', w)"
      by (cases "runner_read (int sizeof_RpcMessage, m) st (run_world S p)")
    have path: "path = runner_fifo p" by (rule procs_runner(2) [OF inv step_read(3,5)])
    note h = runner_read_hands_over [OF r]
    have "S' = S\<lparr>run_proc := (run_proc S)(p := Some st'), run_world := (run_world S)(p := w), fifos := (fifos S)(runner_fifo p := ms)\<rparr>"
      using step_read(2) r hands_over_Nil [OF h] path by (simp add: runner_moves_def)
    then show thesis using rule(4) [OF step_read(1,3,4) _ r h] step_read(6) path by blast
  next
    case (step_read_end p st n' m)
    obtain st' w where r: "runner_read (n', m) st (run_world S p) = (st', w)" by (cases "runner_read (n', m) st (run_world S p)")
    note h = runner_read_hands_over [OF r]
    have "S' = S\<lparr>run_proc := (run_proc S)(p := Some st'), run_world := (run_world S)(p := w)\<rparr>"
      using step_read_end(2) r hands_over_Nil [OF h] by (simp add: runner_moves_def)
    then show thesis using rule(5) [OF step_read_end(1,3,4,5,6) r h] by blast
  next
    case (step_execute p dd path sub m r w)
    obtain r' w' where e: "execute_finish dd path sub m (run_world S p) = Some (r', w')"
      "hands_over (run_world S p) [(SERVER_FIFO_PATH, done_of (self_pid (run_world S p)) m)] w'" "r' = 0 \<or> r' = 1"
      "sys_ok (run_world S p) \<longrightarrow> r' = 0" by (rule execute_finish_ok)
    have path: "path = runner_fifo p" by (rule procs_runner(2) [OF inv step_execute(3)]) simp
    show thesis
      by (rule rule(6) [where p = p and d = dd and sub = sub and m = m and r = r and w = w])
        (use step_execute e d(4) path in simp_all)
  qed
qed

subsection \<open>The invariant of the composed programs\<close>

lemma runner_read_cases:
  assumes "runner_read (n, m) st w = (st', w')" and "reading st"
  obtains (over) r where "st' = Over r"
  | (authorised) d path sub where "st = Waiting_answer d path sub" and "msg_type m = ACK" and "n = int sizeof_RpcMessage"
      and "st' = Running_command d path sub m"
  | (again) "st' = st" and "\<forall>d path sub. st \<noteq> Waiting_answer d path sub"
  using assms by (cases st) (auto simp: read_defs Let_def split: if_splits)

lemma plays_over: "R p = Some st \<Longrightarrow> plays R p r \<Longrightarrow> plays (R(p := Some (Over c))) p r"
  by (simp add: plays_def)

text \<open>A runner that ends keeps the traffic in order, whatever it still sends.\<close>

lemma over_traffic:
  assumes tr: "traffic_ok s P R" and R: "R p = Some st" and going: "\<forall>r. st \<noteq> Over r"
    and letters: "\<And>m. m \<in> set (P' SERVER_FIFO_PATH) \<Longrightarrow> m \<in> set (P SERVER_FIFO_PATH) \<or> letter_ok (R(p := Some (Over c))) m"
    and boxes: "\<And>q. pid_ok q \<Longrightarrow> set (P' (runner_fifo q)) \<subseteq> set (P (runner_fifo q))"
  shows "traffic_ok s P' (R(p := Some (Over c)))"
proof (rule runner_traffic [OF tr refl _ _ _ _ letters boxes])
  show "runner_ok s (R(p := Some (Over c))) p" using traffic_okD(7) [OF tr, of p] R by (simp add: runner_ok_def)
qed (use R going plays_over in simp_all)

lemma read_traffic:
  assumes tr: "traffic_ok s P R" and R: "R p = Some st" and rd: "reading st"
    and st': "runner_read (n, m) st w = (st', w')" and n: "n = int sizeof_RpcMessage \<longrightarrow> m \<in> set (P (runner_fifo p))"
    and letters: "P' SERVER_FIFO_PATH = P SERVER_FIFO_PATH"
    and boxes: "\<And>q. pid_ok q \<Longrightarrow> set (P' (runner_fifo q)) \<subseteq> set (P (runner_fifo q))"
  shows "traffic_ok s P' (R(p := Some st'))"
  using st' rd
proof (cases rule: runner_read_cases)
  case (over r)
  have "\<forall>r. st \<noteq> Over r" using rd by auto
  from over_traffic [OF tr R this _ boxes] letters show ?thesis unfolding over by simp
next
  case (authorised d path sub)
  have pid: "pid_ok p" using traffic_okD(7) [OF tr, of p] R by (simp add: runner_ok_def)
  have a: "answer_ok s R p m" using traffic_okD(6) [OF tr pid] n authorised(3) by simp
  show ?thesis
  proof (rule runner_traffic [OF tr refl _ _ _ _ _ boxes])
    show "runner_ok s (R(p := Some st')) p"
      using a traffic_okD(7) [OF tr, of p] R authorised(1,2,4) by (simp add: runner_ok_def answer_ok_def)
  qed (use R authorised(1,4) letters in \<open>simp_all add: plays_def\<close>)
next
  case again
  have "R(p := Some st') = R" using R again(1) by auto
  moreover have "traffic_ok s P' R"
  proof (rule traffic_okI)
    show "answer_ok s R q x" if "pid_ok q" "x \<in> set (P' (runner_fifo q))" for q x
      using traffic_okD(6) [OF tr that(1)] boxes [OF that(1)] that(2) by blast
  qed (use traffic_okD [OF tr] letters in auto)
  ultimately show ?thesis by simp
qed

lemma deliver_own: "m \<in> set (deliver out P SERVER_FIFO_PATH) \<Longrightarrow> set out \<subseteq> {(SERVER_FIFO_PATH, m')} \<Longrightarrow>
    m \<in> set (P SERVER_FIFO_PATH) \<or> m = m'"
  by (auto simp: deliver_def)

lemma deliver_own_box: "set out \<subseteq> {(SERVER_FIFO_PATH, m')} \<Longrightarrow> deliver out P (runner_fifo q) = P (runner_fifo q)"
  by (auto simp: deliver_def filter_empty_conv)

lemma goes_sub: "goes w out w' \<Longrightarrow> set (new_sent w w') \<subseteq> set out"
  by (simp add: goes_def hands_over_set)

lemma runner_upd_inv:
  assumes "procs_inv n S s" and "hands_over (run_world S p) out w" and "traffic_ok s P R"
  shows "procs_inv n (S\<lparr>run_proc := R, run_world := (run_world S)(p := w), fifos := P\<rparr>) s"
proof -
  have "self_pid w = p" using assms(1,2) same_env_cong(1) [of "run_world S p" w] by (simp add: procs_inv_def hands_over_def)
  then show ?thesis using assms(1,3) by (simp add: procs_inv_def)
qed

lemma serves_inv:
  assumes inv: "procs_inv n S s" and ml: "fifos S SERVER_FIFO_PATH = m # ms" and going: "\<not> sp_stop s"
    and step: "spec_step (may_fail (ctl_world S)) (self_pid (ctl_world S)) s m out logs s'"
    and rep: "proc_rep c w s'" and g: "goes (ctl_world S) out w"
  shows "procs_inv (n + 1) (controller_moves S (c, w) ((fifos S)(SERVER_FIFO_PATH := ms))) s'"
proof -
  note d = procs_invD [OF inv]
  have "traffic_ok s' (deliver (new_sent (ctl_world S) w) ((fifos S)(SERVER_FIFO_PATH := ms))) (run_proc S)"
    by (rule serve_traffic [OF d(2) going ml step goes_sub [OF g]])
  then show ?thesis using d rep spec_step_frame [OF step] goes_env [OF g] by (simp add: procs_inv_def controller_moves_def)
qed

lemma work_inv:
  assumes inv: "procs_inv n S s" and step: "work_step S k S'" and bnd: "3 * int (n + k) < 2 ^ 31"
  shows "\<exists>s'. procs_inv (n + k) S' s' \<and> sp_limit s' = sp_limit s \<and> sp_policy s' = sp_policy s \<and> (k = 0 \<longrightarrow> s' = s)"
proof -
  note d = procs_invD [OF inv]
  show ?thesis
    using inv step bnd
  proof (cases rule: work_cases)
    case (opens st c w)
    then show ?thesis using d goes_env [OF opens(6)] by (intro exI [of _ s]) (simp add: procs_inv_def)
  next
    case (ends dd st w)
    then show ?thesis using d goes_env [OF ends(6)] by (intro exI [of _ s]) (simp add: procs_inv_def)
  next
    case (serves m ms out logs s' c w)
    from serves_inv [OF inv serves(2-4,6,7)] show ?thesis
      using serves(1,5) spec_step_frame [OF serves(4)] by (intro exI [of _ s']) simp
  next
    case (reads p st st' w m ms)
    have "traffic_ok s ((fifos S)(runner_fifo p := ms)) ((run_proc S)(p := Some st'))"
      by (rule read_traffic [OF d(2) reads(2,3,5)]) (use reads(4) in auto)
    from runner_upd_inv [OF inv reads(6) this] show ?thesis using reads(1,7) by auto
  next
    case (gives_up p st st' w n' m)
    have "traffic_ok s (fifos S) ((run_proc S)(p := Some st'))"
      by (rule read_traffic [OF d(2) gives_up(2,3,6)]) (use gives_up(5) in auto)
    from runner_upd_inv [OF inv gives_up(7) this] show ?thesis using gives_up(1,8) by auto
  next
    case (executes p dd sub m r w)
    have own: "set (new_sent (run_world S p) w) \<subseteq> {(SERVER_FIFO_PATH, done_of p m)}" using hands_over_set [OF executes(3)] by simp
    have id: "msg_command_id m = p" "pid_ok p" using procs_runner [OF inv executes(2)] by auto
    have "traffic_ok s (deliver (new_sent (run_world S p) w) (fifos S)) ((run_proc S)(p := Some (Over r)))"
    proof (rule over_traffic [OF d(2) executes(2)])
      fix x assume "x \<in> set (deliver (new_sent (run_world S p) w) (fifos S) SERVER_FIFO_PATH)"
      from deliver_own [OF this own] id show "x \<in> set (fifos S SERVER_FIFO_PATH) \<or> letter_ok ((run_proc S)(p := Some (Over r))) x"
        by (auto simp: letter_ok_def done_of_def)
    qed (use deliver_own_box [OF own] in simp_all)
    from runner_upd_inv [OF inv executes(3) this] show ?thesis using executes(1,6) by (auto simp: runner_moves_def)
  qed
qed

text \<open>The letter a runner starts with, and the states it may be in then.\<close>

definition starts_with :: "int \<Rightarrow> runner_state \<Rightarrow> RpcMessage \<Rightarrow> bool" where
  "starts_with p st m \<longleftrightarrow> sender_pid m = p \<and>
     (msg_type m = SUBMIT \<and> msg_command_id m = p \<and> (role_of st = None \<or> role_of st = Some Submitter) \<or>
      msg_type m = STATUS_REQ \<and> (role_of st = None \<or> role_of st = Some Asker) \<or>
      msg_type m = SHUTDOWN_REQ \<and> (role_of st = None \<or> role_of st = Some Stopper))"

lemma starts_with_letter: "starts_with p st m \<Longrightarrow> pid_ok p \<Longrightarrow> letter_ok (R(p := Some st)) m"
  by (auto simp: starts_with_def letter_ok_def plays_def)

lemma start_ok:
  assumes "runner_start args w = Some (st, w')" and "self_pid w = p"
  obtains out where "hands_over w out w'" and "\<forall>x\<in>set out. fst x = SERVER_FIFO_PATH \<and> starts_with p st (snd x)"
    and "\<forall>d path sub m. st \<noteq> Running_command d path sub m" and "\<And>path. own_pipe st = Some path \<Longrightarrow> path = runner_fifo p"
  using assms(1)
proof (cases rule: runner_start_cases)
  case usage
  then show thesis by (intro that [of "[]"]) auto
next
  case (submits uid)
  then show thesis using assms(2) by (intro that [OF submits(4)]) (auto simp: starts_with_def submit_of_def runner_fifo_path_def)
next
  case asks
  then show thesis using assms(2) by (intro that [OF asks(3)]) (auto simp: starts_with_def runner_fifo_path_def)
next
  case stops
  then show thesis using assms(2) by (intro that [OF stops(3)]) (auto simp: starts_with_def runner_fifo_path_def)
qed

lemma user_inv:
  assumes inv: "procs_inv n S s" and step: "user_starts A S S'"
  shows "procs_inv n S' s"
proof -
  note d = procs_invD [OF inv]
  from step show ?thesis
  proof (cases rule: user_starts.cases)
    case (user_starts p args r)
    obtain st w where r: "r = (st, w)" by (cases r)
    obtain out where o: "hands_over (run_world S p) out w" "\<forall>x\<in>set out. fst x = SERVER_FIFO_PATH \<and> starts_with p st (snd x)"
      "\<forall>d path sub m. st \<noteq> Running_command d path sub m" "\<And>path. own_pipe st = Some path \<Longrightarrow> path = runner_fifo p"
      using start_ok [OF user_starts(6) [unfolded r] d(4)] by blast
    let ?out = "new_sent (run_world S p) w" and ?R = "(run_proc S)(p := Some st)"
    have sub: "\<forall>x\<in>set ?out. fst x = SERVER_FIFO_PATH \<and> starts_with p st (snd x)"
      using o(2) hands_over_set [OF o(1)] by blast
    have "traffic_ok s (deliver ?out (fifos S)) ?R"
    proof (rule runner_traffic [OF d(2) refl])
      show "runner_ok s ?R p" using user_starts(3) o(3,4) by (auto simp: runner_ok_def)
      show "x \<in> set (fifos S SERVER_FIFO_PATH) \<or> letter_ok ?R x" if "x \<in> set (deliver ?out (fifos S) SERVER_FIFO_PATH)" for x
        using that sub starts_with_letter [OF _ user_starts(3), of st _ "run_proc S"] by (auto simp: deliver_def)
      show "set (deliver ?out (fifos S) (runner_fifo q)) \<subseteq> set (fifos S (runner_fifo q))" for q
        using sub by (auto simp: deliver_def)
    qed (use user_starts(2) in \<open>simp_all add: plays_def\<close>)
    from runner_upd_inv [OF inv o(1) this] show ?thesis using user_starts(1) unfolding r by (simp add: runner_moves_def)
  qed
qed

lemma init_inv:
  assumes init: "processes_init cargs S" and cfg: "controller_configure cargs = Some st0"
  shows "procs_inv 0 S (initial (parallel_limit st0) (policy st0))"
proof -
  let ?s = "initial (parallel_limit st0) (policy st0)"
  note c = controller_configure_ok [OF cfg]
  obtain w where w: "fresh_process w" "clock_ok w" "controller_boot cargs w = Some (ctl_proc S, ctl_world S)"
    and S: "run_proc S = (\<lambda>_. None)" "\<forall>p. self_pid (run_world S p) = p" "fifos S = (\<lambda>_. [])"
    using init by (auto simp: processes_init_def)
  obtain p w' where b: "controller_boot cargs w = Some (p, w')" "proc_rep p w' ?s" "goes w [] w'"
    by (rule controller_boot_ok [OF w(1) cfg])
  have "traffic_ok ?s (\<lambda>_. []) (\<lambda>_. None)"
    by (rule traffic_okI) (use initial_inv [OF c(1)] in \<open>auto simp: initial_def jobs_submitted_def runner_ok_def stop_inv_def\<close>)
  then show ?thesis using w(2,3) b S c(2) goes_env [OF b(3)] by (simp add: procs_inv_def initial_def)
qed

lemma preach_configured:
  "preach cargs A n S \<Longrightarrow> \<exists>st0. controller_configure cargs = Some st0"
  by (induction rule: preach.induct) (auto simp: processes_init_def controller_boot_def split: Option.bind_splits)

lemma preach_inv:
  assumes "preach cargs A n S" and "controller_configure cargs = Some st0" and "3 * int n < 2 ^ 31"
  shows "\<exists>s. procs_inv n S s \<and> sp_limit s = parallel_limit st0 \<and> sp_policy s = policy st0"
  using assms
proof (induction rule: preach.induct)
  case (preach_init S)
  from init_inv [OF this(1,2)] show ?case by (intro exI [of _ "initial (parallel_limit st0) (policy st0)"]) (simp add: initial_def)
next
  case (preach_user n S S')
  then show ?case using user_inv by blast
next
  case (preach_work n S k S')
  then obtain s where s: "procs_inv n S s" "sp_limit s = parallel_limit st0" "sp_policy s = policy st0" by auto
  have "3 * int (n + k) < 2 ^ 31" using preach_work.prems by simp
  from work_inv [OF s(1) preach_work.hyps(2) this] s show ?case by auto
qed

end
