(* ===== verification/Processes_Refine.thy ===== *)
theory Processes_Refine
  imports Processes_Correct
begin

text \<open>
  When no call fails, the composed programs are an implementation of the protocol system of \<open>System\<close>:
  every step of theirs is a step of the system or moves the controller between its two waiting points,
  and they can go on as long as the system can. The absence of deadlocks and the termination of the system
  carry over. Status queries are not part of the system: their messages are erased from the view.
\<close>

subsection \<open>The view of the processes\<close>

fun phase_of :: "runner_state option \<Rightarrow> phase" where
  "phase_of None = Absent"
| "phase_of (Some (Waiting_answer d p sub)) = Submitted"
| "phase_of (Some (Running_command d p sub m)) = Executing m"
| "phase_of (Some (Waiting_exit d p)) = Stopping"
| "phase_of (Some (Reading_status d p)) = Finished"
| "phase_of (Some (Over r)) = Finished"

definition protocol_msg :: "RpcMessage \<Rightarrow> bool" where
  "protocol_msg m \<longleftrightarrow> msg_type m \<notin> {STATUS_REQ, STATUS_RESP, STATUS_END}"

definition view :: "processes \<Rightarrow> spec \<Rightarrow> system" where
  "view S s = \<lparr>ctl = s, pipes = (\<lambda>path. filter protocol_msg (fifos S path)), phase = (\<lambda>p. phase_of (run_proc S p))\<rparr>"

lemma view_simps [simp]:
  "ctl (view S s) = s" "pipes (view S s) path = filter protocol_msg (fifos S path)" "phase (view S s) p = phase_of (run_proc S p)"
  by (simp_all add: view_def)

lemma erase_deliver:
  "(\<lambda>path. filter protocol_msg (deliver out P path)) =
     deliver (filter (\<lambda>x. protocol_msg (snd x)) out) (\<lambda>path. filter protocol_msg (P path))"
  by (simp add: deliver_def filter_map comp_def conj_commute)

lemma erase_upd:
  "(\<lambda>path. filter protocol_msg ((P(q := ms)) path)) = (\<lambda>path. filter protocol_msg (P path))(q := filter protocol_msg ms)"
  by auto

lemma erase_all: "\<forall>x\<in>set out. protocol_msg (snd x) \<Longrightarrow> filter (\<lambda>x. protocol_msg (snd x)) out = out"
  "\<forall>x\<in>set out. \<not> protocol_msg (snd x) \<Longrightarrow> filter (\<lambda>x. protocol_msg (snd x)) out = []"
  by (simp_all add: filter_empty_conv)

text \<open>A status query that is waited for is unread, or its answer is.\<close>

definition asker_served :: "processes \<Rightarrow> bool" where
  "asker_served S \<longleftrightarrow> (\<forall>p d path. run_proc S p = Some (Reading_status d path) \<longrightarrow>
     (\<exists>m\<in>set (fifos S SERVER_FIFO_PATH). msg_type m = STATUS_REQ \<and> sender_pid m = p) \<or>
     (\<exists>m\<in>set (fifos S (runner_fifo p)). msg_type m = STATUS_END))"

lemma asker_servedD:
  "asker_served S \<Longrightarrow> run_proc S p = Some (Reading_status d path) \<Longrightarrow>
     (\<exists>m\<in>set (fifos S SERVER_FIFO_PATH). msg_type m = STATUS_REQ \<and> sender_pid m = p) \<or>
     (\<exists>m\<in>set (fifos S (runner_fifo p)). msg_type m = STATUS_END)"
  unfolding asker_served_def by blast

definition smooth :: "nat \<Rightarrow> processes \<Rightarrow> spec \<Rightarrow> bool" where
  "smooth n S s \<longleftrightarrow> procs_inv n S s \<and> \<not> troubled S \<and> asker_served S \<and> sys_inv (view S s)"

lemma smoothD:
  assumes "smooth n S s"
  shows "procs_inv n S s" and "sys_ok (ctl_world S)" and "\<not> may_fail (ctl_world S)" and "\<And>p. sys_ok (run_world S p)"
    and "\<not> troubled S" and "asker_served S" and "sys_inv (view S s)"
  using assms by (simp_all add: smooth_def troubled_def)

text \<open>The processes that have been started.\<close>

definition started_procs :: "processes \<Rightarrow> int set" where
  "started_procs S = {p. run_proc S p \<noteq> None}"

lemma active_view: "active (view S s) = started_procs S"
proof -
  have "phase_of x \<noteq> Absent \<longleftrightarrow> x \<noteq> None" for x by (cases x rule: phase_of.cases) simp_all
  then show ?thesis by (simp add: active_def started_procs_def)
qed

subsection \<open>Environments\<close>

text \<open>The environment of each process stays what it was.\<close>

definition same_trouble :: "processes \<Rightarrow> processes \<Rightarrow> bool" where
  "same_trouble S S' \<longleftrightarrow> sys_ok (ctl_world S') = sys_ok (ctl_world S) \<and> may_fail (ctl_world S') = may_fail (ctl_world S) \<and>
     self_pid (ctl_world S') = self_pid (ctl_world S) \<and> (\<forall>p. sys_ok (run_world S' p) = sys_ok (run_world S p))"

lemma same_trouble_cong: "same_trouble S S' \<Longrightarrow> troubled S' = troubled S"
  by (simp add: same_trouble_def troubled_def)

lemma same_trouble_runner:
  "hands_over (run_world S p) out w \<Longrightarrow> same_trouble S (S\<lparr>run_proc := R, run_world := (run_world S)(p := w), fifos := P\<rparr>)"
  by (auto simp: same_trouble_def hands_over_def same_env_cong(2))

lemma same_trouble_controller:
  "goes (ctl_world S) out w \<Longrightarrow> same_trouble S (S\<lparr>ctl_proc := c, ctl_world := w, fifos := P\<rparr>)"
  "goes (ctl_world S) out w \<Longrightarrow> same_trouble S (S\<lparr>ctl_proc := c, ctl_world := w\<rparr>)"
  using goes_env [of "ctl_world S" out w] by (simp_all add: same_trouble_def)

lemma work_same_trouble:
  assumes inv: "procs_inv n S s" and step: "work_step S k S'" and bnd: "3 * int (n + k) < 2 ^ 31"
  shows "same_trouble S S'"
  using inv step bnd
proof (cases rule: work_cases)
  case (opens st c w)
  from same_trouble_controller(2) [OF opens(6)] opens(4) show ?thesis by simp
next
  case (ends dd st w)
  from same_trouble_controller(2) [OF ends(6)] ends(4) show ?thesis by simp
next
  case (serves m ms out logs s' c w)
  from same_trouble_controller(1) [OF serves(7)] serves(5) show ?thesis by (simp add: controller_moves_def)
next
  case (reads p st st' w m ms)
  from same_trouble_runner [OF reads(6)] reads(7) show ?thesis by simp
next
  case (gives_up p st st' w n' m)
  from same_trouble_runner [OF gives_up(7), where P = "fifos S"] gives_up(8) show ?thesis by simp
next
  case (executes p dd sub m r w)
  from same_trouble_runner [OF executes(3)] executes(6) show ?thesis by (simp add: runner_moves_def)
qed

lemma user_same_trouble:
  assumes inv: "procs_inv n S s" and step: "user_starts A S S'"
  shows "same_trouble S S'"
  using step
proof (cases rule: user_starts.cases)
  case (user_starts p args r)
  obtain st w where r: "r = (st, w)" by (cases r)
  obtain out where h: "hands_over (run_world S p) out w"
    by (rule start_ok [OF user_starts(6) [unfolded r] procs_invD(4) [OF inv]])
  from same_trouble_runner [OF h] user_starts(1) r show ?thesis by (simp add: runner_moves_def)
qed

subsection \<open>The messages of a step\<close>

lemma status_step:
  assumes step: "spec_step False c s m out logs s'" and m: "msg_type m = STATUS_REQ" and going: "\<not> sp_stop s" "stop_inv s"
  shows "s' = s" and "\<exists>wl. out = status_msgs c m (sp_running s) wl \<and> length wl \<le> length (sp_waiting s)"
proof -
  have "s' = s \<and> (\<exists>wl. out = status_msgs c m (sp_running s) wl \<and> length wl \<le> length (sp_waiting s))"
    using step
  proof (cases rule: spec_step.cases)
    case (handled out1 s1 out2)
    obtain wl where w: "s1 = s" "out1 = status_msgs c m (sp_running s) wl" "status_order False s wl"
      using handled(3) m by (cases rule: spec_msg.cases) auto
    have "length wl \<le> length (sp_waiting s)" using w(3) by (auto simp: status_order_def split: if_splits)
    moreover have "finish s = ([], s)" using going by (auto simp: finish_def stop_inv_def)
    ultimately show ?thesis using w handled(1,4) by auto
  qed (use m in simp)
  then show "s' = s" and "\<exists>wl. out = status_msgs c m (sp_running s) wl \<and> length wl \<le> length (sp_waiting s)" by blast+
qed

lemma status_msgs_erased: "x \<in> set (status_msgs c m rs wl) \<Longrightarrow> \<not> protocol_msg (snd x)"
  by (auto simp: status_msgs_def status_text_def zero_msg_def protocol_msg_def)

lemma status_msgs_end: "(runner_fifo (sender_pid m), zero_msg\<lparr>msg_type := STATUS_END, sender_pid := c\<rparr>) \<in> set (status_msgs c m rs wl)"
  by (simp add: status_msgs_def)

lemma length_status_msgs: "length (status_msgs c m rs wl) = length rs + length wl + 3"
  by (simp add: status_msgs_def)

lemma spec_step_protocol:
  assumes "spec_step fail c s m out logs s'" and "msg_type m \<noteq> STATUS_REQ"
  shows "\<forall>x\<in>set out. protocol_msg (snd x)"
  using assms
  by (elim spec_step_cases; (elim spec_msg_cases)?)
    (auto simp: refusal_def ack_def finish_def farewell_def protocol_msg_def zero_msg_def split: if_splits)

text \<open>Every job has its runner, and a runner has one job at most.\<close>

lemma jobs_bound:
  assumes inv: "procs_inv n S s" and sys: "sys_inv (view S s)" and fin: "finite (started_procs S)"
  shows "length (sp_running s) + length (sp_waiting s) \<le> card (started_procs S)"
proof -
  let ?ids = "map command_id (sp_running s @ sp_waiting s)"
  have jobs: "submitted_by (run_proc S) j" if "j \<in> set (sp_running s @ sp_waiting s)" for j
    using traffic_okD(4) [OF procs_invD(2) [OF inv]] that by (auto simp: jobs_submitted_def)
  have one: "njobs p (sp_running s @ sp_waiting s) \<le> 1" if "pid_ok p" for p
    using inv_owns [OF sys that refl] by (cases "phase (view S s) p") auto
  have cnt: "count (mset (map command_id js)) p = njobs p js" for js p by (induction js) simp_all
  have sub: "set ?ids \<subseteq> started_procs S" using jobs by (auto simp: submitted_by_def plays_def started_procs_def)
  have "distinct ?ids" unfolding distinct_count_atmost_1
  proof
    fix p
    show "count (mset ?ids) p = (if p \<in> set ?ids then 1 else 0)"
    proof (cases "p \<in> set ?ids")
      case True
      then have "pid_ok p" using jobs by (auto simp: submitted_by_def job_ok_def)
      then have "count (mset ?ids) p \<le> 1" using one [of p] cnt [of "sp_running s @ sp_waiting s" p] by simp
      moreover have "count (mset ?ids) p \<noteq> 0" using True by (simp only: count_mset_0_iff not_not)
      ultimately have "count (mset ?ids) p = 1" by linarith
      then show ?thesis using True by (simp only: if_True)
    qed (simp only: count_mset_0_iff if_False simp_thms)
  qed
  then have "length ?ids = card (set ?ids)" by (rule distinct_card [symmetric])
  also have "\<dots> \<le> card (started_procs S)" by (rule card_mono [OF fin sub])
  finally show ?thesis by simp
qed

subsection \<open>A step\<close>

text \<open>
  Between two waits the controller only changes its own state; the potential says which of the two waits
  it can leave without a step of another process.
\<close>

definition restless :: "processes \<Rightarrow> nat" where
  "restless S = (case ctl_proc S of
       Opening st \<Rightarrow> if fifos S SERVER_FIFO_PATH = [] then 0 else 1
     | Serving d st \<Rightarrow> if fifos S SERVER_FIFO_PATH = [] then 1 else 0
     | Returned r \<Rightarrow> 0)"

lemma restless_le: "restless S \<le> 1"
  by (auto simp: restless_def split: controller_proc.splits)

text \<open>What the status queries cost: the unread queries, each with its answer, and the unread answers.\<close>

abbreviation asides :: "RpcMessage list \<Rightarrow> nat" where
  "asides ms \<equiv> length (filter (\<lambda>m. \<not> protocol_msg m) ms)"

definition answers_left :: "(string \<Rightarrow> RpcMessage list) \<Rightarrow> int set \<Rightarrow> nat" where
  "answers_left P A = (\<Sum>p\<in>A. asides (P (runner_fifo p)))"

definition chatter :: "processes \<Rightarrow> nat" where
  "chatter S = asides (fifos S SERVER_FIFO_PATH) * (card (started_procs S) + 5) + answers_left (fifos S) (started_procs S)"

lemma sum_sent_to:
  assumes "finite A" and "\<forall>p\<in>A. pid_ok p"
  shows "(\<Sum>p\<in>A. length (sent_to p out)) \<le> length out"
proof (induction out)
  case (Cons x out)
  have "(\<Sum>p\<in>A. if fst x = runner_fifo p then 1 else (0 :: nat)) = card {p\<in>A. fst x = runner_fifo p}"
    using assms(1) by (simp add: sum.If_cases Int_def conj_commute)
  also have "\<dots> \<le> 1" using assms by (intro card_le_Suc0_iff_eq [THEN iffD2, folded One_nat_def]) (auto simp: fifo_inj)
  finally have "(\<Sum>p\<in>A. (if fst x = runner_fifo p then 1 else 0) + length (sent_to p out)) \<le> 1 + length out"
    unfolding sum.distrib using Cons by (rule add_mono)
  moreover have "(\<Sum>p\<in>A. length (sent_to p (x # out))) = (\<Sum>p\<in>A. (if fst x = runner_fifo p then 1 else 0) + length (sent_to p out))"
    by (rule sum.cong) auto
  ultimately show ?case by simp
qed simp

lemma answers_left_deliver:
  assumes "finite A" and "\<forall>p\<in>A. pid_ok p"
  shows "answers_left (deliver out P) A \<le> answers_left P A + length out"
proof -
  have "answers_left (deliver out P) A = (\<Sum>p\<in>A. asides (P (runner_fifo p)) + asides (sent_to p out))"
    by (simp add: answers_left_def deliver_box)
  also have "\<dots> \<le> (\<Sum>p\<in>A. asides (P (runner_fifo p)) + length (sent_to p out))" by (rule sum_mono) simp
  also have "\<dots> \<le> answers_left P A + length out" using sum_sent_to [OF assms, of out] by (simp add: sum.distrib answers_left_def)
  finally show ?thesis .
qed

lemma answers_left_protocol:
  assumes "\<forall>x\<in>set out. protocol_msg (snd x)"
  shows "answers_left (deliver out P) A = answers_left P A"
proof -
  have "filter (\<lambda>m. \<not> protocol_msg m) (sent_to p out) = []" for p using assms by (auto simp: filter_empty_conv sent_to_def)
  then show ?thesis by (simp add: answers_left_def deliver_box)
qed

lemma answers_left_server [simp]: "answers_left (P(SERVER_FIFO_PATH := ms)) A = answers_left P A"
  by (simp add: answers_left_def)

lemma answers_left_read:
  assumes fin: "finite A" and ok: "\<forall>q\<in>A. pid_ok q" and p: "p \<in> A" and box: "P (runner_fifo p) = m # ms"
  shows "answers_left P A = (if protocol_msg m then 0 else 1) + answers_left (P(runner_fifo p := ms)) A"
proof -
  have s: "(\<Sum>q\<in>A. f q) = f p + (\<Sum>q\<in>A - {p}. f q)" for f :: "int \<Rightarrow> nat" by (rule sum.remove [OF fin p])
  have "(\<Sum>q\<in>A - {p}. asides ((P(runner_fifo p := ms)) (runner_fifo q))) = (\<Sum>q\<in>A - {p}. asides (P (runner_fifo q)))"
    by (rule sum.cong) (use ok p in \<open>auto simp: fifo_inj\<close>)
  then show ?thesis unfolding answers_left_def s using box by simp
qed

text \<open>
  A step of the programs is a step of the system that leaves the status queries as they are, or it is
  none and uses up a part of the two potentials.
\<close>

definition mimics :: "processes \<Rightarrow> spec \<Rightarrow> processes \<Rightarrow> spec \<Rightarrow> bool" where
  "mimics S s S' s' \<longleftrightarrow> started_procs S' = started_procs S \<and>
     (sys_step (self_pid (ctl_world S)) (view S s) (view S' s') \<and> chatter S' = chatter S \<or>
      view S' s' = view S s \<and> s' = s \<and> chatter S' + restless S' < chatter S + restless S)"

lemma started_pids: "procs_inv n S s \<Longrightarrow> \<forall>p\<in>started_procs S. pid_ok p"
  using procs_runner(1) by (auto simp: started_procs_def)

lemma answer_protocol: "answer_ok s R p m \<Longrightarrow> R p = Some st \<Longrightarrow> role_of st = Some r \<Longrightarrow> protocol_msg m \<longleftrightarrow> r \<noteq> Asker"
  by (cases "msg_type m") (auto simp: answer_ok_def plays_def protocol_msg_def)

lemma letter_protocol: "letter_ok R m \<Longrightarrow> protocol_msg m \<longleftrightarrow> msg_type m \<noteq> STATUS_REQ"
  by (cases "msg_type m") (auto simp: letter_ok_def protocol_msg_def)

text \<open>The state after a message has been read and answered.\<close>

definition served :: "processes \<Rightarrow> RpcMessage list \<Rightarrow> (string \<times> RpcMessage) list \<Rightarrow> processes \<Rightarrow> bool" where
  "served S ms out S' \<longleftrightarrow> fifos S' = deliver out ((fifos S)(SERVER_FIFO_PATH := ms)) \<and> run_proc S' = run_proc S"

lemma served_view:
  assumes "served S ms out S'"
  shows "view S' s' = (view S s)\<lparr>ctl := s', pipes := deliver (filter (\<lambda>x. protocol_msg (snd x)) out)
      ((pipes (view S s))(SERVER_FIFO_PATH := filter protocol_msg ms))\<rparr>"
proof -
  have f: "fifos S' = deliver out ((fifos S)(SERVER_FIFO_PATH := ms))" and r: "run_proc S' = run_proc S"
    using assms by (simp_all add: served_def)
  show ?thesis unfolding view_def f r erase_deliver erase_upd by simp
qed

lemma served_pipes:
  assumes sv: "served S ms out S'" and step: "spec_step False c s m out logs s'"
  shows "fifos S' SERVER_FIFO_PATH = ms" and "x \<in> set (fifos S (runner_fifo p)) \<Longrightarrow> x \<in> set (fifos S' (runner_fifo p))"
    and "started_procs S' = started_procs S"
  using sv spec_step_to_runners [OF step]
  by (auto simp: served_def started_procs_def deliver_def to_runners_def filter_empty_conv)

lemma served_asker:
  assumes sv: "served S ms out S'" and step: "spec_step False c s m out logs s'" and ml: "fifos S SERVER_FIFO_PATH = m # ms"
    and ask: "asker_served S"
    and told: "msg_type m = STATUS_REQ \<Longrightarrow> \<exists>x. (runner_fifo (sender_pid m), x) \<in> set out \<and> msg_type x = STATUS_END"
  shows "asker_served S'"
  unfolding asker_served_def
proof (intro allI impI)
  fix p d path assume "run_proc S' p = Some (Reading_status d path)"
  then have r: "run_proc S p = Some (Reading_status d path)" using sv by (simp add: served_def)
  note pipe = served_pipes [OF sv step]
  from asker_servedD [OF ask r] consider x where "x \<in> set (fifos S SERVER_FIFO_PATH)" "msg_type x = STATUS_REQ" "sender_pid x = p"
    | x where "x \<in> set (fifos S (runner_fifo p))" "msg_type x = STATUS_END" by blast
  then show "(\<exists>m\<in>set (fifos S' SERVER_FIFO_PATH). msg_type m = STATUS_REQ \<and> sender_pid m = p) \<or>
    (\<exists>m\<in>set (fifos S' (runner_fifo p)). msg_type m = STATUS_END)"
  proof cases
    case (1 x)
    show ?thesis
    proof (cases "x = m")
      case True
      then obtain y where "(runner_fifo p, y) \<in> set out" "msg_type y = STATUS_END" using told 1(2,3) by blast
      then have "y \<in> set (fifos S' (runner_fifo p))" using sv by (force simp: served_def deliver_def)
      then show ?thesis using \<open>msg_type y = STATUS_END\<close> by blast
    next
      case False
      then show ?thesis using 1 ml pipe(1) by auto
    qed
  next
    case (2 x)
    then show ?thesis using pipe(2) by blast
  qed
qed

lemma serve_status_sim:
  assumes sm: "smooth n S s" and ml: "fifos S SERVER_FIFO_PATH = m # ms" and going: "\<not> sp_stop s" and fin: "finite (started_procs S)"
    and step: "spec_step False (self_pid (ctl_world S)) s m out logs s'" and sv: "served S ms out S'" and m: "msg_type m = STATUS_REQ"
  shows "mimics S s S' s' \<and> asker_served S'"
proof -
  note d = smoothD [OF sm]
  note t = traffic_okD [OF procs_invD(2) [OF d(1)]]
  note pipe = served_pipes [OF sv step]
  have np: "\<not> protocol_msg m" using m by (simp add: protocol_msg_def)
  obtain wl where o: "s' = s" "out = status_msgs (self_pid (ctl_world S)) m (sp_running s) wl" "length wl \<le> length (sp_waiting s)"
    using status_step [OF step m going t(2)] by blast
  have er: "filter (\<lambda>x. protocol_msg (snd x)) out = []" by (rule erase_all(2)) (use o(2) status_msgs_erased in blast)
  have "view S' s' = view S s" unfolding served_view [OF sv, of s' s] er using o(1) ml np by (auto simp: view_def fun_eq_iff)
  moreover have "length out \<le> card (started_procs S) + 3"
    using jobs_bound [OF d(1,7) fin] o(3) by (simp add: o(2) length_status_msgs)
  then have "answers_left (fifos S') (started_procs S) \<le> answers_left (fifos S) (started_procs S) + (card (started_procs S) + 3)"
    using answers_left_deliver [OF fin started_pids [OF d(1)], of out "(fifos S)(SERVER_FIFO_PATH := ms)"] sv by (simp add: served_def)
  then have "chatter S' + restless S' < chatter S + restless S"
    using pipe(1) ml np restless_le [of S'] unfolding chatter_def pipe(3) by simp
  moreover have "asker_served S'"
    by (rule served_asker [OF sv step ml d(6)]) (use status_msgs_end [of m] o(2) in force)
  ultimately show ?thesis using o(1) pipe(3) by (simp add: mimics_def)
qed

lemma serve_protocol_sim:
  assumes sm: "smooth n S s" and ml: "fifos S SERVER_FIFO_PATH = m # ms" and going: "\<not> sp_stop s"
    and step: "spec_step False (self_pid (ctl_world S)) s m out logs s'" and sv: "served S ms out S'" and m: "msg_type m \<noteq> STATUS_REQ"
  shows "mimics S s S' s' \<and> asker_served S'"
proof -
  note d = smoothD [OF sm]
  note pipe = served_pipes [OF sv step]
  have "letter_ok (run_proc S) m" using traffic_okD(5) [OF procs_invD(2) [OF d(1)]] ml by simp
  then have pm: "protocol_msg m" using letter_protocol m by blast
  have all: "\<forall>x\<in>set out. protocol_msg (snd x)" by (rule spec_step_protocol [OF step m])
  have "sys_step (self_pid (ctl_world S)) (view S s) (view S' s')"
    unfolding served_view [OF sv, of s' s] erase_all(1) [OF all] by (rule sys_serve) (use step ml pm going in simp_all)
  moreover have "chatter S' = chatter S"
    using pipe(1) ml pm answers_left_protocol [OF all] sv by (simp add: chatter_def served_def pipe(3))
  moreover have "asker_served S'" by (rule served_asker [OF sv step ml d(6)]) (use m in simp)
  ultimately show ?thesis using pipe(3) by (simp add: mimics_def)
qed

lemma serve_sim:
  assumes sm: "smooth n S s" and ml: "fifos S SERVER_FIFO_PATH = m # ms" and going: "\<not> sp_stop s" and fin: "finite (started_procs S)"
    and step: "spec_step (may_fail (ctl_world S)) (self_pid (ctl_world S)) s m out logs s'" and g: "goes (ctl_world S) out w"
    and S': "S' = controller_moves S (c, w) ((fifos S)(SERVER_FIFO_PATH := ms))"
  shows "mimics S s S' s' \<and> asker_served S'"
proof -
  note d = smoothD [OF sm]
  have "new_sent (ctl_world S) w = out" using g d(2) by (simp add: goes_def hands_over_ok)
  then have sv: "served S ms out S'" using S' by (simp add: controller_moves_def served_def)
  have st: "spec_step False (self_pid (ctl_world S)) s m out logs s'" using step d(3) by simp
  show ?thesis
    using serve_status_sim [OF sm ml going fin st sv] serve_protocol_sim [OF sm ml going st sv] by blast
qed

lemma asker_keeps:
  assumes "asker_served S"
    and "\<And>p d path. run_proc S' p = Some (Reading_status d path) \<Longrightarrow> run_proc S p = Some (Reading_status d path)"
    and "set (fifos S SERVER_FIFO_PATH) \<subseteq> set (fifos S' SERVER_FIFO_PATH)"
    and "\<And>p d path x. run_proc S' p = Some (Reading_status d path) \<Longrightarrow> x \<in> set (fifos S (runner_fifo p)) \<Longrightarrow>
      msg_type x = STATUS_END \<Longrightarrow> x \<in> set (fifos S' (runner_fifo p))"
  shows "asker_served S'"
  unfolding asker_served_def
proof (intro allI impI)
  fix p d path assume p: "run_proc S' p = Some (Reading_status d path)"
  from asker_servedD [OF assms(1) assms(2) [OF p]]
  show "(\<exists>m\<in>set (fifos S' SERVER_FIFO_PATH). msg_type m = STATUS_REQ \<and> sender_pid m = p) \<or>
    (\<exists>m\<in>set (fifos S' (runner_fifo p)). msg_type m = STATUS_END)"
    using assms(3) assms(4) [OF p] by blast
qed

lemma read_sim:
  assumes sm: "smooth n S s" and p: "run_proc S p = Some st" and rd: "reading st" and box: "fifos S (runner_fifo p) = m # ms"
    and r: "runner_read (int sizeof_RpcMessage, m) st (run_world S p) = (st', w)" and fin: "finite (started_procs S)"
    and S': "S' = S\<lparr>run_proc := (run_proc S)(p := Some st'), run_world := (run_world S)(p := w), fifos := (fifos S)(runner_fifo p := ms)\<rparr>"
  shows "mimics S s S' s \<and> asker_served S'"
proof -
  note d = smoothD [OF sm]
  have pid: "pid_ok p" by (rule procs_runner(1) [OF d(1) p])
  have st0: "started_procs S' = started_procs S" "p \<in> started_procs S" using p S' by (auto simp: started_procs_def)
  have an: "answer_ok s (run_proc S) p m" using traffic_okD(6) [OF procs_invD(2) [OF d(1)] pid] box by simp
  have v: "view S' s = (view S s)\<lparr>pipes := (pipes (view S s))(runner_fifo p := filter protocol_msg ms),
      phase := (phase (view S s))(p := phase_of (Some st'))\<rparr>"
    unfolding S' view_def by (auto simp: erase_upd fun_eq_iff)
  have ans: "answers_left (fifos S) (started_procs S) = (if protocol_msg m then 0 else 1) + answers_left (fifos S') (started_procs S)"
    using answers_left_read [OF fin started_pids [OF d(1)] st0(2), where P = "fifos S" and m = m and ms = ms] box S' by simp
  have srv: "fifos S' SERVER_FIFO_PATH = fifos S SERVER_FIFO_PATH" "ctl_proc S' = ctl_proc S" using S' by simp_all
  have asker: "asker_served S'" if "\<And>d path. st' = Reading_status d path \<Longrightarrow> st = st' \<and> msg_type m \<noteq> STATUS_END"
  proof (rule asker_keeps [OF d(6)])
    fix q dd path assume q: "run_proc S' q = Some (Reading_status dd path)"
    show "run_proc S q = Some (Reading_status dd path)" using q that p S' by (auto split: if_splits)
    fix x assume x: "x \<in> set (fifos S (runner_fifo q))" "msg_type x = STATUS_END"
    have "pid_ok q" by (rule procs_runner(1) [OF d(1) \<open>run_proc S q = _\<close>])
    then show "x \<in> set (fifos S' (runner_fifo q))" using x q that box pid S' by (auto simp: fifo_inj split: if_splits)
  qed (simp add: srv)
  show ?thesis
  proof (cases st)
    case (Waiting_answer dd path sub)
    then have pm: "protocol_msg m" and ph: "phase (view S s) p = Submitted" using answer_protocol [OF an p, of Submitter] p by simp_all
    have vb: "pipes (view S s) (runner_fifo p) = m # filter protocol_msg ms" using box pm by simp
    have "sys_step (self_pid (ctl_world S)) (view S s) (view S' s) \<and> (\<forall>dd path. st' \<noteq> Reading_status dd path)"
    proof (cases "msg_type m = ACK")
      case True
      then have "st' = Running_command dd path sub m" using r Waiting_answer by (simp add: read_defs)
      then show ?thesis using sys_start [OF ph pid vb True] v by simp
    next
      case False
      then have "st' = Over 1" using r Waiting_answer by (simp add: read_defs)
      then show ?thesis using sys_refuse [OF ph pid vb False] v by simp
    qed
    then show ?thesis using asker st0 ans pm srv(1) by (simp add: mimics_def chatter_def)
  next
    case (Waiting_exit dd path)
    then have pm: "protocol_msg m" and ph: "phase (view S s) p = Stopping" using answer_protocol [OF an p, of Stopper] p by simp_all
    have vb: "pipes (view S s) (runner_fifo p) = m # filter protocol_msg ms" using box pm by simp
    have sa: "msg_type m = SHUTDOWN_ACK" using inv_owns [OF d(7) pid ph] vb by auto
    then have o: "st' = Over 0" using r Waiting_exit by (simp add: read_defs)
    then have "sys_step (self_pid (ctl_world S)) (view S s) (view S' s)" using sys_stopped [OF ph pid vb sa] v by simp
    then show ?thesis using asker st0 ans pm srv(1) o by (simp add: mimics_def chatter_def)
  next
    case (Reading_status dd path)
    then have np: "\<not> protocol_msg m" using answer_protocol [OF an p, of Asker] p by simp
    have st': "st' = Over 0 \<or> st' = st \<and> msg_type m \<noteq> STATUS_END"
      using r Reading_status by (auto simp: read_defs Let_def split: if_splits)
    then have "phase_of (Some st') = phase_of (run_proc S p)" using p Reading_status by auto
    then have "view S' s = view S s" unfolding v using box np by (auto simp: view_def fun_eq_iff)
    moreover have "chatter S' + restless S' < chatter S + restless S"
      using ans np srv st0(1) by (simp add: chatter_def restless_def)
    ultimately show ?thesis using asker st' st0(1) by (auto simp: mimics_def)
  qed (use rd in simp_all)
qed

lemma work_sim:
  assumes sm: "smooth n S s" and step: "work_step S k S'" and bnd: "3 * int (n + k) < 2 ^ 31" and fin: "finite (started_procs S)"
  shows "\<exists>s'. procs_inv (n + k) S' s' \<and> mimics S s S' s' \<and> asker_served S'"
proof -
  note d = smoothD [OF sm]
  have keep: "procs_inv (n + k) S' s" if "k = 0"
    using work_inv [OF d(1) step bnd] that by auto
  show ?thesis
    using d(1) step bnd
  proof (cases rule: work_cases)
    case (opens st c w)
    have ne: "fifos S SERVER_FIFO_PATH \<noteq> []" and "\<exists>dd. c = Serving dd st" using opens(3,7) d(2,5) by auto
    then have "restless S' < restless S" using opens(2,4) by (auto simp: restless_def)
    moreover have "asker_served S'" by (rule asker_keeps [OF d(6)]) (simp_all add: opens(4))
    ultimately show ?thesis using keep [OF opens(1)] opens(4)
      by (intro exI [of _ s]) (simp add: view_def mimics_def chatter_def started_procs_def)
  next
    case (ends dd st w)
    have e: "fifos S SERVER_FIFO_PATH = []" using ends(3) d(5) by auto
    then have "restless S' < restless S" using ends(2,4) by (simp add: restless_def)
    moreover have "asker_served S'" by (rule asker_keeps [OF d(6)]) (simp_all add: ends(4))
    ultimately show ?thesis using keep [OF ends(1)] ends(4)
      by (intro exI [of _ s]) (simp add: view_def mimics_def chatter_def started_procs_def)
  next
    case (serves m ms out logs s' c w)
    have "procs_inv (n + k) S' s'" using serves_inv [OF d(1) serves(2-4,6,7)] serves(1,5) by simp
    then show ?thesis using serve_sim [OF sm serves(2,3) fin serves(4,7,5)] by blast
  next
    case (reads p st st' w m ms)
    show ?thesis using read_sim [OF sm reads(2-5) fin reads(7)] keep [OF reads(1)] by blast
  next
    case gives_up
    then show ?thesis using d(5) by simp
  next
    case (executes p dd sub m r w)
    have pid: "pid_ok p" by (rule procs_runner(1) [OF d(1) executes(2)])
    have out: "new_sent (run_world S p) w = [(SERVER_FIFO_PATH, done_of p m)]" using executes(3) d(4) by (simp add: hands_over_ok)
    have pm: "protocol_msg (done_of p m)" by (simp add: done_of_def protocol_msg_def)
    have ph: "phase (view S s) p = Executing m" using executes(2) by simp
    have S': "S' = S\<lparr>run_proc := (run_proc S)(p := Some (Over r)), run_world := (run_world S)(p := w),
        fifos := deliver [(SERVER_FIFO_PATH, done_of p m)] (fifos S)\<rparr>" using executes(6) out by (simp add: runner_moves_def)
    then have f: "fifos S' = deliver [(SERVER_FIFO_PATH, done_of p m)] (fifos S)" by simp
    have "view S' s = (view S s)\<lparr>pipes := deliver [(SERVER_FIFO_PATH, done_of p m)] (pipes (view S s)), phase := (phase (view S s))(p := Finished)\<rparr>"
      using erase_deliver [of "[(SERVER_FIFO_PATH, done_of p m)]" "fifos S"] pm unfolding S' by (simp add: view_def fun_eq_iff)
    then have "sys_step (self_pid (ctl_world S)) (view S s) (view S' s)" using sys_report [OF ph pid] by simp
    moreover have st: "started_procs S' = started_procs S" unfolding S' using executes(2) by (auto simp: started_procs_def)
    moreover have "chatter S' = chatter S"
      using answers_left_protocol [of "[(SERVER_FIFO_PATH, done_of p m)]" "fifos S"] pm f by (simp add: chatter_def st deliver_server)
    moreover have "asker_served S'"
      by (rule asker_keeps [OF d(6)]) (auto simp: S' deliver_server split: if_splits)
    ultimately show ?thesis using keep [OF executes(1)] by (auto simp: mimics_def)
  qed
qed

subsection \<open>A user\<close>

definition submits_args :: "string list set" where
  "submits_args = {args. length args = 4 \<and> args ! 1 = ''-e''}"

definition asks_args :: "string list set" where
  "asks_args = {args. length args = 2 \<and> args ! 1 = ''-c''}"

definition stops_args :: "string list set" where
  "stops_args = {args. length args = 2 \<and> args ! 1 = ''-s''}"

text \<open>
  As long as users only submit and query, nobody is turned away and every process that ends returns 0.
\<close>

definition all_well :: "processes \<Rightarrow> spec \<Rightarrow> bool" where
  "all_well S s \<longleftrightarrow> open_for_work (view S s) \<and> (\<forall>p r. run_proc S p = Some (Over r) \<longrightarrow> r = 0)"

lemma all_well_start:
  assumes "all_well S s" and "run_proc S' = (run_proc S)(p := Some st)"
    and "(\<exists>d path sub. st = Waiting_answer d path sub) \<or> (\<exists>d path. st = Reading_status d path)"
  shows "all_well S' s"
  using assms by (auto simp: all_well_def open_for_work_def)

lemma start_asker:
  assumes ask: "asker_served S" and R: "run_proc S' = (run_proc S)(p := Some st)" "fifos S' = deliver out (fifos S)"
    and srv: "set out \<subseteq> {(SERVER_FIFO_PATH, m)}"
    and rd: "\<And>d path. st = Reading_status d path \<Longrightarrow> out = [(SERVER_FIFO_PATH, m)] \<and> msg_type m = STATUS_REQ \<and> sender_pid m = p"
  shows "asker_served S'"
  unfolding asker_served_def
proof (intro allI impI)
  fix q d path assume q: "run_proc S' q = Some (Reading_status d path)"
  show "(\<exists>m\<in>set (fifos S' SERVER_FIFO_PATH). msg_type m = STATUS_REQ \<and> sender_pid m = q) \<or>
    (\<exists>m\<in>set (fifos S' (runner_fifo q)). msg_type m = STATUS_END)"
  proof (cases "q = p")
    case True
    then show ?thesis using q R rd by (auto simp: deliver_server)
  next
    case False
    then have "run_proc S q = Some (Reading_status d path)" using q R(1) by simp
    from asker_servedD [OF ask this] show ?thesis using R(2) by (auto simp: deliver_def)
  qed
qed

lemma start_view:
  assumes "run_proc S' = (run_proc S)(p := Some st)" "fifos S' = deliver out (fifos S)"
  shows "view S' s = (view S s)\<lparr>pipes := deliver (filter (\<lambda>x. protocol_msg (snd x)) out) (pipes (view S s)),
      phase := (phase (view S s))(p := phase_of (Some st))\<rparr>"
  unfolding view_def assms erase_deliver by (simp add: fun_eq_iff)

lemma user_sim:
  assumes sm: "smooth n S s" and step: "user_starts A S S'"
  shows "asker_served S' \<and> user_step (view S s) (view S' s) \<and> (A \<subseteq> submits_args \<union> asks_args \<longrightarrow> all_well S s \<longrightarrow> all_well S' s)"
proof -
  note d = smoothD [OF sm]
  from step obtain p args st w where u: "S' = runner_moves S p (st, w) (fifos S)" "run_proc S p = None" "pid_ok p" "args \<in> A"
    and start: "runner_start args (run_world S p) = Some (st, w)" by (auto elim!: user_starts_cases)
  let ?out = "new_sent (run_world S p) w"
  have pid: "self_pid (run_world S p) = p" by (rule procs_invD(4) [OF d(1)])
  have ph: "phase (view S s) p = Absent" using u(2) by simp
  have R: "run_proc S' = (run_proc S)(p := Some st)" "fifos S' = deliver ?out (fifos S)" using u(1) by (simp_all add: runner_moves_def)
  note v = start_view [OF R, of s] and ask = start_asker [OF d(6) R] and well = all_well_start [OF _ R(1), of s]
  note sent = hands_over_ok [OF _ d(4) [of p]]
  from start show ?thesis
  proof (cases rule: runner_start_cases)
    case usage
    have ns: "?out = []" by (rule sent [OF usage(2)])
    have "user_step (view S s) (view S' s)" unfolding v ns using user_looks [OF ph u(3)] usage(1) by simp
    moreover have "\<not> A \<subseteq> submits_args \<union> asks_args" using usage(3,4) u(4) by (auto simp: submits_args_def asks_args_def)
    ultimately show ?thesis using ask ns usage(1) by simp
  next
    case (submits uid)
    let ?m = "submit_of p uid (args ! 3)"
    have ns: "?out = [(SERVER_FIFO_PATH, ?m)]" using sent [OF submits(4)] pid by simp
    obtain dd path sub where st: "st = Waiting_answer dd path sub" using submits(5) d(4) by blast
    have "protocol_msg ?m" by (simp add: submit_of_def protocol_msg_def)
    then have "user_step (view S s) (view S' s)" unfolding v ns using user_submits [OF ph u(3), of uid "args ! 3"] st by simp
    then show ?thesis using ask [of ?m] ns st well by auto
  next
    case asks
    let ?m = "zero_msg\<lparr>msg_type := STATUS_REQ, sender_pid := p\<rparr>"
    have ns: "?out = [(SERVER_FIFO_PATH, ?m)]" using sent [OF asks(3)] pid by simp
    obtain dd path where st: "st = Reading_status dd path" using asks(4) d(4) by blast
    have "\<not> protocol_msg ?m" by (simp add: protocol_msg_def)
    then have "user_step (view S s) (view S' s)" unfolding v ns using user_looks [OF ph u(3)] st by simp
    then show ?thesis using ask [of ?m] ns st well by auto
  next
    case stops
    have ns: "?out = [(SERVER_FIFO_PATH, shutdown_of p)]" using sent [OF stops(3)] pid by (simp add: shutdown_of_def)
    obtain dd path where st: "st = Waiting_exit dd path" using stops(4) d(4) by blast
    have "protocol_msg (shutdown_of p)" by (simp add: shutdown_of_def protocol_msg_def)
    then have "user_step (view S s) (view S' s)" unfolding v ns using user_stops [OF ph u(3)] st by simp
    moreover have "\<not> A \<subseteq> submits_args \<union> asks_args" using stops(1,2) u(4) by (auto simp: submits_args_def asks_args_def)
    ultimately show ?thesis using ask [of "shutdown_of p"] ns st by simp
  qed
qed

subsection \<open>The programs can go on as long as the system can\<close>

lemma can_serve:
  assumes sm: "smooth n S s" and going: "\<not> sp_stop s" and ml: "fifos S SERVER_FIFO_PATH = m # ms" and bnd: "3 * int (n + 1) < 2 ^ 31"
  shows "\<exists>k S'. work_step S k S'"
proof -
  note d = smoothD [OF sm]
  note i = procs_invD [OF d(1)]
  show ?thesis
  proof (cases "ctl_proc S")
    case (Opening st)
    have rep: "ctl_rep st (ctl_world S) s" using i(1) Opening by simp
    obtain c w where "controller_open st (ctl_world S) = Some (c, w)" by (rule controller_open_ok [OF rep going])
    from step_open [OF Opening _ this] ml show ?thesis by auto
  next
    case (Serving dd st)
    have rep: "ctl_rep st (ctl_world S) s" using i(1) Serving by simp
    have "bounded (Suc 0) s" using bnd i(5-7) by (simp add: bounded_def)
    from controller_read_message_ok [OF rep traffic_okD(1) [OF i(2)] going i(3) this]
    obtain r where "controller_read (int sizeof_RpcMessage, m) dd st (ctl_world S) = Some r" by metis
    from step_message [OF Serving ml this] show ?thesis by blast
  next
    case (Returned r)
    then show ?thesis using i(1) going d(2,3) by auto
  qed
qed

lemma can_read:
  assumes sm: "smooth n S s" and st: "run_proc S p = Some st" "reading st" and box: "fifos S (runner_fifo p) \<noteq> []"
  shows "\<exists>k S'. work_step S k S'"
proof -
  obtain path where path: "own_pipe st = Some path" using st(2) by (cases st) auto
  then have "path = runner_fifo p" by (rule procs_runner(2) [OF smoothD(1) [OF sm] st(1)])
  moreover obtain m ms where "fifos S (runner_fifo p) = m # ms" using box by (cases "fifos S (runner_fifo p)") auto
  ultimately show ?thesis using step_read [OF st path, of m ms] by blast
qed

lemma can_execute:
  assumes "run_proc S p = Some (Running_command d path sub m)"
  shows "\<exists>k S'. work_step S k S'"
proof -
  obtain r w where "execute_finish d path sub m (run_world S p) = Some (r, w)" by (rule execute_finish_ok)
  from step_execute [OF assms this] show ?thesis by blast
qed

lemma filter_ConsD: "filter P xs = y # ys \<Longrightarrow> xs \<noteq> []"
  by auto

lemma stuck_system:
  assumes sm: "smooth n S s" and stuck: "\<nexists>k S'. work_step S k S'" and bnd: "3 * int (n + 1) < 2 ^ 31"
  shows "\<forall>X. \<not> sys_step c (view S s) X"
proof (intro allI notI)
  fix X assume "sys_step c (view S s) X"
  then show False
  proof (cases rule: sys_step.cases)
    case (sys_serve m ms out logs s')
    have "fifos S SERVER_FIFO_PATH \<noteq> []" using filter_ConsD sys_serve(3) by (metis view_simps(2))
    then obtain x xs where x: "fifos S SERVER_FIFO_PATH = x # xs" by (cases "fifos S SERVER_FIFO_PATH") auto
    have "\<not> sp_stop s" using sys_serve(2) by simp
    from can_serve [OF sm this x bnd] stuck show False by blast
  next
    case (sys_start p m ms)
    then obtain dd path sub where p: "run_proc S p = Some (Waiting_answer dd path sub)" by (cases "run_proc S p" rule: phase_of.cases) auto
    have "fifos S (runner_fifo p) \<noteq> []" using filter_ConsD sys_start(4) by (metis view_simps(2))
    from can_read [OF sm p _ this] stuck show False by simp
  next
    case (sys_refuse p m ms)
    then obtain dd path sub where p: "run_proc S p = Some (Waiting_answer dd path sub)" by (cases "run_proc S p" rule: phase_of.cases) auto
    have "fifos S (runner_fifo p) \<noteq> []" using filter_ConsD sys_refuse(4) by (metis view_simps(2))
    from can_read [OF sm p _ this] stuck show False by simp
  next
    case (sys_report p m)
    then obtain dd path sub where "run_proc S p = Some (Running_command dd path sub m)" by (cases "run_proc S p" rule: phase_of.cases) auto
    from can_execute [OF this] stuck show False by blast
  next
    case (sys_stopped p m ms)
    then obtain dd path where p: "run_proc S p = Some (Waiting_exit dd path)" by (cases "run_proc S p" rule: phase_of.cases) auto
    have "fifos S (runner_fifo p) \<noteq> []" using filter_ConsD sys_stopped(4) by (metis view_simps(2))
    from can_read [OF sm p _ this] stuck show False by simp
  qed
qed

lemma stuck_asker:
  assumes sm: "smooth n S s" and stuck: "\<nexists>k S'. work_step S k S'" and bnd: "3 * int (n + 1) < 2 ^ 31"
    and p: "run_proc S p = Some (Reading_status d path)"
  shows "sp_stop s"
proof (rule ccontr)
  assume going: "\<not> sp_stop s"
  have "fifos S (runner_fifo p) = []" using can_read [OF sm p] stuck by force
  then have "fifos S SERVER_FIFO_PATH \<noteq> []" using asker_servedD [OF smoothD(6) [OF sm] p] by auto
  then obtain x xs where "fifos S SERVER_FIFO_PATH = x # xs" by (cases "fifos S SERVER_FIFO_PATH") auto
  from can_serve [OF sm going this bnd] stuck show False by blast
qed

lemma stopped_returned:
  assumes sm: "smooth n S s"
  shows "sp_stop s \<longleftrightarrow> ctl_proc S = Returned 0"
  using procs_invD(1) [OF smoothD(1) [OF sm]] smoothD(2,3) [OF sm] by (cases "ctl_proc S") auto

subsection \<open>Runs\<close>

lemma troubled_work: "procs_inv n S s \<Longrightarrow> work_step S k S' \<Longrightarrow> 3 * int (n + k) < 2 ^ 31 \<Longrightarrow> troubled S' = troubled S"
  using work_same_trouble same_trouble_cong by blast

lemma well_step:
  assumes sm: "smooth n S s" and step: "work_step S k S'" and bnd: "3 * int (n + k) < 2 ^ 31" and w: "all_well S s"
  shows "run_proc S' p = Some (Over r) \<longrightarrow> r = 0"
  using smoothD(1) [OF sm] step bnd
proof (cases rule: work_cases)
  case (reads q st st' w' m ms)
  note d = smoothD [OF sm]
  have "st' = Over r \<longrightarrow> r = 0"
  proof (cases st)
    case (Waiting_answer dd path sub)
    have "answer_ok s (run_proc S) q m" using traffic_okD(6) [OF procs_invD(2) [OF d(1)] procs_runner(1) [OF d(1) reads(2)]] reads(4) by simp
    moreover have "\<not> sp_shut s" using w by (simp add: all_well_def open_for_work_def)
    ultimately have "msg_type m = ACK" using Waiting_answer reads(2) by (cases "msg_type m") (auto simp: answer_ok_def plays_def)
    then show ?thesis using reads(5) Waiting_answer by (auto simp: read_defs)
  qed (use reads(3,5) in \<open>auto simp: read_defs Let_def split: if_splits\<close>)
  then show ?thesis using w reads(7) by (auto simp: all_well_def)
next
  case (executes q dd sub m r' w')
  then show ?thesis using w smoothD(4) [OF sm] by (auto simp: all_well_def runner_moves_def)
qed (use w smoothD(5) [OF sm] in \<open>auto simp: all_well_def controller_moves_def\<close>)

lemma work_smooth:
  assumes sm: "smooth n S s" and step: "work_step S k S'" and bnd: "3 * int (n + k) < 2 ^ 31" and fin: "finite (started_procs S)"
  obtains s' where "smooth (n + k) S' s'" and "self_pid (ctl_world S') = self_pid (ctl_world S)" and "mimics S s S' s'"
    and "all_well S s \<longrightarrow> all_well S' s'"
proof -
  note d = smoothD [OF sm]
  obtain s' where s': "procs_inv (n + k) S' s'" "mimics S s S' s'" "asker_served S'" using work_sim [OF sm step bnd fin] by blast
  have st: "same_trouble S S'" by (rule work_same_trouble [OF d(1) step bnd])
  have inv: "sys_inv (view S' s')" using s'(2) sys_step_inv d(7) unfolding mimics_def by metis
  have "all_well S' s'" if w: "all_well S s"
  proof -
    have "open_for_work (view S' s')" using s'(2) open_step [OF _ d(7)] w unfolding mimics_def by (metis all_well_def)
    then show ?thesis using well_step [OF sm step bnd w] by (simp add: all_well_def)
  qed
  then show thesis using that s' st inv d(5) same_trouble_cong [OF st] by (auto simp: smooth_def same_trouble_def)
qed

lemma user_smooth:
  assumes sm: "smooth n S s" and step: "user_starts A S S'"
  shows "smooth n S' s" and "self_pid (ctl_world S') = self_pid (ctl_world S)" and "user_step (view S s) (view S' s)"
    and "A \<subseteq> submits_args \<union> asks_args \<longrightarrow> all_well S s \<longrightarrow> all_well S' s"
proof -
  note u = user_sim [OF sm step]
  note d = smoothD [OF sm]
  have st: "same_trouble S S'" by (rule user_same_trouble [OF d(1) step])
  show "smooth n S' s" using u d(5) same_trouble_cong [OF st] user_step_inv d(7) user_inv [OF d(1) step] by (auto simp: smooth_def)
  show "self_pid (ctl_world S') = self_pid (ctl_world S)" using st by (simp add: same_trouble_def)
  show "user_step (view S s) (view S' s)" "A \<subseteq> submits_args \<union> asks_args \<longrightarrow> all_well S s \<longrightarrow> all_well S' s" using u by blast+
qed

lemma init_smooth:
  assumes init: "processes_init cargs S" and cfg: "controller_configure cargs = Some st0" and ok: "\<not> troubled S"
  defines "s \<equiv> initial (parallel_limit st0) (policy st0)"
  shows "smooth 0 S s" and "view S s = sys_init (parallel_limit st0) (policy st0)" and "all_well S s"
proof -
  have S: "run_proc S = (\<lambda>_. None)" "fifos S = (\<lambda>_. [])" using init by (auto simp: processes_init_def)
  show v: "view S s = sys_init (parallel_limit st0) (policy st0)" using S by (simp add: view_def sys_init_def s_def)
  have "sys_inv (view S s)" unfolding v by (rule sys_init_inv [OF controller_configure_ok(1) [OF cfg]])
  then show "smooth 0 S s" using init_inv [OF init cfg] ok S by (simp add: smooth_def asker_served_def s_def)
  show "all_well S s" using S by (simp add: all_well_def open_for_work_def s_def initial_def)
qed

lemma preach_smooth:
  assumes "preach cargs A n S" and "controller_configure cargs = Some st0" and "3 * int n < 2 ^ 31" and "\<not> troubled S"
  shows "\<exists>s. smooth n S s \<and> reach (self_pid (ctl_world S)) (parallel_limit st0) (policy st0) (view S s) \<and>
    (A \<subseteq> submits_args \<union> asks_args \<longrightarrow> all_well S s)"
  using assms
proof (induction rule: preach.induct)
  case (preach_init S)
  note i = init_smooth [OF preach_init(1,2,4)]
  then show ?case using reach_init by metis
next
  case (preach_user n S S')
  obtain s0 where inv: "procs_inv n S s0" using preach_inv [OF preach_user.hyps(1) preach_user.prems(1,2)] by blast
  have "\<not> troubled S" using same_trouble_cong [OF user_same_trouble [OF inv preach_user.hyps(2)]] preach_user.prems(3) by simp
  with preach_user.IH preach_user.prems obtain s where s: "smooth n S s"
    "reach (self_pid (ctl_world S)) (parallel_limit st0) (policy st0) (view S s)" "A \<subseteq> submits_args \<union> asks_args \<longrightarrow> all_well S s" by blast
  note u = user_smooth [OF s(1) preach_user.hyps(2)]
  show ?case using u s reach_user [OF s(2) u(3)] by (intro exI [of _ s]) auto
next
  case (preach_work n S k S')
  have b: "3 * int n < 2 ^ 31" using preach_work.prems(2) by simp
  obtain s0 where inv: "procs_inv n S s0" using preach_inv [OF preach_work.hyps(1) preach_work.prems(1) b] by blast
  have "\<not> troubled S" using troubled_work [OF inv preach_work.hyps(2) preach_work.prems(2)] preach_work.prems(3) by simp
  with preach_work.IH [OF preach_work.prems(1) b] obtain s where s: "smooth n S s"
    "reach (self_pid (ctl_world S)) (parallel_limit st0) (policy st0) (view S s)" "A \<subseteq> submits_args \<union> asks_args \<longrightarrow> all_well S s" by blast
  have fin: "finite (started_procs S)" using reach_active [OF s(2)] by (simp add: active_view)
  obtain s' where s': "smooth (n + k) S' s'" "self_pid (ctl_world S') = self_pid (ctl_world S)" "mimics S s S' s'"
    "all_well S s \<longrightarrow> all_well S' s'" by (rule work_smooth [OF s(1) preach_work.hyps(2) preach_work.prems(2) fin])
  have "reach (self_pid (ctl_world S')) (parallel_limit st0) (policy st0) (view S' s')"
    using s'(2,3) s(2) reach_sys unfolding mimics_def by metis
  then show ?case using s'(1,4) s(3) by blast
qed

text \<open>Runs of the programs without new users, with their numbers of steps and of messages handled.\<close>

inductive work_run :: "nat \<Rightarrow> nat \<Rightarrow> processes \<Rightarrow> processes \<Rightarrow> bool" where
  work_run_0: "work_run 0 0 S S"
| work_run_Suc: "work_step S k S1 \<Longrightarrow> work_run j k' S1 S2 \<Longrightarrow> work_run (Suc j) (k + k') S S2"

text \<open>What is left to do: every step of the programs takes a part of it away.\<close>

definition to_do :: "processes \<Rightarrow> spec \<Rightarrow> nat" where
  "to_do S s = 2 * effort (view S s) + chatter S + restless S"

lemma mimics_to_do:
  assumes "mimics S s S' s'" and "finite (started_procs S)"
  shows "Suc (to_do S' s') \<le> to_do S s"
  using assms(1) unfolding mimics_def
proof (elim conjE disjE)
  assume st: "sys_step (self_pid (ctl_world S)) (view S s) (view S' s')" and c: "chatter S' = chatter S"
  have "effort (view S' s') < effort (view S s)" using sys_step_effort [OF st] assms(2) by (simp add: active_view)
  then show ?thesis using c restless_le [of S'] by (simp add: to_do_def)
next
  assume v: "view S' s' = view S s" and "chatter S' + restless S' < chatter S + restless S"
  then show ?thesis unfolding to_do_def v by simp
qed

lemma work_step_message: "work_step S k S' \<Longrightarrow> k \<le> 1"
  by (erule work_step_cases) auto

lemma run_smooth:
  assumes "work_run j k S S'" and "smooth n S s" and "3 * int (n + to_do S s + 1) < 2 ^ 31" and "finite (started_procs S)"
  shows "\<exists>s' i. smooth (n + k) S' s' \<and> self_pid (ctl_world S') = self_pid (ctl_world S) \<and>
    sys_run (self_pid (ctl_world S)) i (view S s) (view S' s') \<and> j + to_do S' s' \<le> to_do S s \<and> k \<le> j \<and>
    started_procs S' = started_procs S \<and> (all_well S s \<longrightarrow> all_well S' s')"
  using assms
proof (induction arbitrary: n s rule: work_run.induct)
  case (work_run_0 S)
  then show ?case by (intro exI [of _ s] exI [of _ 0]) (simp add: sys_run_0)
next
  case (work_run_Suc S k S1 j k' S2)
  let ?c = "self_pid (ctl_world S)"
  note step = work_run_Suc.hyps(1) and fin = work_run_Suc.prems(3)
  have k1: "k \<le> 1" by (rule work_step_message [OF step])
  have b: "3 * int (n + k) < 2 ^ 31" using work_run_Suc.prems(2) k1 by simp
  obtain s1 where s1: "smooth (n + k) S1 s1" "self_pid (ctl_world S1) = ?c" "mimics S s S1 s1" "all_well S s \<longrightarrow> all_well S1 s1"
    by (rule work_smooth [OF work_run_Suc.prems(1) step b fin])
  have less: "Suc (to_do S1 s1) \<le> to_do S s" by (rule mimics_to_do [OF s1(3) fin])
  have st: "started_procs S1 = started_procs S" using s1(3) by (simp add: mimics_def)
  have b1: "3 * int (n + k + to_do S1 s1 + 1) < 2 ^ 31" using work_run_Suc.prems(2) less k1 by simp
  have f1: "finite (started_procs S1)" using fin st by simp
  from work_run_Suc.IH [OF s1(1) b1 f1] obtain s' i where s': "smooth (n + k + k') S2 s'" "self_pid (ctl_world S2) = self_pid (ctl_world S1)"
    "sys_run (self_pid (ctl_world S1)) i (view S1 s1) (view S2 s')" "j + to_do S2 s' \<le> to_do S1 s1" "k' \<le> j"
    "started_procs S2 = started_procs S1" "all_well S1 s1 \<longrightarrow> all_well S2 s'" by blast
  have "\<exists>i. sys_run ?c i (view S s) (view S2 s')" using s1(3) s'(3) unfolding s1(2) mimics_def by (metis sys_run_Suc)
  then show ?case using s' s1(2,4) less k1 st by (auto simp: add.assoc)
qed

end
