(* ===== verification/Processes_Runs.thy ===== *)
theory Processes_Runs
  imports Processes_Refine
begin

text \<open>
  Concrete runs of the two programs, from the start of the controller with one slot: a runner that submits a
  command and is authorised, and one that asks for the shutdown while another one's message is unread. They
  reach the states at which the properties of the programs are instantiated.
\<close>

subsection \<open>A concrete run\<close>

definition calm :: "nat \<Rightarrow> processes \<Rightarrow> spec \<Rightarrow> bool" where
  "calm n S s \<longleftrightarrow> procs_inv n S s \<and> \<not> troubled S"

lemma calmD:
  assumes "calm n S s"
  shows "procs_inv n S s" and "\<not> troubled S" and "sys_ok (ctl_world S)" and "\<not> may_fail (ctl_world S)" and "sys_ok (run_world S p)"
  using assms by (auto simp: calm_def troubled_def)

lemma calm_work: "calm n S s \<Longrightarrow> work_step S 0 S' \<Longrightarrow> 3 * int n < 2 ^ 31 \<Longrightarrow> calm n S' s"
  using work_inv [of n S s 0 S'] troubled_work [of n S s 0 S'] by (auto simp: calm_def)

lemma go_user:
  assumes c: "calm n S s" and p: "run_proc S p = None" "pid_ok p" "args \<in> A" and up: "\<forall>r. ctl_proc S \<noteq> Returned r"
    and start: "runner_start args (run_world S p) = Some (st, w)" and h: "hands_over (run_world S p) out w"
  obtains S' where "user_starts A S S'" and "calm n S' s" and "run_proc S' = (run_proc S)(p := Some st)"
    and "fifos S' = deliver out (fifos S)" and "ctl_proc S' = ctl_proc S"
proof -
  let ?S' = "runner_moves S p (st, w) (fifos S)"
  have step: "user_starts A S ?S'" by (rule user_starts.user_starts [OF p]) (use up start in auto)
  have "calm n ?S' s" using user_inv [OF calmD(1) [OF c] step] same_trouble_cong [OF user_same_trouble [OF calmD(1) [OF c] step]] calmD(2) [OF c]
    by (simp add: calm_def)
  moreover have "new_sent (run_world S p) w = out" using hands_over_ok [OF h] calmD(5) [OF c] by simp
  ultimately show thesis using that [OF step] by (simp add: runner_moves_def)
qed

lemma go_open:
  assumes c: "calm n S s" and op: "ctl_proc S = Opening st" and ne: "fifos S SERVER_FIFO_PATH \<noteq> []" and b: "3 * int n < 2 ^ 31"
  obtains S' d where "work_step S 0 S'" and "calm n S' s" and "ctl_proc S' = Serving d st" and "fifos S' = fifos S"
    and "run_proc S' = run_proc S"
proof -
  have rep: "ctl_rep st (ctl_world S) s" "\<not> sp_stop s" using procs_invD(1) [OF calmD(1) [OF c]] op by simp_all
  obtain p w where o: "controller_open st (ctl_world S) = Some (p, w)" "goes (ctl_world S) [] w" "sys_ok (ctl_world S) \<longrightarrow> (\<exists>d. p = Serving d st)"
    by (rule controller_open_ok [OF rep])
  have step: "work_step S 0 (controller_moves S (p, w) (fifos S))" by (rule step_open [OF op _ o(1)]) (use ne in simp)
  have "new_sent (ctl_world S) w = []" using o(2) by (simp add: goes_def hands_over_Nil)
  then show thesis using that [OF step calm_work [OF c step b]] o(3) calmD(3) [OF c] by (auto simp: controller_moves_def)
qed

lemma go_message:
  assumes c: "calm n S s" and sv: "ctl_proc S = Serving d st" and ml: "fifos S SERVER_FIFO_PATH = m # ms" and b: "3 * int (n + 1) < 2 ^ 31"
  obtains S' s' out logs where "work_step S 1 S'" and "spec_step False (self_pid (ctl_world S)) s m out logs s'" and "calm (n + 1) S' s'"
    and "fifos S' = deliver out ((fifos S)(SERVER_FIFO_PATH := ms))" and "run_proc S' = run_proc S"
    and "sp_stop s' \<and> ctl_proc S' = Returned 0 \<or> \<not> sp_stop s' \<and> (\<exists>d st. ctl_proc S' = Serving d st)"
proof -
  note i = procs_invD [OF calmD(1) [OF c]]
  have rep: "ctl_rep st (ctl_world S) s" "\<not> sp_stop s" using i(1) sv by simp_all
  have "bounded (Suc 0) s" using b i(5-7) by (simp add: bounded_def)
  from controller_read_message_ok [OF rep(1) traffic_okD(1) [OF i(2)] rep(2) i(3) this]
  obtain p w s' out logs where r: "controller_read (int sizeof_RpcMessage, m) d st (ctl_world S) = Some (p, w)"
    "spec_step (may_fail (ctl_world S)) (self_pid (ctl_world S)) s m out logs s'" "proc_rep p w s'" "goes (ctl_world S) out w"
    "sp_stop s' \<and> p = Returned 0 \<or> \<not> sp_stop s' \<and> (\<exists>st'. p = Serving d st')" by metis
  let ?S' = "controller_moves S (p, w) ((fifos S)(SERVER_FIFO_PATH := ms))"
  have step: "work_step S 1 ?S'" by (rule step_message [OF sv ml r(1)])
  have cl: "calm (n + 1) ?S' s'"
    using serves_inv [OF calmD(1) [OF c] ml rep(2) r(2-4)] troubled_work [OF calmD(1) [OF c] step b] calmD(2) [OF c] by (simp add: calm_def)
  have out: "new_sent (ctl_world S) w = out" using r(4) calmD(3) [OF c] by (simp add: goes_def hands_over_ok)
  have st: "spec_step False (self_pid (ctl_world S)) s m out logs s'" using r(2) calmD(4) [OF c] by simp
  show thesis by (rule that [OF step st cl]) (use out r(5) in \<open>auto simp: controller_moves_def\<close>)
qed

lemma go_read:
  assumes c: "calm n S s" and p: "run_proc S p = Some (Waiting_answer d path sub)" and box: "fifos S (runner_fifo p) = m # ms"
    and ack: "msg_type m = ACK" and b: "3 * int n < 2 ^ 31"
  obtains S' where "work_step S 0 S'" and "calm n S' s" and "run_proc S' = (run_proc S)(p := Some (Running_command d path sub m))"
    and "fifos S' = (fifos S)(runner_fifo p := ms)" and "ctl_proc S' = ctl_proc S"
proof -
  have path: "path = runner_fifo p" by (rule procs_runner(2) [OF calmD(1) [OF c] p]) simp
  let ?S' = "runner_moves S p (runner_read (int sizeof_RpcMessage, m) (Waiting_answer d path sub) (run_world S p)) ((fifos S)(path := ms))"
  have step: "work_step S 0 ?S'" by (rule step_read [OF p _ _ box [folded path]]) simp_all
  have "new_sent w w = []" for w :: runner_world by (simp add: new_sent_def)
  then show thesis using that [OF step calm_work [OF c step b]] ack path by (simp add: runner_moves_def read_defs)
qed

lemma init_calm:
  obtains S st where "processes_init demo_argv S" and "calm 0 S (initial 1 ''fair'')" and "ctl_proc S = Opening st"
    and "run_proc S = (\<lambda>_. None)" and "fifos S = (\<lambda>_. [])" and "self_pid (ctl_world S) = 100"
proof -
  obtain st0 where c: "controller_configure demo_argv = Some st0" "parallel_limit st0 = 1" "policy st0 = ''fair''"
    using demo_configure by simp
  have "fresh_process demo_world" by simp
  from controller_boot_ok [OF this c(1)] obtain p w where
    b: "controller_boot demo_argv demo_world = Some (p, w)" "goes demo_world [] w"
      "sys_ok demo_world \<and> \<not> may_fail demo_world \<longrightarrow> (\<exists>st. p = Opening st)" by metis
  define S where "S = \<lparr>ctl_proc = p, ctl_world = w, run_proc = (\<lambda>_. None), run_world = (\<lambda>p. demo_runner\<lparr>self_pid := p\<rparr>), fifos = (\<lambda>_. [])\<rparr>"
  have init: "processes_init demo_argv S" unfolding processes_init_def
    by (intro conjI exI [of _ demo_world]) (use b(1) in \<open>simp_all add: S_def\<close>)
  have "sys_ok (demo_runner\<lparr>self_pid := q\<rparr>)" for q using demo_runner_ok(1) by (simp add: sys_ok_def)
  then have "\<not> troubled S" using goes_env [OF b(2)] by (simp add: troubled_def S_def)
  then have "calm 0 S (initial 1 ''fair'')" using init_inv [OF init c(1)] c(2,3) by (simp add: calm_def)
  moreover obtain st where "ctl_proc S = Opening st" using b(3) by (auto simp: S_def)
  ultimately show thesis using that [OF init] goes_env [OF b(2)] by (simp add: S_def)
qed

definition demo_submit :: "string list" where
  "demo_submit = [''runner'', ''-e'', ''7'', ''ls'']"

lemma demo_submit_args: "demo_submit \<in> submits_args" "length demo_submit = 4" "demo_submit ! 1 = ''-e''" "demo_submit ! 3 = ''ls''"
  by (simp_all add: demo_submit_def submits_args_def)

lemma start_submit:
  assumes "sys_ok w" and "self_pid w = p"
  obtains d w' where "runner_start demo_submit w = Some (Waiting_answer d (runner_fifo p) (submit_of p 7 ''ls''), w')"
    and "hands_over w [(SERVER_FIFO_PATH, submit_of p 7 ''ls'')] w'"
proof -
  have "atoi ''7'' = Some 7" by code_simp
  then have u: "atoi (demo_submit ! 2) = Some 7" by (simp add: demo_submit_def)
  obtain st w' where b: "execute_begin 7 ''ls'' w = (st, w')" "hands_over w [(SERVER_FIFO_PATH, submit_of (self_pid w) 7 ''ls'')] w'"
    "st = Over 1 \<and> \<not> sys_ok w \<or> (\<exists>d. st = Waiting_answer d (runner_fifo_path w) (submit_of (self_pid w) 7 ''ls''))"
    using execute_begin_ok [of 7 "''ls''" w] by (elim exE conjE) (rule that)
  have "runner_start demo_submit w = Some (st, w')"
    using demo_submit_args(2-4) u b(1) by (simp add: runner_start_def runner_parse_args_def)
  moreover obtain d where "st = Waiting_answer d (runner_fifo_path w) (submit_of (self_pid w) 7 ''ls'')" using b(3) assms(1) by auto
  ultimately show thesis using that [of d w'] b(2) assms(2) by (simp add: runner_fifo_path_def)
qed

text \<open>Runner 201 has submitted and its authorisation is in its pipe.\<close>

lemma one_authorised_reach:
  obtains S s d st dd m where "preach demo_argv submits_args 1 S" and "calm 1 S s" and "\<not> sp_stop s" and "ctl_proc S = Serving d st"
    and "run_proc S = (\<lambda>_. None)(201 := Some (Waiting_answer dd (runner_fifo 201) (submit_of 201 7 ''ls'')))"
    and "fifos S SERVER_FIFO_PATH = []" and "fifos S (runner_fifo 201) = [m]" and "msg_type m = ACK"
proof -
  obtain S0 st where 0: "processes_init demo_argv S0" "calm 0 S0 (initial 1 ''fair'')" "ctl_proc S0 = Opening st"
    "run_proc S0 = (\<lambda>_. None)" "fifos S0 = (\<lambda>_. [])" by (rule init_calm)
  let ?m = "submit_of 201 7 ''ls''" and ?s = "initial 1 ''fair''"
  have r0: "preach demo_argv submits_args 0 S0" by (rule preach_init [OF 0(1)])
  have w: "sys_ok (run_world S0 201)" "self_pid (run_world S0 201) = 201" using calmD(5) [OF 0(2)] procs_invD(4) [OF calmD(1) [OF 0(2)]] by simp_all
  obtain dd w' where st: "runner_start demo_submit (run_world S0 201) = Some (Waiting_answer dd (runner_fifo 201) ?m, w')"
    "hands_over (run_world S0 201) [(SERVER_FIFO_PATH, ?m)] w'" by (rule start_submit [OF w])
  have up: "\<forall>r. ctl_proc S0 \<noteq> Returned r" and new: "run_proc S0 201 = None" using 0(3,4) by simp_all
  obtain S1 where 1: "user_starts submits_args S0 S1" "calm 0 S1 ?s" "run_proc S1 = (run_proc S0)(201 := Some (Waiting_answer dd (runner_fifo 201) ?m))"
    "fifos S1 = deliver [(SERVER_FIFO_PATH, ?m)] (fifos S0)" "ctl_proc S1 = ctl_proc S0"
    by (rule go_user [OF 0(2) new pids_ok(1) demo_submit_args(1) up st])
  note r1 = preach_user [OF r0 1(1)]
  have m1: "fifos S1 SERVER_FIFO_PATH = [?m]" "fifos S1 (runner_fifo q) = []" for q using 1(4) 0(5) by (simp_all add: deliver_def)
  have op: "ctl_proc S1 = Opening st" and ne: "fifos S1 SERVER_FIFO_PATH \<noteq> []" using 0(3) 1(5) m1 by simp_all
  obtain S2 d where 2: "work_step S1 0 S2" "calm 0 S2 ?s" "ctl_proc S2 = Serving d st" "fifos S2 = fifos S1" "run_proc S2 = run_proc S1"
    by (rule go_open [OF 1(2) op ne]) simp
  have r2: "preach demo_argv submits_args 0 S2" using preach_work [OF r1 2(1)] by simp
  have m2: "fifos S2 SERVER_FIFO_PATH = ?m # []" using m1 2(4) by simp
  obtain S3 s' out logs where 3: "work_step S2 1 S3" "spec_step False (self_pid (ctl_world S2)) ?s ?m out logs s'" "calm (0 + 1) S3 s'"
    "fifos S3 = deliver out ((fifos S2)(SERVER_FIFO_PATH := []))" "run_proc S3 = run_proc S2"
    "sp_stop s' \<and> ctl_proc S3 = Returned 0 \<or> \<not> sp_stop s' \<and> (\<exists>d st. ctl_proc S3 = Serving d st)"
    by (rule go_message [OF 2(2,3) m2]) simp
  have r3: "preach demo_argv submits_args 1 S3" using preach_work [OF r2 3(1)] by simp
  have t: "msg_type ?m = SUBMIT" "msg_command_id ?m = 201" "sender_pid ?m = 201" by (simp_all add: submit_of_def)
  have "\<exists>now. out = [ack (self_pid (ctl_world S2)) (job_of ?m now)] \<and> \<not> sp_stop s'"
    using 3(2)
  proof (cases rule: spec_step.cases)
    case (handled out1 s1 out2)
    have "\<exists>now. out1 = [ack (self_pid (ctl_world S2)) (job_of ?m now)] \<and> \<not> sp_shut s1 \<and> \<not> sp_stop s1"
      using handled(3) t by (cases rule: spec_msg.cases) (auto simp: initial_def)
    then show ?thesis using handled(1,4) by (auto simp: finish_def)
  qed (simp add: initial_def)
  then obtain now where o: "out = [ack (self_pid (ctl_world S2)) (job_of ?m now)]" and ns: "\<not> sp_stop s'" by blast
  have out: "out = [(runner_fifo 201, snd (ack (self_pid (ctl_world S2)) (job_of ?m now)))]" and a: "msg_type (snd (ack (self_pid (ctl_world S2)) (job_of ?m now))) = ACK"
    using o t by (simp_all add: ack_def job_of_def)
  have b: "fifos S3 SERVER_FIFO_PATH = []" "fifos S3 (runner_fifo 201) = [snd (ack (self_pid (ctl_world S2)) (job_of ?m now))]"
    using 3(4) out m1(2) 2(4) by (simp_all add: deliver_def)
  obtain d3 st3 where sv: "ctl_proc S3 = Serving d3 st3" using 3(6) ns by blast
  show thesis by (rule that [OF r3 _ ns sv _ b a]) (use 3(3,5) 2(5) 1(3) 0(4) in simp_all)
qed

lemma one_running_program:
  obtains S s where "preach demo_argv submits_args 1 S" and "calm 1 S s" and "\<exists>d path sub m. run_proc S 201 = Some (Running_command d path sub m)"
    and "\<forall>p. p \<noteq> 201 \<longrightarrow> run_proc S p = None" and "fifos S SERVER_FIFO_PATH = []" and "fifos S (runner_fifo 201) = []"
proof -
  obtain S s d st dd m where 1: "preach demo_argv submits_args 1 S" "calm 1 S s" "\<not> sp_stop s" "ctl_proc S = Serving d st"
    "run_proc S = (\<lambda>_. None)(201 := Some (Waiting_answer dd (runner_fifo 201) (submit_of 201 7 ''ls'')))"
    "fifos S SERVER_FIFO_PATH = []" "fifos S (runner_fifo 201) = [m]" "msg_type m = ACK" by (rule one_authorised_reach)
  have p: "run_proc S 201 = Some (Waiting_answer dd (runner_fifo 201) (submit_of 201 7 ''ls''))" using 1(5) by simp
  obtain S' where 2: "work_step S 0 S'" "calm 1 S' s" "run_proc S' = (run_proc S)(201 := Some (Running_command dd (runner_fifo 201) (submit_of 201 7 ''ls'') m))"
    "fifos S' = (fifos S)(runner_fifo 201 := [])" by (rule go_read [OF 1(2) p 1(7,8)]) simp
  have "preach demo_argv submits_args 1 S'" using preach_work [OF 1(1) 2(1)] by simp
  then show thesis using that 2(2-4) 1(5,6) by auto
qed

text \<open>Runner 300 asks for the shutdown of an idle controller, which returns.\<close>

definition demo_stop :: "string list" where
  "demo_stop = [''runner'', ''-s'']"

lemma start_stop:
  assumes "sys_ok w" and "self_pid w = p"
  obtains d w' where "runner_start demo_stop w = Some (Waiting_exit d (runner_fifo p), w')"
    and "hands_over w [(SERVER_FIFO_PATH, shutdown_of p)] w'"
proof -
  obtain st w' where b: "shutdown_begin w = (st, w')"
    "hands_over w [(SERVER_FIFO_PATH, zero_msg\<lparr>msg_type := SHUTDOWN_REQ, sender_pid := self_pid w\<rparr>)] w'"
    "st = Over 1 \<and> \<not> sys_ok w \<or> (\<exists>d. st = Waiting_exit d (runner_fifo_path w))"
    using shutdown_begin_ok [of w] by (elim exE conjE) (rule that)
  have "runner_start demo_stop w = Some (st, w')"
    using b(1) by (simp add: runner_start_def runner_parse_args_def demo_stop_def)
  moreover obtain d where "st = Waiting_exit d (runner_fifo_path w)" using b(3) assms(1) by auto
  ultimately show thesis using that [of d w'] b(2) assms(2) by (simp add: runner_fifo_path_def shutdown_of_def)
qed

lemma one_stopper_reach:
  obtains S s st d where "preach demo_argv stops_args 0 S" and "calm 0 S (initial 1 ''fair'')" and "ctl_proc S = Opening st"
    and "run_proc S = (\<lambda>_. None)(300 := Some (Waiting_exit d (runner_fifo 300)))" and "fifos S = (\<lambda>_. [])(SERVER_FIFO_PATH := [shutdown_of 300])"
proof -
  obtain S0 st where 0: "processes_init demo_argv S0" "calm 0 S0 (initial 1 ''fair'')" "ctl_proc S0 = Opening st"
    "run_proc S0 = (\<lambda>_. None)" "fifos S0 = (\<lambda>_. [])" by (rule init_calm)
  have r0: "preach demo_argv stops_args 0 S0" by (rule preach_init [OF 0(1)])
  have w: "sys_ok (run_world S0 300)" "self_pid (run_world S0 300) = 300" using calmD(5) [OF 0(2)] procs_invD(4) [OF calmD(1) [OF 0(2)]] by simp_all
  obtain d w' where st: "runner_start demo_stop (run_world S0 300) = Some (Waiting_exit d (runner_fifo 300), w')"
    "hands_over (run_world S0 300) [(SERVER_FIFO_PATH, shutdown_of 300)] w'" by (rule start_stop [OF w])
  have up: "\<forall>r. ctl_proc S0 \<noteq> Returned r" and new: "run_proc S0 300 = None" using 0(3,4) by simp_all
  have a: "demo_stop \<in> stops_args" by (simp add: demo_stop_def stops_args_def)
  obtain S1 where 1: "user_starts stops_args S0 S1" "calm 0 S1 (initial 1 ''fair'')" "run_proc S1 = (run_proc S0)(300 := Some (Waiting_exit d (runner_fifo 300)))"
    "fifos S1 = deliver [(SERVER_FIFO_PATH, shutdown_of 300)] (fifos S0)" "ctl_proc S1 = ctl_proc S0"
    by (rule go_user [OF 0(2) new pids_ok(2) a up st])
  show thesis by (rule that [OF preach_user [OF r0 1(1)] 1(2)]) (use 0(3-5) 1(3-5) in \<open>auto simp: deliver_def\<close>)
qed

text \<open>The controller that is asked while it is idle returns, and tells the runner that asked.\<close>

lemma shutdown_idle_step:
  assumes "spec_step False c (initial lim pol) (shutdown_of p) out logs s'" and "0 < lim"
  shows "sp_stop s'" and "map fst out = [runner_fifo p]"
proof -
  have t: "msg_type (shutdown_of p) = SHUTDOWN_REQ" "sender_pid (shutdown_of p) = p" by (simp_all add: shutdown_of_def)
  have "sp_stop s' \<and> map fst out = [runner_fifo p]" using assms(1)
  proof (cases rule: spec_step.cases)
    case (handled out1 s1 out2)
    then show ?thesis using t by (auto elim!: spec_msg_cases simp: finish_def initial_def farewell_def)
  qed (simp add: t)
  then show "sp_stop s'" "map fst out = [runner_fifo p]" by blast+
qed

lemma preach_mono: "preach cargs A n S \<Longrightarrow> A \<subseteq> B \<Longrightarrow> preach cargs B n S"
proof (induction rule: preach.induct)
  case (preach_user n S S')
  have "user_starts B S S'" using preach_user(2,4) by (auto elim!: user_starts_cases intro: user_starts.user_starts)
  with preach_user show ?case by (auto intro: preach.preach_user)
qed (auto intro: preach.intros)

text \<open>A runner \<open>p\<close> is started before the controller has read the request of runner 300.\<close>

lemma late_message_reach:
  assumes p: "pid_ok p" "p \<noteq> 300" and A: "stops_args \<subseteq> A" "args \<in> A"
    and start: "\<And>w. sys_ok w \<Longrightarrow> self_pid w = p \<Longrightarrow>
      \<exists>d w'. runner_start args w = Some (F d, w') \<and> hands_over w [(SERVER_FIFO_PATH, m)] w'"
  obtains S s d d0 where "preach demo_argv A 1 S" and "calm 1 S s" and "sp_stop s" and "ctl_proc S = Returned 0"
    and "run_proc S = (\<lambda>_. None)(300 := Some (Waiting_exit d0 (runner_fifo 300)), p := Some (F d))"
    and "fifos S (runner_fifo p) = []" and "fifos S SERVER_FIFO_PATH = [m]" and "length (fifos S (runner_fifo 300)) \<le> 1"
proof -
  obtain S1 st d0 where 1: "preach demo_argv stops_args 0 S1" "calm 0 S1 (initial 1 ''fair'')" "ctl_proc S1 = Opening st"
    "run_proc S1 = (\<lambda>_. None)(300 := Some (Waiting_exit d0 (runner_fifo 300)))" "fifos S1 = (\<lambda>_. [])(SERVER_FIFO_PATH := [shutdown_of 300])"
    by (rule one_stopper_reach)
  have r1: "preach demo_argv A 0 S1" by (rule preach_mono [OF 1(1) A(1)])
  have w: "sys_ok (run_world S1 p)" "self_pid (run_world S1 p) = p" using calmD(5) [OF 1(2)] procs_invD(4) [OF calmD(1) [OF 1(2)]] by simp_all
  obtain d w' where st: "runner_start args (run_world S1 p) = Some (F d, w')" "hands_over (run_world S1 p) [(SERVER_FIFO_PATH, m)] w'"
    using start [OF w] by blast
  have up: "\<forall>r. ctl_proc S1 \<noteq> Returned r" and new: "run_proc S1 p = None" using 1(3,4) p(2) by simp_all
  obtain S2 where 2: "user_starts A S1 S2" "calm 0 S2 (initial 1 ''fair'')" "run_proc S2 = (run_proc S1)(p := Some (F d))"
    "fifos S2 = deliver [(SERVER_FIFO_PATH, m)] (fifos S1)" "ctl_proc S2 = ctl_proc S1"
    by (rule go_user [OF 1(2) new p(1) A(2) up st])
  have op: "ctl_proc S2 = Opening st" and ml: "fifos S2 SERVER_FIFO_PATH = shutdown_of 300 # [m]" and bx: "fifos S2 (runner_fifo q) = []" for q
    using 1(3,5) 2(4,5) by (simp_all add: deliver_def)
  have ne: "fifos S2 SERVER_FIFO_PATH \<noteq> []" using ml by simp
  obtain S3 dd where 3: "work_step S2 0 S3" "calm 0 S3 (initial 1 ''fair'')" "ctl_proc S3 = Serving dd st" "fifos S3 = fifos S2" "run_proc S3 = run_proc S2"
    by (rule go_open [OF 2(2) op ne]) simp
  have m3: "fifos S3 SERVER_FIFO_PATH = shutdown_of 300 # [m]" using ml 3(4) by simp
  obtain S4 s' out logs where 4: "work_step S3 1 S4" "spec_step False (self_pid (ctl_world S3)) (initial 1 ''fair'') (shutdown_of 300) out logs s'"
    "calm (0 + 1) S4 s'" "fifos S4 = deliver out ((fifos S3)(SERVER_FIFO_PATH := [m]))" "run_proc S4 = run_proc S3"
    "sp_stop s' \<and> ctl_proc S4 = Returned 0 \<or> \<not> sp_stop s' \<and> (\<exists>d st. ctl_proc S4 = Serving d st)"
    by (rule go_message [OF 3(2,3) m3]) simp
  from shutdown_idle_step [OF 4(2)] have e: "sp_stop s'" "map fst out = [runner_fifo 300]" by simp_all
  then obtain a where out: "out = [(runner_fifo 300, a)]" by (cases out) auto
  have far: "runner_fifo 300 \<noteq> runner_fifo p" using p by (simp add: fifo_inj pids_ok(2))
  have f: "fifos S4 (runner_fifo p) = []" "fifos S4 SERVER_FIFO_PATH = [m]" "length (fifos S4 (runner_fifo 300)) \<le> 1"
    using 4(4) out far bx 3(4) by (simp_all add: deliver_def)
  have r: "preach demo_argv A 1 S4" using preach_work [OF preach_work [OF preach_user [OF r1 2(1)] 3(1)] 4(1)] by simp
  have R: "run_proc S4 = (\<lambda>_. None)(300 := Some (Waiting_exit d0 (runner_fifo 300)), p := Some (F d))"
    using 1(4) 2(3) 3(5) 4(5) by simp
  show thesis by (rule that [OF r _ e(1) _ R f]) (use 4(3,6) e(1) in auto)
qed

text \<open>Runner 301 asks for the shutdown too: the controller has returned and told runner 300 only.\<close>

lemma left_behind_reach:
  obtains S s d d0 where "preach demo_argv stops_args 1 S" and "calm 1 S s" and "sp_stop s" and "ctl_proc S = Returned 0"
    and "run_proc S = (\<lambda>_. None)(300 := Some (Waiting_exit d0 (runner_fifo 300)), 301 := Some (Waiting_exit d (runner_fifo 301)))"
    and "fifos S (runner_fifo 301) = []" and "fifos S SERVER_FIFO_PATH = [shutdown_of 301]" and "length (fifos S (runner_fifo 300)) \<le> 1"
proof -
  have a: "demo_stop \<in> stops_args" by (simp add: demo_stop_def stops_args_def)
  have st: "\<exists>d w'. runner_start demo_stop w = Some (Waiting_exit d (runner_fifo 301), w') \<and> hands_over w [(SERVER_FIFO_PATH, shutdown_of 301)] w'"
    if "sys_ok w" "self_pid w = 301" for w by (rule start_stop [OF that]) blast
  show thesis by (rule late_message_reach [OF pids_ok(3) _ subset_refl a st]) (simp, assumption+, rule that)
qed

text \<open>Runner 201 submits its command: the controller has returned and has not read the submission.\<close>

lemma unread_submission_reach:
  obtains S s d d0 where "preach demo_argv (stops_args \<union> submits_args) 1 S" and "calm 1 S s" and "ctl_proc S = Returned 0"
    and "run_proc S = (\<lambda>_. None)(300 := Some (Waiting_exit d0 (runner_fifo 300)),
      201 := Some (Waiting_answer d (runner_fifo 201) (submit_of 201 7 ''ls'')))"
    and "fifos S SERVER_FIFO_PATH = [submit_of 201 7 ''ls'']"
proof -
  have a: "demo_submit \<in> stops_args \<union> submits_args" using demo_submit_args(1) by blast
  have st: "\<exists>d w'. runner_start demo_submit w = Some (Waiting_answer d (runner_fifo 201) (submit_of 201 7 ''ls''), w') \<and>
      hands_over w [(SERVER_FIFO_PATH, submit_of 201 7 ''ls'')] w'"
    if "sys_ok w" "self_pid w = 201" for w by (rule start_submit [OF that]) blast
  show thesis by (rule late_message_reach [OF pids_ok(1) _ _ a st]) (simp, simp, assumption+, rule that)
qed

end
