(* ===== verification/Processes_Theorems.thy ===== *)
theory Processes_Theorems
  imports Processes_Runs
begin

text \<open>
  The properties of the two programs run together. The first group holds whatever calls fail and whatever
  runners users start; the second one describes the programs when no call fails. The instances are states
  of the runs of \<open>Processes_Runs\<close>, in which one runner submits a command to a controller with one slot.
\<close>

subsection \<open>Whatever calls fail\<close>

text \<open>The processes that run their command.\<close>

definition running_now :: "processes \<Rightarrow> int set" where
  "running_now S = {p. \<exists>d path sub m. run_proc S p = Some (Running_command d path sub m)}"

lemma running_slots: "procs_inv n S s \<Longrightarrow> running_now S \<subseteq> command_id ` set (sp_running s)"
proof
  fix p assume inv: "procs_inv n S s" and "p \<in> running_now S"
  then obtain d path sub m where "run_proc S p = Some (Running_command d path sub m)" by (auto simp: running_now_def)
  from procs_runner(3) [OF inv this refl] show "p \<in> command_id ` set (sp_running s)" by simp
qed

text \<open>
  C2. The promise of the program: at every moment at most as many commands run as the command line of the
  controller allows. It holds for the code of the two programs, for any runners started by any users at any
  time, in every interleaving and whatever allocations and system calls fail in any of the processes.
\<close>

theorem programs_limit:
  assumes "controller_configure cargs = Some st0" and "preach cargs A n S" and "3 * int n < 2 ^ 31"
  shows "finite (running_now S) \<and> int (card (running_now S)) \<le> parallel_limit st0"
proof -
  obtain s where s: "procs_inv n S s" "sp_limit s = parallel_limit st0" using preach_inv [OF assms(2,1,3)] by blast
  note sub = running_slots [OF s(1)]
  have fin: "finite (command_id ` set (sp_running s))" by simp
  have "card (running_now S) \<le> card (command_id ` set (sp_running s))" by (rule card_mono [OF fin sub])
  also have "\<dots> \<le> length (sp_running s)" using card_image_le [of "set (sp_running s)" command_id] card_length [of "sp_running s"] by simp
  finally show ?thesis
    using finite_subset [OF sub fin] traffic_okD(1) [OF procs_invD(2) [OF s(1)]] s(2) by (simp add: spec_inv_def)
qed

theorem programs_limit_witness:
  "\<exists>S. preach demo_argv UNIV 1 S \<and> running_now S = {201} \<and> int (card (running_now S)) \<le> 1"
proof -
  obtain S s where S: "preach demo_argv submits_args 1 S" "\<exists>d path sub m. run_proc S 201 = Some (Running_command d path sub m)"
    "\<forall>p. p \<noteq> 201 \<longrightarrow> run_proc S p = None" by (rule one_running_program)
  obtain st0 where c: "controller_configure demo_argv = Some st0" "parallel_limit st0 = 1" using demo_configure by simp
  have r: "preach demo_argv UNIV 1 S" by (rule preach_mono [OF S(1)]) simp
  have "running_now S = {201}" using S(2,3) by (fastforce simp: running_now_def)
  moreover have "int (card (running_now S)) \<le> parallel_limit st0" using programs_limit [OF c(1) r] by simp
  ultimately show ?thesis using c(2) r by (intro exI [of _ S]) simp
qed

text \<open>
  C13. A controller that returns 0 leaves no command running: whatever fails and whoever is started, in a
  state in which the controller has returned 0 no runner executes a command, and none starts one later.
  However it returns, the controller has released its queues and its table of users.
\<close>

theorem programs_end:
  assumes "preach cargs A n S" and "3 * int n < 2 ^ 31" and "ctl_proc S = Returned r"
  shows "released (ctl_world S) \<and> (r = 0 \<longrightarrow> running_now S = {} \<and>
    (\<forall>p d path sub m. run_proc S p = Some (Waiting_answer d path sub) \<and> m \<in> set (fifos S path) \<longrightarrow> msg_type m \<noteq> ACK))"
proof -
  obtain st0 where c: "controller_configure cargs = Some st0" using preach_configured [OF assms(1)] by blast
  obtain s where s: "procs_inv n S s" using preach_inv [OF assms(1) c assms(2)] by blast
  note d = procs_invD [OF s]
  have rep: "released (ctl_world S)" "r = 0 \<longrightarrow> sp_stop s" using d(1) assms(3) by auto
  have idle: "sp_running s = []" if "sp_stop s" using traffic_okD(2) [OF d(2)] that by (simp add: stop_inv_def)
  have "msg_type m \<noteq> ACK" if stop: "sp_stop s" and p: "run_proc S p = Some (Waiting_answer d path sub)" "m \<in> set (fifos S path)" for p d path sub m
  proof -
    have "pid_ok p" "path = runner_fifo p" using procs_runner(1,2) [OF s p(1)] by simp_all
    then have "answer_ok s (run_proc S) p m" using traffic_okD(6) [OF procs_invD(2) [OF s]] p(2) by simp
    then show ?thesis using idle [OF stop] p(1) by (auto simp: answer_ok_def)
  qed
  moreover have "running_now S = {}" if "sp_stop s" using running_slots [OF s] idle [OF that] by simp
  ultimately show ?thesis using rep by blast
qed

theorem programs_end_witness:
  "\<exists>S. preach demo_argv stops_args 1 S \<and> ctl_proc S = Returned 0 \<and> released (ctl_world S) \<and> running_now S = {}"
proof -
  obtain S where S: "preach demo_argv stops_args 1 S" "ctl_proc S = Returned 0" by (rule left_behind_reach)
  from programs_end [OF S(1) _ S(2)] have "released (ctl_world S) \<and> running_now S = {}" by simp
  with S show ?thesis by blast
qed

text \<open>The kinds of messages a runner may find in its pipe.\<close>

fun expects :: "runner_state option \<Rightarrow> MsgType set" where
  "expects None = {}"
| "expects (Some (Waiting_answer d p sub)) = {ACK, SHUTDOWN_ACK}"
| "expects (Some (Running_command d p sub m)) = {ACK, SHUTDOWN_ACK}"
| "expects (Some (Reading_status d p)) = {STATUS_RESP, STATUS_END}"
| "expects (Some (Waiting_exit d p)) = {SHUTDOWN_ACK}"
| "expects (Some (Over r)) = {ACK, SHUTDOWN_ACK, STATUS_RESP, STATUS_END}"

lemma answer_expected:
  assumes "answer_ok s R p m"
  shows "msg_type m \<in> expects (R p)" and "msg_type m = ACK \<Longrightarrow> msg_command_id m = p"
  using assms by (cases "msg_type m"; cases "R p" rule: expects.cases; auto simp: answer_ok_def plays_def)+

text \<open>
  C14. What the pipes carry. On the public pipe: submissions and reports that name their runner (of a report
  the runner has ended), status queries and shutdown requests. On the private pipe of a runner: only
  messages of the kinds its mode waits for, and authorisations only for its own command. So no message is
  ever taken for another one, whatever fails.
\<close>

theorem pipes_typed:
  assumes "preach cargs A n S" and "3 * int n < 2 ^ 31"
  shows "(\<forall>m\<in>set (fifos S SERVER_FIFO_PATH). letter_ok (run_proc S) m) \<and>
    (\<forall>p m. pid_ok p \<and> m \<in> set (fifos S (runner_fifo p)) \<longrightarrow>
       msg_type m \<in> expects (run_proc S p) \<and> (msg_type m = ACK \<longrightarrow> msg_command_id m = p))"
proof -
  obtain st0 where c: "controller_configure cargs = Some st0" using preach_configured [OF assms(1)] by blast
  obtain s where s: "procs_inv n S s" using preach_inv [OF assms(1) c assms(2)] by blast
  note t = traffic_okD [OF procs_invD(2) [OF s]]
  show ?thesis using t(5) answer_expected [OF t(6)] by blast
qed

theorem pipes_typed_witness:
  "\<exists>S m. preach demo_argv submits_args 1 S \<and> fifos S (runner_fifo 201) = [m] \<and> msg_type m = ACK \<and>
     msg_type m \<in> expects (run_proc S 201) \<and> msg_command_id m = 201"
proof -
  obtain S m where S: "preach demo_argv submits_args 1 S" "fifos S (runner_fifo 201) = [m]" "msg_type m = ACK"
    by (rule one_authorised_reach)
  have "msg_type m \<in> expects (run_proc S 201) \<and> (msg_type m = ACK \<longrightarrow> msg_command_id m = 201)"
    using pipes_typed [OF S(1)] S(2) by simp
  with S show ?thesis by auto
qed

text \<open>
  C12. No process ever does anything undefined (a dead or null pointer, an index out of bounds, an overflow, an
  uninitialised read): in every reachable state the next step of every process is defined, whatever the
  read returns and whatever fails. The bound is on the number of messages the controller has handled; a
  runner is only asked to be given a number that fits an \<open>int\<close>.
\<close>

theorem programs_defined:
  assumes "preach cargs A n S" and "3 * int (n + 1) < 2 ^ 31"
  shows "(case ctl_proc S of
       Opening st \<Rightarrow> controller_open st (ctl_world S) \<noteq> None
     | Serving d st \<Rightarrow> (\<forall>x. controller_read x d st (ctl_world S) \<noteq> None)
     | Returned r \<Rightarrow> True) \<and>
    (\<forall>p. case run_proc S p of
       None \<Rightarrow> (\<forall>args. runner_start args (run_world S p) = None \<longrightarrow> atoi (args ! 2) = None)
     | Some (Running_command d path sub m) \<Rightarrow> execute_finish d path sub m (run_world S p) \<noteq> None
     | _ \<Rightarrow> True)"
proof -
  obtain st0 where c: "controller_configure cargs = Some st0" using preach_configured [OF assms(1)] by blast
  have b: "3 * int n < 2 ^ 31" using assms(2) by simp
  obtain s where s: "procs_inv n S s" using preach_inv [OF assms(1) c b] by blast
  note i = procs_invD [OF s]
  have ctl: "case ctl_proc S of
       Opening st \<Rightarrow> controller_open st (ctl_world S) \<noteq> None
     | Serving d st \<Rightarrow> (\<forall>x. controller_read x d st (ctl_world S) \<noteq> None)
     | Returned r \<Rightarrow> True"
  proof (cases "ctl_proc S")
    case (Opening st)
    then have "ctl_rep st (ctl_world S) s" "\<not> sp_stop s" using i(1) by simp_all
    then have "controller_open st (ctl_world S) \<noteq> None" using controller_open_ok by (metis option.distinct(1))
    then show ?thesis using Opening by simp
  next
    case (Serving d st)
    then have rep: "ctl_rep st (ctl_world S) s" "\<not> sp_stop s" using i(1) by simp_all
    have "bounded (Suc 0) s" using assms(2) i(5-7) by (simp add: bounded_def)
    note read = controller_read_message_ok [OF rep(1) traffic_okD(1) [OF i(2)] rep(2) i(3) this]
    have "controller_read x d st (ctl_world S) \<noteq> None" for x
    proof (cases x)
      case (Pair n' m)
      show ?thesis
      proof (cases "n' = int sizeof_RpcMessage")
        case True
        then show ?thesis using read [of m d] Pair by (metis option.distinct(1))
      next
        case False
        then show ?thesis using controller_read_end_ok [OF rep False, of m d] Pair by (metis option.distinct(1))
      qed
    qed
    then show ?thesis using Serving by simp
  qed simp
  have st: "atoi (args ! 2) = None" if "runner_start args w = None" for args and w :: runner_world
    using that by (auto simp: runner_start_def runner_parse_args_def zero_request_def split: if_splits Option.bind_splits)
  have ex: "execute_finish d path sub m w \<noteq> None" for d path sub m w by (metis execute_finish_ok option.distinct(1))
  show ?thesis using ctl st ex by (auto split: option.split runner_state.split)
qed

theorem programs_defined_witness:
  "\<exists>S d path sub m. preach demo_argv submits_args 1 S \<and> run_proc S 201 = Some (Running_command d path sub m) \<and>
     execute_finish d path sub m (run_world S 201) \<noteq> None"
proof -
  obtain S s where S: "preach demo_argv submits_args 1 S" "\<exists>d path sub m. run_proc S 201 = Some (Running_command d path sub m)"
    by (rule one_running_program)
  then obtain d path sub m where r: "run_proc S 201 = Some (Running_command d path sub m)" by blast
  have "case run_proc S 201 of
       None \<Rightarrow> (\<forall>args. runner_start args (run_world S 201) = None \<longrightarrow> atoi (args ! 2) = None)
     | Some (Running_command d path sub m) \<Rightarrow> execute_finish d path sub m (run_world S 201) \<noteq> None
     | _ \<Rightarrow> True" using programs_defined [OF S(1)] by simp
  with S(1) r show ?thesis by auto
qed

subsection \<open>The programs are their steps\<close>


subsection \<open>When no call fails\<close>



text \<open>
  How many steps are left at most, read off the pipes: an unread message of the public pipe may be a status
  query, answered by a line for every job and five more messages at most; a runner takes six steps.
\<close>

definition work_left :: "processes \<Rightarrow> nat" where
  "work_left S = (card (started_procs S) + 5) * length (fifos S SERVER_FIFO_PATH) + 6 * card (started_procs S) +
     (\<Sum>p\<in>started_procs S. length (fifos S (runner_fifo p))) + 1"

lemma to_do_bound:
  assumes fin: "finite (started_procs S)"
  shows "to_do S s \<le> work_left S"
proof -
  let ?n = "card (started_procs S)" and ?ms = "fifos S SERVER_FIFO_PATH"
  have e: "effort (view S s) \<le> length (filter protocol_msg ?ms) + 3 * ?n"
    using effort_bound [of "view S s"] fin by (simp add: active_view)
  have a: "answers_left (fifos S) (started_procs S) \<le> (\<Sum>p\<in>started_procs S. length (fifos S (runner_fifo p)))"
    unfolding answers_left_def by (rule sum_mono) simp
  have "(?n + 5) * length ?ms = (?n + 5) * length (filter protocol_msg ?ms) + (?n + 5) * asides ?ms"
    using sum_length_filter_compl [of protocol_msg ?ms] by (metis distrib_left)
  moreover have "2 * length (filter protocol_msg ?ms) \<le> (?n + 5) * length (filter protocol_msg ?ms)" by simp
  ultimately have "2 * length (filter protocol_msg ?ms) + asides ?ms * (?n + 5) \<le> (?n + 5) * length ?ms" by (simp add: mult.commute)
  with e a restless_le [of S] show ?thesis unfolding to_do_def chatter_def work_left_def by linarith
qed

text \<open>A run from a reachable state, with the state of the system at its end.\<close>

lemma programs_run:
  assumes "controller_configure cargs = Some st0" and "preach cargs A n S"
    and "3 * int (n + work_left S + 1) < 2 ^ 31" and "\<not> troubled S" and "work_run j k S S'"
  obtains s s' i where "smooth (n + k) S' s'" and "reach (self_pid (ctl_world S)) (parallel_limit st0) (policy st0) (view S s)"
    and "sys_run (self_pid (ctl_world S)) i (view S s) (view S' s')" and "self_pid (ctl_world S') = self_pid (ctl_world S)"
    and "j \<le> work_left S" and "3 * int (n + k + 1) < 2 ^ 31"
    and "A \<subseteq> submits_args \<union> asks_args \<longrightarrow> all_well S' s'" and "started_procs S' = started_procs S" and "procs_inv n S s"
proof -
  have b: "3 * int n < 2 ^ 31" using assms(3) by simp
  obtain s where s: "smooth n S s" "reach (self_pid (ctl_world S)) (parallel_limit st0) (policy st0) (view S s)"
    "A \<subseteq> submits_args \<union> asks_args \<longrightarrow> all_well S s" using preach_smooth [OF assms(2,1) b assms(4)] by blast
  have fin: "finite (started_procs S)" using reach_active [OF s(2)] by (simp add: active_view)
  have td: "to_do S s \<le> work_left S" by (rule to_do_bound [OF fin])
  then have "3 * int (n + to_do S s + 1) < 2 ^ 31" using assms(3) by simp
  from run_smooth [OF assms(5) s(1) this fin] obtain s' i where s': "smooth (n + k) S' s'" "self_pid (ctl_world S') = self_pid (ctl_world S)"
    "sys_run (self_pid (ctl_world S)) i (view S s) (view S' s')" "j + to_do S' s' \<le> to_do S s" "k \<le> j"
    "started_procs S' = started_procs S" "all_well S s \<longrightarrow> all_well S' s'" by blast
  show thesis
    by (rule that [OF s'(1) s(2) s'(3,2) _ _ _ s'(6) smoothD(1) [OF s(1)]]) (use s'(4,5,7) s(3) td assms(3) in auto)
qed

text \<open>
  The runs of the programs are bounded: the steps are counted, and the bound is \<open>work_left\<close>. A state is ready when it
  is reachable, no call fails and the numbers of the controller cannot overflow in what is left to do.
\<close>

definition programs_ready :: "string list set \<Rightarrow> processes \<Rightarrow> bool" where
  "programs_ready A S \<longleftrightarrow> \<not> troubled S \<and> (\<exists>cargs n. preach cargs A n S \<and> 3 * int (n + work_left S + 1) < 2 ^ 31)"

lemma programs_ready_run:
  assumes "programs_ready A S" and "work_run j k S S'"
  obtains n s s' c lim pol i where "smooth (n + k) S' s'" and "reach c lim pol (view S s)" and "sys_run c i (view S s) (view S' s')"
    and "j \<le> work_left S" and "3 * int (n + k + 1) < 2 ^ 31" and "A \<subseteq> submits_args \<union> asks_args \<longrightarrow> all_well S' s'"
    and "started_procs S' = started_procs S"
proof -
  obtain cargs n where r: "preach cargs A n S" "3 * int (n + work_left S + 1) < 2 ^ 31" and t: "\<not> troubled S"
    using assms(1) by (auto simp: programs_ready_def)
  obtain st0 where c: "controller_configure cargs = Some st0" using preach_configured [OF r(1)] by blast
  show thesis by (rule programs_run [OF c r t assms(2)]) (rule that)
qed

lemma work_run_snoc: "work_run j k S S1 \<Longrightarrow> work_step S1 k' S2 \<Longrightarrow> work_run (Suc j) (k + k') S S2"
proof (induction rule: work_run.induct)
  case (work_run_0 S)
  from work_run_Suc [OF this work_run.work_run_0] show ?case by simp
next
  case (work_run_Suc S k S1 j k'' S2)
  from work_run.work_run_Suc [OF work_run_Suc(1) work_run_Suc(3) [OF work_run_Suc(4)]] show ?case by (simp add: add.assoc)
qed

lemma work_run_bound: "programs_ready A S \<Longrightarrow> work_run j k S S' \<Longrightarrow> j \<le> work_left S"
  by (erule programs_ready_run)

interpretation program_runs: bounded_runs "\<lambda>S S'. \<exists>k. work_step S k S'" "\<lambda>j S S'. \<exists>k. work_run j k S S'" "programs_ready A" work_left for A
  by unfold_locales (auto intro: work_run_0 work_run_snoc dest: work_run_bound)

lemma work_run_maximal:
  assumes "programs_ready A S"
  obtains j k S' where "work_run j k S S'" and "\<nexists>k S''. work_step S' k S''"
  using program_runs.maximal [OF assms] by blast

text \<open>
  The goal when users submit and ask: all runners have returned 0. A process that waits when no step is left
  would be blocked although the controller is open for work.
\<close>

lemma finish_goal:
  assumes A: "A \<subseteq> submits_args \<union> asks_args" and ready: "programs_ready A S" and run: "work_run j k S S'"
    and stuck: "\<nexists>k S''. work_step S' k S''" and p: "p \<in> started_procs S"
  shows "run_proc S' p = Some (Over 0)"
proof -
  obtain n s s' c lim pol i where r: "smooth (n + k) S' s'" "reach c lim pol (view S s)" "sys_run c i (view S s) (view S' s')"
    "j \<le> work_left S" "3 * int (n + k + 1) < 2 ^ 31" "A \<subseteq> submits_args \<union> asks_args \<longrightarrow> all_well S' s'"
    "started_procs S' = started_procs S" by (rule programs_ready_run [OF ready run])
  have well: "all_well S' s'" using r(6) A by blast
  then have op: "open_for_work (view S' s')" by (simp add: all_well_def)
  note none = stuck_system [OF r(1) stuck r(5)]
  have "\<not> (phase (view S' s') p = Submitted \<or> p \<in> executing (view S' s'))"
    using blocked [OF smoothD(7) [OF r(1)] none] op by (auto simp: open_for_work_def)
  moreover have "phase (view S' s') p \<noteq> Stopping" using op by (simp add: open_for_work_def)
  moreover have "\<not> sp_stop s'"
    using op traffic_okD(2) [OF procs_invD(2) [OF smoothD(1) [OF r(1)]]] by (auto simp: open_for_work_def stop_inv_def)
  then have "run_proc S' p \<noteq> Some (Reading_status d path)" for d path using stuck_asker [OF r(1) stuck r(5)] by blast
  ultimately obtain e where "run_proc S' p = Some (Over e)"
    using p unfolding r(7) [symmetric]
    by (cases "run_proc S' p" rule: phase_of.cases) (auto simp: executing_def started_procs_def)
  then show ?thesis using well by (simp add: all_well_def)
qed

interpretation program_end: goal_runs "\<lambda>S S'. \<exists>k. work_step S k S'" "\<lambda>j S S'. \<exists>k. work_run j k S S'"
  "\<lambda>S. \<exists>A. A \<subseteq> submits_args \<union> asks_args \<and> programs_ready A S" work_left
  "\<lambda>S S'. \<forall>p\<in>started_procs S. run_proc S' p = Some (Over 0)"
  by unfold_locales (auto intro: work_run_0 work_run_snoc finish_goal dest: work_run_bound)

text \<open>The goal when a runner has asked for the shutdown: the controller has returned 0.\<close>

lemma stop_goal:
  assumes ready: "programs_ready A S" and p: "run_proc S p = Some (Waiting_exit d path)" and run: "work_run j k S S'"
    and stuck: "\<nexists>k S''. work_step S' k S''"
  shows "ctl_proc S' = Returned 0"
proof -
  obtain n s s' c lim pol i where r: "smooth (n + k) S' s'" "reach c lim pol (view S s)" "sys_run c i (view S s) (view S' s')"
    "j \<le> work_left S" "3 * int (n + k + 1) < 2 ^ 31" by (rule programs_ready_run [OF ready run])
  have "phase (view S s) p = Stopping" using p by simp
  then have "will_stop (view S' s')" using will_stop_run [OF r(3)] reach_asked [OF r(2)] by blast
  from stuck_stopped [OF smoothD(7) [OF r(1)] stuck_system [OF r(1) stuck r(5)] this] show ?thesis
    using stopped_returned [OF r(1)] by simp
qed

interpretation program_stop: goal_runs "\<lambda>S S'. \<exists>k. work_step S k S'" "\<lambda>j S S'. \<exists>k. work_run j k S S'"
  "\<lambda>S. (\<exists>A. programs_ready A S) \<and> (\<exists>p d path. run_proc S p = Some (Waiting_exit d path))" work_left
  "\<lambda>S S'. ctl_proc S' = Returned 0"
  by unfold_locales (auto intro: work_run_0 work_run_snoc stop_goal dest: work_run_bound)






lemma work_run_preach: "work_run j k S S' \<Longrightarrow> preach cargs A n S \<Longrightarrow> preach cargs A (n + k) S'"
proof (induction arbitrary: n rule: work_run.induct)
  case (work_run_Suc S k S1 j k' S2)
  from work_run_Suc(3) [OF preach_work [OF work_run_Suc(4,1)]] show ?case by (simp add: add.assoc)
qed simp


end
