(* ===== verification/Processes_Account.thy ===== *)
theory Processes_Account
  imports Processes_Theorems
begin

text \<open>
  Where each command is. As long as no call fails, every submission that has not ended is in exactly one
  place; only the exit of the controller leaves messages that nobody reads, and then the runners
  that sent them wait forever.
\<close>

subsection \<open>Every command is in one place\<close>

lemma nmail_erased:
  assumes "t = SUBMIT \<or> t = DONE"
  shows "nmail t p (filter protocol_msg ms) = nmail t p ms"
  using assms by (induction ms) (auto simp: protocol_msg_def)



subsection \<open>Left behind\<close>

text \<open>A runner that waits with an empty pipe once the controller has returned, although no call has failed.\<close>

definition left_waiting :: "processes \<Rightarrow> int \<Rightarrow> runner_state \<Rightarrow> bool" where
  "left_waiting S p st \<longleftrightarrow> \<not> troubled S \<and> (\<exists>r. ctl_proc S = Returned r) \<and> run_proc S p = Some st \<and> reading st \<and> fifos S (runner_fifo p) = []"

lemma left_waiting_step:
  assumes sm: "smooth n S s" and step: "work_step S k S'" and bnd: "3 * int (n + k) < 2 ^ 31" and l: "left_waiting S p st"
  shows "left_waiting S' p st \<and> k = 0"
proof -
  note d = smoothD [OF sm]
  obtain r where r: "ctl_proc S = Returned r" and p: "run_proc S p = Some st" "reading st" "fifos S (runner_fifo p) = []"
    using l by (auto simp: left_waiting_def)
  have pid: "pid_ok p" by (rule procs_runner(1) [OF d(1) p(1)])
  have calm: "\<not> troubled S'" using troubled_work [OF d(1) step bnd] d(5) by simp
  from d(1) step bnd show ?thesis
  proof (cases rule: work_cases)
    case (serves m ms out logs s' c w)
    then show ?thesis using procs_invD(1) [OF d(1)] r d(2,3) by auto
  next
    case (reads q st1 st' w m ms)
    then have "q \<noteq> p" using p(3) by auto
    moreover have "pid_ok q" by (rule procs_runner(1) [OF d(1) reads(2)])
    ultimately show ?thesis using reads(1,7) r p pid calm by (simp add: left_waiting_def fifo_inj)
  next
    case (executes q dd sub m r' w)
    then have "q \<noteq> p" using p(1,2) by auto
    moreover have "new_sent (run_world S q) w = [(SERVER_FIFO_PATH, done_of q m)]" using executes(3) d(4) by (simp add: hands_over_ok)
    ultimately show ?thesis using executes(1,6) r p calm by (simp add: left_waiting_def runner_moves_def deliver_server)
  qed (use r d(5) in simp_all)
qed

lemma left_waiting_run:
  assumes "work_run j k S S'" and "smooth n S s" and "3 * int n < 2 ^ 31" and "finite (started_procs S)" and "left_waiting S p st"
  shows "left_waiting S' p st"
  using assms
proof (induction arbitrary: s rule: work_run.induct)
  case (work_run_Suc S k S1 j k' S2)
  note prems = work_run_Suc.prems
  have k: "k = 0" using work_run_Suc.hyps(1) prems(4)
    by (cases rule: work_step.cases) (auto simp: left_waiting_def)
  then have b: "3 * int (n + k) < 2 ^ 31" using prems(2) by simp
  obtain s1 where s1: "smooth (n + k) S1 s1" "mimics S s S1 s1" by (rule work_smooth [OF prems(1) work_run_Suc.hyps(1) b prems(3)])
  have "finite (started_procs S1)" using s1(2) prems(3) by (simp add: mimics_def)
  moreover have "left_waiting S1 p st" using left_waiting_step [OF prems(1) work_run_Suc.hyps(1) b prems(4)] by blast
  ultimately show ?case using work_run_Suc.IH [of s1] s1(1) k prems(2) by simp
qed

lemma reach_smooth:
  assumes "preach cargs A n S" and "3 * int n < 2 ^ 31" and "\<not> troubled S"
  obtains s lim pol where "smooth n S s" and "finite (started_procs S)" and "0 < lim" and "reach (self_pid (ctl_world S)) lim pol (view S s)"
proof -
  obtain st0 where c: "controller_configure cargs = Some st0" using preach_configured [OF assms(1)] by blast
  obtain s where s: "smooth n S s" "reach (self_pid (ctl_world S)) (parallel_limit st0) (policy st0) (view S s)"
    using preach_smooth [OF assms(1) c assms(2,3)] by blast
  show thesis using that [OF s(1) _ controller_configure_ok(1) [OF c] s(2)] reach_active [OF s(2)] by (simp add: active_view)
qed

text \<open>
  C36. A submission that is unread when the controller exits is lost: although no call fails, the runner that
  sent it waits for its answer forever, in every continuation of the run (nobody can be started any more).
\<close>

theorem programs_lose_submission:
  assumes "preach cargs A n S" and "3 * int n < 2 ^ 31" and "\<not> troubled S" and "ctl_proc S = Returned r"
    and "m \<in> set (fifos S SERVER_FIFO_PATH)" and "msg_type m = SUBMIT" and "run_proc S (sender_pid m) = Some (Waiting_answer d path sub)"
    and "work_run j k S S'"
  shows "run_proc S' (sender_pid m) = Some (Waiting_answer d path sub) \<and> \<not> user_starts B S' S''"
proof -
  let ?p = "sender_pid m" and ?st = "Waiting_answer d path sub"
  obtain s where sm: "smooth n S s" and fin: "finite (started_procs S)" by (rule reach_smooth [OF assms(1-3)])
  note i = procs_invD [OF smoothD(1) [OF sm]]
  have pid: "pid_ok ?p" by (rule procs_runner(1) [OF smoothD(1) [OF sm] assms(7)])
  have lt: "letter_ok (run_proc S) m" using traffic_okD(5) [OF i(2)] assms(5) by simp
  then have "nmail SUBMIT ?p (fifos S SERVER_FIFO_PATH) \<noteq> 0"
    using assms(5,6) by (auto simp: letter_ok_def nmail_def filter_empty_conv)
  then have "filter protocol_msg (fifos S (runner_fifo ?p)) = []"
    using inv_owns [OF smoothD(7) [OF sm] pid refl] assms(7) by (auto simp: nmail_erased)
  moreover have "\<forall>x\<in>set (fifos S (runner_fifo ?p)). protocol_msg x"
    using traffic_okD(6) [OF i(2) pid] answer_protocol [of s "run_proc S" ?p] assms(7) by force
  ultimately have "fifos S (runner_fifo ?p) = []" by (simp add: filter_empty_conv)
  then have "left_waiting S ?p ?st" using assms(3,4,7) by (simp add: left_waiting_def)
  then have l: "left_waiting S' ?p ?st" by (rule left_waiting_run [OF assms(8) sm assms(2) fin])
  show ?thesis using l by (auto simp: left_waiting_def elim!: user_starts_cases)
qed

theorem programs_lose_submission_witness:
  "\<exists>S d. preach demo_argv (stops_args \<union> submits_args) 1 S \<and> ctl_proc S = Returned 0 \<and> \<not> troubled S \<and>
     run_proc S 201 = Some (Waiting_answer d (runner_fifo 201) (submit_of 201 7 ''ls'')) \<and>
     (\<forall>j k S'. work_run j k S S' \<longrightarrow> run_proc S' 201 = Some (Waiting_answer d (runner_fifo 201) (submit_of 201 7 ''ls'')))"
proof -
  let ?m = "submit_of 201 7 ''ls''"
  obtain S s d d0 where S: "preach demo_argv (stops_args \<union> submits_args) 1 S" "calm 1 S s" "ctl_proc S = Returned 0"
    "run_proc S = (\<lambda>_. None)(300 := Some (Waiting_exit d0 (runner_fifo 300)), 201 := Some (Waiting_answer d (runner_fifo 201) ?m))"
    "fifos S SERVER_FIFO_PATH = [?m]" by (rule unread_submission_reach)
  have m: "?m \<in> set (fifos S SERVER_FIFO_PATH)" "msg_type ?m = SUBMIT" "sender_pid ?m = 201" using S(5) by (simp_all add: submit_of_def)
  have p: "run_proc S (sender_pid ?m) = Some (Waiting_answer d (runner_fifo 201) ?m)" using S(4) m(3) by simp
  have b: "3 * int 1 < 2 ^ 31" by simp
  note lost = programs_lose_submission [OF S(1) b calmD(2) [OF S(2)] S(3) m(1,2) p]
  show ?thesis using lost S(1,3) calmD(2) [OF S(2)] p unfolding m(3) by blast
qed

text \<open>
  C37. Of two runners that ask for the shutdown one at most is told that the controller has exited: although
  no call fails, once the controller has returned, one of two that still wait does so forever.
\<close>

theorem programs_tell_one:
  assumes "preach cargs A n S" and "3 * int n < 2 ^ 31" and "\<not> troubled S" and "ctl_proc S = Returned r"
    and "run_proc S p = Some (Waiting_exit d1 path1)" and "run_proc S q = Some (Waiting_exit d2 path2)" and "p \<noteq> q"
    and "work_run j k S S'"
  shows "run_proc S' p = Some (Waiting_exit d1 path1) \<or> run_proc S' q = Some (Waiting_exit d2 path2)"
proof -
  obtain s lim pol where sm: "smooth n S s" and fin: "finite (started_procs S)" and lim: "0 < lim"
    and re: "reach (self_pid (ctl_world S)) lim pol (view S s)" by (rule reach_smooth [OF assms(1-3)])
  note i = procs_invD [OF smoothD(1) [OF sm]]
  have empty: "fifos S (runner_fifo x) = []" if x: "run_proc S x = Some (Waiting_exit d path)" "filter protocol_msg (fifos S (runner_fifo x)) = []" for x d path
  proof -
    have "\<forall>y\<in>set (fifos S (runner_fifo x)). protocol_msg y"
      using traffic_okD(6) [OF i(2) procs_runner(1) [OF smoothD(1) [OF sm] x(1)]] answer_protocol [of s "run_proc S" x] x(1) by force
    then show ?thesis using x(2) by (simp add: filter_empty_conv)
  qed
  have "filter protocol_msg (fifos S (runner_fifo p)) = [] \<or> filter protocol_msg (fifos S (runner_fifo q)) = []"
    using reach_told [OF re lim] assms(5-7) unfolding told_def by (metis phase_of.simps(4) view_simps(2,3))
  then have "left_waiting S p (Waiting_exit d1 path1) \<or> left_waiting S q (Waiting_exit d2 path2)"
    using assms(3-6) empty by (auto simp: left_waiting_def)
  then show ?thesis using left_waiting_run [OF assms(8) sm assms(2) fin] by (auto simp: left_waiting_def)
qed

theorem programs_tell_one_witness:
  "\<exists>S. preach demo_argv stops_args 1 S \<and> \<not> troubled S \<and> ctl_proc S = Returned 0 \<and>
     (\<forall>j k S'. work_run j k S S' \<longrightarrow> (\<exists>p\<in>{300, 301}. \<exists>d path. run_proc S' p = Some (Waiting_exit d path)))"
proof -
  obtain S s d d0 where S: "preach demo_argv stops_args 1 S" "calm 1 S s" "ctl_proc S = Returned 0"
    "run_proc S = (\<lambda>_. None)(300 := Some (Waiting_exit d0 (runner_fifo 300)), 301 := Some (Waiting_exit d (runner_fifo 301)))"
    by (rule left_behind_reach)
  have b: "3 * int 1 < 2 ^ 31" by simp
  have p: "run_proc S 300 = Some (Waiting_exit d0 (runner_fifo 300))" "run_proc S 301 = Some (Waiting_exit d (runner_fifo 301))"
    using S(4) by simp_all
  have ne: "(300 :: int) \<noteq> 301" by simp
  note one = programs_tell_one [OF S(1) b calmD(2) [OF S(2)] S(3) p ne]
  show ?thesis using S(1,3) calmD(2) [OF S(2)] one by blast
qed

end
