(* ===== verification/Spec2Isabelle.thy ===== *)
theory Spec2Isabelle
  imports Fairness_Theorems Handler_Theorems Queue_Theorems Runner_Theorems Processes_Account
begin

text \<open>
  The Runner-Orchestrator (\<^verbatim>\<open>src/src\<close>, \<^verbatim>\<open>src/include\<close>): one controller process decides which submitted
  commands may run; every command belongs to a runner process, which submits it, waits for the
  authorisation, executes it as a pipeline, and reports its end. They talk through named pipes: the public
  pipe of the controller and one private pipe per runner.

  \<^bold>\<open>The program.\<close> Each theory of this group is a translation of one source file, function by function and
  in the order of the file.

    \<^item> \<open>Protocol\<close>: \<^verbatim>\<open>include/common/protocol.h\<close>, and the functions of the standard library that both programs
      use to build texts (\<open>snprintf\<close> with \<open>%d\<close>, \<open>strncpy\<close>, \<open>atoi\<close>). A message is a record; its size is the one the
      compiler gives the structure (504 bytes).
    \<^item> \<open>C_Runtime\<close>: the process state \<open>os\<close> (time, outcomes of allocations and calls, heap of the queues, number
      of allocated blocks and open descriptors, list of outputs) and C arithmetic. \<open>None\<close> is undefined behaviour
      (an overflow of \<open>int\<close>, a dead pointer, an index out of bounds, reading uninitialised memory) or, for the loop of the
      stage parser, a loop that does not end.
    \<^item> \<open>Ipc\<close>: \<^verbatim>\<open>common/ipc.c\<close>.
    \<^item> \<open>Job_Queue\<close>, \<open>Fair_Policy\<close>: \<^verbatim>\<open>controller/scheduler.c\<close>. The linked lists live in an explicit heap with
      deallocation; the relation \<open>store\<close> says which lists of jobs the heap holds.
    \<^item> \<open>Controller\<close>, \<open>Controller_Main\<close>: \<^verbatim>\<open>controller/controller_handlers.c\<close>, \<^verbatim>\<open>controller/controller.c\<close>.
    \<^item> \<open>Command_Parser\<close>, \<open>Executor\<close>, \<open>Runner\<close>: \<^verbatim>\<open>runner/parser.c\<close>, \<^verbatim>\<open>runner/executor.c\<close>, \<^verbatim>\<open>runner/runner_cli.c\<close> and
      \<^verbatim>\<open>runner/runner.c\<close>. A child process is the part of \<open>execute_pipeline\<close> up to \<open>execvp\<close> on a copy of the
      descriptor table; what counts about it is the argument vector and the table that the executed program gets.

  What the environment decides is a parameter of the process state and arbitrary in every theorem that
  does not say otherwise: which allocations fail, the results of system calls, random numbers, the clock, the
  exit status of the executed programs and the order in which children end. What arrives on a pipe
  is a list of read results, short reads and errors included.

  \<^bold>\<open>Specifications and proofs.\<close>

    \<^item> \<open>Controller_Spec\<close>: the abstract scheduler, a relation between the lists of waiting and running jobs
      before and after a message, the messages sent and the lines logged. Its first argument says whether
      allocations may fail.
    \<^item> \<open>Effects\<close>, \<open>Controller_Effects\<close>: what an operation sends and logs, and what it leaves alone.
    \<^item> \<open>Controller_Refine\<close>, \<open>Controller_Handlers\<close>, \<open>Controller_Run\<close>: every handler, then the main loop and the whole
      program, are defined and implement the abstract scheduler (relation \<open>ctl_rep\<close>).
    \<^item> \<open>Spec_Properties\<close>: invariants of the abstract scheduler: accounts of jobs, order, no idle slot, drain, fairness.
    \<^item> \<open>Command_Parser_Correct\<close>: the parser against \<open>command_view\<close>, a specification over segments and items.
    \<^item> \<open>Executor_Correct\<close>, \<open>Executor_Effects\<close>: the descriptors of parent and children of a pipeline.
    \<^item> \<open>Runner_Correct\<close>: the three modes of the runner.
    \<^item> \<open>System\<close>: controller and runners together; a step is a message handled by the controller or a step of the
      protocol of one runner, in any interleaving. The invariant \<open>sys_inv\<close> says for each runner which
      message or job it owns in each phase.
    \<^item> \<open>Runner_Steps\<close>, \<open>Controller_Steps\<close>: the two programs cut at their blocking calls. A state of a process is the
      place where it waits, with its local variables (\<open>runner_state\<close>, \<open>controller_proc\<close>); a step is the code from one
      such place to the next one. Both programs equal their steps, driven by what they read.
    \<^item> \<open>Processes\<close>: the two programs run together. The state \<open>processes\<close> holds the controller and any number of
      runners, each with its own process state (heap, descriptors, failures of calls), and the contents of the pipes; a
      user may start a runner with any arguments at any time, and every process takes its steps in any
      interleaving.
    \<^item> \<open>Processes_Correct\<close>: the invariant \<open>procs_inv\<close>, which every step keeps whatever calls fail: the heap of the
      controller stands for lists of jobs, and every message in a pipe is one that its reader waits for.
    \<^item> \<open>Processes_Refine\<close>: when no call fails, a step of the processes is one of \<open>System\<close> or it is part of a status
      query or of the opening of the public pipe, which use up a potential.

  \<^bold>\<open>Properties.\<close> \<open>Controller_Theorems\<close> (the whole controller program: refinement, limit, conservation of jobs,
  order, no idle slot, exit), \<open>Fairness_Theorems\<close> (the fair policy under arriving messages), \<open>Queue_Theorems\<close> (the queue
  as a list, the fair removal and listing), \<open>Runner_Theorems\<close> (parser, executor, modes of the runner, command line),
  \<open>Handler_Theorems\<close> (one exchange from the controller's handler to the runner that reads the answer),
  \<open>System_Theorems\<close> (programs running at once, deadlocks, termination, runners left behind, and the simulation that
  ties the controller's code to the system), \<open>Processes_Theorems\<close> (the composed programs). The last group comes in two
  parts. Whatever calls fail in any process: the limit on running commands, the absence of undefined behaviour, the
  messages in the pipes, and the state left by a controller that has returned. When no call fails
  (\<open>troubled\<close> is false): the composed programs implement \<open>System\<close>, all commands are executed, a
  shutdown takes place, and a runner is blocked only after the controller has returned. \<open>Processes_Account\<close> adds where
  each command and each slot is, and the two ways in which a runner is left waiting. \<open>Processes_Runs\<close> holds the runs that
  the instances use.

  \<^bold>\<open>Interfaces.\<close> The locales of \<open>Job_Queue\<close> state what a queue of jobs promises and what a policy for taking jobs
  out of it promises; they are interpreted there on the linked list of the code with its removal from the front and
  its random removal. The fair removal depends on the table of users; lemma \<open>fair_policy\<close> of \<open>Fair_Policy\<close> shows that it
  meets the same contract for every table.
  The locales of \<open>Progress\<close> state what makes a system reach its goal: \<open>bounded_runs\<close> that its runs are bounded in
  number of steps, \<open>goal_runs\<close> that a state without a next step is the goal. They are interpreted in \<open>System_Theorems\<close> on
  the protocol of the system (every runner finishes) and in \<open>Processes_Theorems\<close> on the composed programs (the
  commands are executed, and the shutdown takes place).

  \<^bold>\<open>Bounds.\<close> The theorems about the controller ask that three times the number of messages is below \<open>2 ^ 31\<close>: the array
  of users doubles when it is full, so its capacity stays within an \<open>int\<close>, as do the queue sizes. For the
  composed programs it is the number of messages the controller has handled or can still handle; \<open>work_left\<close> bounds the
  steps that are left by the unread messages and the runners started. The runner's parser reads at
  most 16 stages (the first argument of \<open>parse_stages\<close>) and 31 arguments a stage. The loops over queues and arrays count
  the elements left; the loop of the stage parser is a partial function, proved to return on every input.

  \<^bold>\<open>Not modelled.\<close> Blocking as such: that \<open>open\<close> waits for the other end and that a write to a pipe
  without a reader raises \<open>SIGPIPE\<close>; a call returns some result. The private pipe's descriptor in the
  runner is counted as an open descriptor but not entered into the table that children inherit. What a
  failing child prints with \<open>perror\<close>. The calls \<open>srand\<close> and \<open>time\<close>, as random numbers are arbitrary. Messages whose
  type field is outside the enumeration, which a foreign process could send, and processes that do not
  follow the protocol of the runner. A process number is used by one runner only. A runner started after the exit of the
  controller: without failures it would wait in \<open>open\<close>, so it is no step there. \<open>System\<close> has no status queries; the
  composed programs of \<open>Processes\<close> have them, and \<open>Handler_Theorems\<close> says what they show. The test scripts, the Makefile and the
  documentation hold no logic of the program.
\<close>

end
